(* ===== verification/Shardlog_Prelude.thy ===== *)
theory Shardlog_Prelude
  imports Main "HOL-Library.Word" "HOL-Library.AList" "HOL-Library.Multiset"
begin

text \<open>
  The vocabulary every component shares: machine integers with Rust's checked and
  saturating operations, the error values of \<^verbatim>\<open>src/src/error.rs\<close> with the
  question-mark operator as \<open>and_then\<close>, the slice operations of the standard library
  (binary search, partition point, comparison sort), little-endian byte strings, and the
  \<open>codec\<close> interface that the binary formats implement.

  Sizes (\<^verbatim>\<open>usize\<close>) are \<open>nat\<close>; every other integer keeps its width.
\<close>

unbundle bit_operations_syntax

named_theorems codec_simps \<open>evaluation of decoders over concatenated encodings\<close>

section \<open>Machine integers\<close>

type_synonym u8 = "8 word"
type_synonym u16 = "16 word"
type_synonym u32 = "32 word"
type_synonym u64 = "64 word"
type_synonym u128 = "128 word"
type_synonym bytes = "8 word list"

abbreviation usize_max :: nat where
  "usize_max \<equiv> 2 ^ 64 - 1"

definition checked_add :: "'a::len word \<Rightarrow> 'a word \<Rightarrow> 'a word option" where
  "checked_add a b = (if unat a + unat b < 2 ^ LENGTH('a) then Some (a + b) else None)"

definition saturating_add :: "'a::len word \<Rightarrow> 'a word \<Rightarrow> 'a word" where
  "saturating_add a b = (if unat a + unat b < 2 ^ LENGTH('a) then a + b else - 1)"

definition saturating_sub :: "'a::len word \<Rightarrow> 'a word \<Rightarrow> 'a word" where
  "saturating_sub a b = (if b \<le> a then a - b else 0)"

definition word_saturating_mul :: "'a::len word \<Rightarrow> 'a word \<Rightarrow> 'a word" where
  "word_saturating_mul a b = (if unat a * unat b < 2 ^ LENGTH('a) then a * b else - 1)"

definition count_ones :: "'a::len word \<Rightarrow> nat" where
  "count_ones w = length (filter (bit w) [0 ..< LENGTH('a)])"

definition try_word :: "nat \<Rightarrow> 'a::len word option" where
  "try_word n = (if n < 2 ^ LENGTH('a) then Some (of_nat n) else None)"

lemma unat_bound: "unat (w :: 'a::len word) < 2 ^ LENGTH('a)"
  by (rule unsigned_less)

lemma checked_add_Some:
  "checked_add a b = Some c \<longleftrightarrow> unat c = unat a + unat b"
proof
  assume "checked_add a b = Some c"
  then show "unat c = unat a + unat b"
    by (auto simp: checked_add_def unat_word_ariths split: if_splits)
next
  assume c: "unat c = unat a + unat b"
  then have "unat a + unat b < 2 ^ LENGTH('a)" using unat_bound [of c] by linarith
  with c show "checked_add a b = Some c"
    by (simp add: checked_add_def unat_word_ariths word_unat_eq_iff)
qed

lemma checked_add_None:
  fixes a b :: "'a::len word"
  shows "checked_add a b = None \<longleftrightarrow> 2 ^ LENGTH('a) \<le> unat a + unat b"
  by (auto simp: checked_add_def)

lemma unat_saturating_add:
  fixes a b :: "'a::len word"
  shows "unat (saturating_add a b) = min (unat a + unat b) (2 ^ LENGTH('a) - 1)"
proof (cases "unat a + unat b < 2 ^ LENGTH('a)")
  case True
  then show ?thesis by (simp add: saturating_add_def unat_word_ariths)
next
  case False
  then have "2 ^ LENGTH('a) - 1 \<le> unat a + unat b" by linarith
  with False show ?thesis
    by (simp add: saturating_add_def unsigned_minus_1_eq_mask mask_eq_exp_minus_1 min_absorb2)
qed

lemma unat_saturating_sub: "unat (saturating_sub a b) = unat a - unat b"
  by (auto simp: saturating_sub_def word_le_nat_alt unat_sub)

lemma try_word_Some:
  "try_word n = Some (w :: 'a::len word) \<longleftrightarrow> unat w = n"
  unfolding try_word_def
  by (auto simp: unat_of_nat word_unat_eq_iff)

lemma try_word_None: "try_word n = (None :: 'a::len word option) \<longleftrightarrow> 2 ^ LENGTH('a) \<le> n"
  by (auto simp: try_word_def)

lemma try_word_unat [simp]: "try_word (unat w) = Some w"
  by (simp add: try_word_Some)

text \<open>The half-open range \<^verbatim>\<open>a..b\<close> of words, in order.\<close>

definition word_range :: "'a::len word \<Rightarrow> 'a word \<Rightarrow> 'a word list" where
  "word_range a b = map of_nat [unat a ..< unat b]"

lemma set_word_range [simp]: "set (word_range a b) = {a ..< b}"
proof -
  have "x \<in> of_nat ` {unat a ..< unat b} \<longleftrightarrow> a \<le> x \<and> x < b" for x
  proof
    assume "x \<in> of_nat ` {unat a ..< unat b}"
    then obtain n where n: "x = of_nat n" "unat a \<le> n" "n < unat b" by auto
    have "n < 2 ^ LENGTH('a)" using n(3) unat_bound [of b] by linarith
    then have "unat x = n" using n(1) by (simp add: unat_of_nat)
    with n show "a \<le> x \<and> x < b" by (simp add: word_le_nat_alt word_less_nat_alt)
  next
    assume "a \<le> x \<and> x < b"
    then show "x \<in> of_nat ` {unat a ..< unat b}"
      by (intro image_eqI [of _ _ "unat x"]) (auto simp: word_le_nat_alt word_less_nat_alt)
  qed
  then show ?thesis by (auto simp: word_range_def set_eq_iff)
qed

lemma length_word_range [simp]: "length (word_range a b) = unat b - unat a"
  by (simp add: word_range_def)

lemma sorted_word_range: "sorted_wrt (<) (word_range a (b :: 'a::len word))"
proof -
  have "\<forall>n\<in>set [unat a ..< unat b]. n < 2 ^ LENGTH('a)"
    using order.strict_trans [OF _ unat_bound [of b]] by simp
  then have "sorted_wrt (\<lambda>m n. (of_nat m :: 'a word) < of_nat n) [unat a ..< unat b]"
    by (intro sorted_wrt_mono_rel [OF _ sorted_wrt_upt])
       (auto simp: word_less_nat_alt unat_of_nat)
  then show ?thesis by (simp add: word_range_def sorted_wrt_map)
qed

section \<open>Errors and results\<close>

text \<open>
  Identifiers of the stream engine (\<^verbatim>\<open>shard_stream_core\<close>) are newtypes around
  integers of these widths; a topic partition is a topic identifier with a partition number.
\<close>

type_synonym shard_id = u32
type_synonym topic_id = u128
type_synonym logical_partition_id = u32
type_synonym topic_partition = "topic_id \<times> logical_partition_id"
type_synonym logical_offset = u64
type_synonym placement_sequence = u64
type_synonym dictionary_id = u128

text \<open>\<^verbatim>\<open>LogDbError\<close>, constructor for constructor.\<close>

datatype log_db_error =
    InvalidConfig string
  | DuplicateStripe shard_id
  | UnknownStripe shard_id
  | WrongStripe shard_id shard_id
  | OffsetOutOfOrder topic_partition logical_offset logical_offset
  | OffsetExhausted topic_partition
  | DuplicateRecord topic_partition logical_offset
  | ConflictingRecord topic_partition logical_offset
  | UnknownBlock u64
  | EmptyDictionary
  | DictionaryTooLarge nat nat
  | DictionaryIdConflict dictionary_id
  | DictionaryCatalogUnavailable
  | DictionaryTrainerUnavailable
  | DictionaryTrainingFailed string
  | MissingDictionary dictionary_id
  | RecordTooLarge
  | InvalidBlockEncoding string
  | CompressionFailed string
  | InvalidOtlpPayload string
  | InvalidNativePayload string
  | InvalidQuery string
  | QueryWorkerUnavailable string
  | StorageIo string
  | CorruptSinkJournal string
  | SinkJournalFull u64 u64
  | ObjectStore string
  | CorruptTier string
  | StaleCatalog "string option" "string option"
  | MissingStagedPayload u64

type_synonym 'a log_db_result = "log_db_error + 'a"

text \<open>The question-mark operator: continue with the value or return the error.\<close>

definition and_then :: "'e + 'a \<Rightarrow> ('a \<Rightarrow> 'e + 'b) \<Rightarrow> 'e + 'b" where
  "and_then r f = (case r of Inl e \<Rightarrow> Inl e | Inr v \<Rightarrow> f v)"

lemma and_then_simps [simp]:
  "and_then (Inl e) f = Inl e"
  "and_then (Inr v) f = f v"
  by (simp_all add: and_then_def)

lemma and_then_eq_Inr:
  "and_then r f = Inr w \<longleftrightarrow> (\<exists>v. r = Inr v \<and> f v = Inr w)"
  by (cases r) auto

lemma and_then_eq_Inl:
  "and_then r f = Inl e \<longleftrightarrow> r = Inl e \<or> (\<exists>v. r = Inr v \<and> f v = Inl e)"
  by (cases r) auto

definition ok_or :: "'a option \<Rightarrow> 'e \<Rightarrow> 'e + 'a" where
  "ok_or x e = (case x of None \<Rightarrow> Inl e | Some v \<Rightarrow> Inr v)"

lemma ok_or_simps [simp]:
  "ok_or None e = Inl e"
  "ok_or (Some v) e = Inr v"
  by (simp_all add: ok_or_def)

lemma ok_or_eq_Inr [simp]: "ok_or x e = Inr v \<longleftrightarrow> x = Some v"
  by (cases x) auto

section \<open>Slices\<close>

subsection \<open>Binary search\<close>

text \<open>
  \<^verbatim>\<open>slice::binary_search_by\<close>: the comparator tells where an element lies relative
  to the target. The loop halves a window \<open>base\<close>, \<open>size\<close>.
\<close>

datatype ordering = Less | Equal | Greater

definition cmp :: "'a::linorder \<Rightarrow> 'a \<Rightarrow> ordering" where
  "cmp a b = (if a < b then Less else if a = b then Equal else Greater)"

fun bsearch_loop :: "('a \<Rightarrow> ordering) \<Rightarrow> 'a list \<Rightarrow> nat \<Rightarrow> nat \<Rightarrow> nat" where
  "bsearch_loop f xs base sz =
     (if sz \<le> 1 then base
      else let half = sz div 2; mid = base + half
           in bsearch_loop f xs (if f (xs ! mid) = Greater then base else mid) (sz - half))"

declare bsearch_loop.simps [simp del]

definition binary_search_by :: "('a \<Rightarrow> ordering) \<Rightarrow> 'a list \<Rightarrow> nat + nat" where
  "binary_search_by f xs =
     (if xs = [] then Inl 0
      else let base = bsearch_loop f xs 0 (length xs)
           in case f (xs ! base) of
                Equal \<Rightarrow> Inr base
              | Less \<Rightarrow> Inl (base + 1)
              | Greater \<Rightarrow> Inl base)"

abbreviation binary_search_by_key :: "('a \<Rightarrow> 'k::linorder) \<Rightarrow> 'k \<Rightarrow> 'a list \<Rightarrow> nat + nat" where
  "binary_search_by_key key k xs \<equiv> binary_search_by (\<lambda>x. cmp (key x) k) xs"

definition partition_point :: "('a \<Rightarrow> bool) \<Rightarrow> 'a list \<Rightarrow> nat" where
  "partition_point p xs =
     (case binary_search_by (\<lambda>x. if p x then Less else Greater) xs of Inl i \<Rightarrow> i | Inr i \<Rightarrow> i)"

text \<open>
  The comparator must be monotone along the slice: never Less after Equal or Greater, never
  Equal after Greater.
\<close>

definition monotone_cmp :: "('a \<Rightarrow> ordering) \<Rightarrow> 'a list \<Rightarrow> bool" where
  "monotone_cmp f xs \<longleftrightarrow>
     sorted_wrt (\<lambda>a b. (f b = Less \<longrightarrow> f a = Less) \<and> (f a = Greater \<longrightarrow> f b = Greater)) xs"

lemma monotone_cmp_nth:
  assumes "monotone_cmp f xs" "i < j" "j < length xs"
  shows "f (xs ! j) = Less \<Longrightarrow> f (xs ! i) = Less"
    and "f (xs ! i) = Greater \<Longrightarrow> f (xs ! j) = Greater"
  using assms by (auto simp: monotone_cmp_def sorted_wrt_iff_nth_less)

lemma bsearch_loop_bounds:
  "0 < sz \<Longrightarrow> base \<le> bsearch_loop f xs base sz \<and> bsearch_loop f xs base sz < base + sz"
proof (induction f xs base sz rule: bsearch_loop.induct)
  case (1 f xs base sz)
  show ?case
  proof (cases "sz \<le> 1")
    case True
    with "1.prems" show ?thesis by (subst (1 2) bsearch_loop.simps) auto
  next
    case False
    let ?half = "sz div 2"
    let ?b = "if f (xs ! (base + ?half)) = Greater then base else base + ?half"
    have "?half < sz" "0 < sz - ?half" using False by auto
    with "1.IH" [OF False refl refl] have
      "?b \<le> bsearch_loop f xs ?b (sz - ?half)"
      "bsearch_loop f xs ?b (sz - ?half) < ?b + (sz - ?half)" by simp_all
    moreover have "bsearch_loop f xs base sz = bsearch_loop f xs ?b (sz - ?half)"
      using False by (subst bsearch_loop.simps) (simp add: Let_def)
    moreover have "base \<le> ?b" "?b \<le> base + ?half" by simp_all
    ultimately show ?thesis using \<open>?half < sz\<close> by linarith
  qed
qed

text \<open>
  Everything left of the window's base is not Greater, everything right of the window is
  Greater: the loop keeps both.
\<close>

lemma bsearch_loop_split:
  assumes "monotone_cmp f xs" "0 < sz" "base + sz \<le> length xs"
    and "\<forall>i<base. f (xs ! i) \<noteq> Greater"
    and "\<forall>i. base + sz \<le> i \<and> i < length xs \<longrightarrow> f (xs ! i) = Greater"
  defines "r \<equiv> bsearch_loop f xs base sz"
  shows "(\<forall>i<r. f (xs ! i) \<noteq> Greater) \<and> (\<forall>i. r < i \<and> i < length xs \<longrightarrow> f (xs ! i) = Greater)"
  using assms(1-5) unfolding r_def
proof (induction f xs base sz rule: bsearch_loop.induct)
  case (1 f xs base sz)
  show ?case
  proof (cases "sz \<le> 1")
    case True
    with "1.prems" have "sz = 1" by simp
    with "1.prems" show ?thesis by (subst (1 2) bsearch_loop.simps) auto
  next
    case False
    let ?mid = "base + sz div 2"
    let ?b = "if f (xs ! ?mid) = Greater then base else ?mid"
    have eq: "bsearch_loop f xs base sz = bsearch_loop f xs ?b (sz - sz div 2)"
      using False by (subst bsearch_loop.simps) (simp add: Let_def)
    have mid: "?mid < length xs" using "1.prems" False by linarith
    have low: "\<forall>i<?b. f (xs ! i) \<noteq> Greater"
      using "1.prems"(4) monotone_cmp_nth(2) [OF "1.prems"(1) _ mid] by (auto split: if_splits)
    have high: "f (xs ! i) = Greater" if "?b + (sz - sz div 2) \<le> i" "i < length xs" for i
    proof (cases "f (xs ! ?mid) = Greater")
      case True
      with that(1) have "?mid \<le> i" using False by auto
      then show ?thesis
        using True monotone_cmp_nth(2) [OF "1.prems"(1) _ that(2), of ?mid]
        by (cases "?mid = i") auto
    next
      case False
      with that show ?thesis using "1.prems"(5) by auto
    qed
    have pos: "0 < sz - sz div 2" and
      len: "?b + (sz - sz div 2) \<le> length xs" using False "1.prems"(3) by auto
    show ?thesis unfolding eq
      by (rule "1.IH" [OF False refl refl "1.prems"(1) pos len low]) (use high in blast)
  qed
qed

lemma bsearch_loop_base:
  assumes "base = 0 \<or> f (xs ! base) \<noteq> Greater"
  shows "bsearch_loop f xs base sz = 0 \<or> f (xs ! bsearch_loop f xs base sz) \<noteq> Greater"
  using assms
proof (induction f xs base sz rule: bsearch_loop.induct)
  case (1 f xs base sz)
  show ?case
  proof (cases "sz \<le> 1")
    case True
    with "1.prems" show ?thesis by (subst (1 2) bsearch_loop.simps) simp
  next
    case False
    let ?b = "if f (xs ! (base + sz div 2)) = Greater then base else base + sz div 2"
    have "bsearch_loop f xs base sz = bsearch_loop f xs ?b (sz - sz div 2)"
      using False by (subst bsearch_loop.simps) (simp add: Let_def)
    then show ?thesis using "1.IH" [OF False refl refl] "1.prems" by simp
  qed
qed

lemma binary_search_by_cases:
  assumes "monotone_cmp f xs"
  shows "case binary_search_by f xs of
      Inr i \<Rightarrow> i < length xs \<and> f (xs ! i) = Equal
    | Inl i \<Rightarrow> i \<le> length xs \<and> (\<forall>j<length xs. f (xs ! j) = (if j < i then Less else Greater))"
proof (cases "xs = []")
  case True
  then show ?thesis by (simp add: binary_search_by_def)
next
  case False
  let ?r = "bsearch_loop f xs 0 (length xs)"
  have r: "?r < length xs" using bsearch_loop_bounds [of "length xs" 0 f xs] False by simp
  have split: "(\<forall>i<?r. f (xs ! i) \<noteq> Greater) \<and>
      (\<forall>i. ?r < i \<and> i < length xs \<longrightarrow> f (xs ! i) = Greater)"
    by (rule bsearch_loop_split [OF assms]) (use False in auto)
  show ?thesis
  proof (cases "f (xs ! ?r)")
    case Equal
    with r False show ?thesis by (simp add: binary_search_by_def)
  next
    case Less
    have "f (xs ! j) = (if j < ?r + 1 then Less else Greater)" if "j < length xs" for j
      using split that Less monotone_cmp_nth(1) [OF assms _ r Less, of j]
      by (cases "j = ?r") auto
    with r False Less show ?thesis by (simp add: binary_search_by_def)
  next
    case Greater
    then have "?r = 0" using bsearch_loop_base [of 0 f xs "length xs"] by simp
    with False Greater split show ?thesis
      by (auto simp: binary_search_by_def) (metis gr0I)
  qed
qed

lemma monotone_cmp_key:
  assumes "sorted_wrt (<) (map key xs)"
  shows "monotone_cmp (\<lambda>x. cmp (key x) k) xs"
  unfolding monotone_cmp_def
  by (rule sorted_wrt_mono_rel [OF _ assms [unfolded sorted_wrt_map]])
     (auto simp: cmp_def split: if_splits)

lemma binary_search_by_key_Inr:
  assumes "sorted_wrt (<) (map key xs)"
  shows "binary_search_by_key key k xs = Inr i \<longleftrightarrow> i < length xs \<and> key (xs ! i) = k"
proof -
  note cases = binary_search_by_cases [OF monotone_cmp_key [OF assms], of k]
  have uniq: "i = j" if "i < length xs" "j < length xs" "key (xs ! i) = key (xs ! j)" for i j
    using assms that by (metis strict_sorted_iff distinct_map nth_eq_iff_index_eq length_map nth_map)
  show ?thesis
  proof (cases "binary_search_by_key key k xs")
    case (Inl j)
    then have "\<forall>i<length xs. key (xs ! i) \<noteq> k"
      using cases by (auto simp: cmp_def split: if_splits)
    with Inl show ?thesis by auto
  next
    case (Inr j)
    then have "j < length xs" "key (xs ! j) = k"
      using cases by (auto simp: cmp_def split: if_splits)
    with Inr uniq show ?thesis by auto
  qed
qed

text \<open>The composition \<^verbatim>\<open>binary_search_by_key(..).ok().and_then(|i| xs.get(i))\<close>.\<close>

definition find_by_key :: "('a \<Rightarrow> 'k::linorder) \<Rightarrow> 'k \<Rightarrow> 'a list \<Rightarrow> 'a option" where
  "find_by_key key k xs =
     (case binary_search_by_key key k xs of Inl _ \<Rightarrow> None
      | Inr i \<Rightarrow> (if i < length xs then Some (xs ! i) else None))"

lemma find_by_key_Some:
  assumes "sorted_wrt (<) (map key xs)"
  shows "find_by_key key k xs = Some x \<longleftrightarrow> x \<in> set xs \<and> key x = k"
proof (cases "binary_search_by_key key k xs")
  case (Inl j)
  then have "\<forall>i<length xs. key (xs ! i) \<noteq> k"
    using binary_search_by_key_Inr [OF assms, of k] by auto
  with Inl show ?thesis by (auto simp: find_by_key_def in_set_conv_nth)
next
  case (Inr j)
  note uniq = binary_search_by_key_Inr [OF assms, of k]
  have j: "j < length xs" "key (xs ! j) = k" using uniq Inr by auto
  have "x = xs ! j" if "x \<in> set xs" "key x = k" for x
  proof -
    from that obtain i where "i < length xs" "x = xs ! i" by (auto simp: in_set_conv_nth)
    with that(2) uniq [of i] Inr show ?thesis by simp
  qed
  with Inr j show ?thesis by (auto simp: find_by_key_def)
qed

lemma find_by_key_None:
  assumes "sorted_wrt (<) (map key xs)"
  shows "find_by_key key k xs = None \<longleftrightarrow> k \<notin> key ` set xs"
  using find_by_key_Some [OF assms, of k]
  by (metis (no_types, lifting) image_iff not_None_eq)

lemma partition_point_nth:
  assumes "sorted_wrt (\<lambda>a b. p b \<longrightarrow> p a) xs"
  shows "partition_point p xs \<le> length xs"
    and "i < length xs \<Longrightarrow> p (xs ! i) \<longleftrightarrow> i < partition_point p xs"
proof -
  let ?f = "\<lambda>x. if p x then Less else Greater"
  have "monotone_cmp ?f xs"
    unfolding monotone_cmp_def by (rule sorted_wrt_mono_rel [OF _ assms]) auto
  from binary_search_by_cases [OF this] obtain j where
    "binary_search_by ?f xs = Inl j" "j \<le> length xs"
    "\<forall>i<length xs. ?f (xs ! i) = (if i < j then Less else Greater)"
    by (auto split: sum.splits if_splits)
  then show "partition_point p xs \<le> length xs"
    and "i < length xs \<Longrightarrow> p (xs ! i) \<longleftrightarrow> i < partition_point p xs"
    by (auto simp: partition_point_def split: if_splits)
qed

subsection \<open>Sorting\<close>

text \<open>
  \<^verbatim>\<open>sort_unstable_by\<close> with a comparator, as insertion. The source leaves the order
  of elements that compare equal open; the lemmas below speak of the multiset and of
  sortedness only.
\<close>

fun insert_by :: "('a \<Rightarrow> 'a \<Rightarrow> ordering) \<Rightarrow> 'a \<Rightarrow> 'a list \<Rightarrow> 'a list" where
  "insert_by c x [] = [x]"
| "insert_by c x (y # ys) = (if c x y = Greater then y # insert_by c x ys else x # y # ys)"

definition sort_by :: "('a \<Rightarrow> 'a \<Rightarrow> ordering) \<Rightarrow> 'a list \<Rightarrow> 'a list" where
  "sort_by c xs = foldr (insert_by c) xs []"

lemma mset_insert_by: "mset (insert_by c x ys) = add_mset x (mset ys)"
  by (induction ys) auto

lemma mset_sort_by [simp]: "mset (sort_by c xs) = mset xs"
  by (induction xs) (simp_all add: sort_by_def mset_insert_by)

lemma set_sort_by [simp]: "set (sort_by c xs) = set xs"
  by (metis mset_sort_by set_mset_mset)

lemma length_sort_by [simp]: "length (sort_by c xs) = length xs"
  by (metis mset_sort_by size_mset)

lemma distinct_sort_by [simp]: "distinct (sort_by c xs) = distinct xs"
  by (metis mset_sort_by mset_eq_imp_distinct_iff)

lemma sorted_wrt_asym_unique:
  assumes asym: "\<And>a b. R a b \<Longrightarrow> \<not> R b a"
  shows "sorted_wrt R xs \<Longrightarrow> sorted_wrt R ys \<Longrightarrow> set xs = set ys \<Longrightarrow> xs = ys"
proof (induction xs arbitrary: ys)
  case (Cons x xs)
  then obtain y zs where ys: "ys = y # zs" by (cases ys) auto
  have "x = y"
  proof (rule ccontr)
    assume "x \<noteq> y"
    then have "x \<in> set zs" "y \<in> set xs" using Cons.prems(3) ys by auto
    then have "R y x" "R x y" using Cons.prems(1,2) ys by auto
    then show False using asym by blast
  qed
  moreover have "\<not> R a a" for a using asym by blast
  then have "x \<notin> set xs" "y \<notin> set zs" using Cons.prems ys by auto
  ultimately have "set xs = set zs" using Cons.prems(3) ys by (simp add: insert_ident)
  then show ?case using Cons ys \<open>x = y\<close> by simp
qed simp

text \<open>What a comparator owes its callers, and what sorting with it then gives.\<close>

locale comparator =
  fixes c :: "'a \<Rightarrow> 'a \<Rightarrow> ordering"
  assumes swap: "c a b = Greater \<longleftrightarrow> c b a = Less"
    and trans: "c a b \<noteq> Greater \<Longrightarrow> c b d \<noteq> Greater \<Longrightarrow> c a d \<noteq> Greater"
begin

lemma sorted_insert_by:
  "sorted_wrt (\<lambda>a b. c a b \<noteq> Greater) ys \<Longrightarrow>
   sorted_wrt (\<lambda>a b. c a b \<noteq> Greater) (insert_by c x ys)"
proof (induction ys)
  case (Cons y ys)
  have "set (insert_by c x ys) = insert x (set ys)"
    by (metis mset_insert_by set_mset_add_mset_insert set_mset_mset)
  moreover have "c x y = Greater \<Longrightarrow> c y x \<noteq> Greater" by (metis swap ordering.distinct(3))
  ultimately show ?case using Cons trans [of x y] by auto
qed simp

lemma sorted_sort_by: "sorted_wrt (\<lambda>a b. c a b \<noteq> Greater) (sort_by c xs)"
  by (induction xs) (simp_all add: sort_by_def sorted_insert_by)

text \<open>A sorted list whose elements never compare equal is the only arrangement of its set.\<close>

lemma sort_by_unique:
  assumes "sorted_wrt (\<lambda>a b. c a b \<noteq> Greater) ys" "set ys = set xs"
    and "distinct xs" "distinct ys"
    and "\<And>a b. a \<in> set xs \<Longrightarrow> b \<in> set xs \<Longrightarrow> c a b = Equal \<Longrightarrow> a = b"
  shows "sort_by c xs = ys"
proof -
  have strict: "sorted_wrt (\<lambda>a b. c a b = Less) zs"
    if "sorted_wrt (\<lambda>a b. c a b \<noteq> Greater) zs" "set zs = set xs" "distinct zs" for zs
    unfolding sorted_wrt_iff_nth_less
  proof (intro allI impI)
    fix i j assume ij: "i < j" "j < length zs"
    then have "c (zs ! i) (zs ! j) \<noteq> Greater"
      using that(1) by (auto simp: sorted_wrt_iff_nth_less)
    moreover have "zs ! i \<noteq> zs ! j" using ij that(3) by (simp add: nth_eq_iff_index_eq)
    then have "c (zs ! i) (zs ! j) \<noteq> Equal" using assms(5) ij that(2) by (metis nth_mem order_less_trans)
    ultimately show "c (zs ! i) (zs ! j) = Less" by (cases "c (zs ! i) (zs ! j)") auto
  qed
  have asym: "c b a \<noteq> Less" if "c a b = Less" for a b using that swap [of a b] by auto
  have "sorted_wrt (\<lambda>a b. c a b = Less) (sort_by c xs)"
    by (rule strict) (use assms(3) sorted_sort_by in auto)
  moreover have "sorted_wrt (\<lambda>a b. c a b = Less) ys" by (rule strict) (use assms in auto)
  moreover have "set (sort_by c xs) = set ys" using assms(2) by simp
  ultimately show ?thesis by (rule sorted_wrt_asym_unique [rotated]) (rule asym)
qed

end

text \<open>\<^verbatim>\<open>sort_unstable_by_key\<close>\<close>

lemma cmp_not_Greater: "cmp a b \<noteq> Greater \<longleftrightarrow> a \<le> b"
  by (auto simp: cmp_def)

interpretation key_order: comparator "\<lambda>a b. cmp (key a) (key b)" for key :: "'a \<Rightarrow> 'k::linorder"
  by unfold_locales (auto simp: cmp_def split: if_splits)

lemma sorted_by_key: "sorted_wrt (\<lambda>a b. key a \<le> key b) (sort_by (\<lambda>a b. cmp (key a) (key b)) xs)"
  using key_order.sorted_sort_by [of key xs] by (simp add: cmp_not_Greater)

lemma sort_by_sorted: "sorted_wrt (\<lambda>a b. c a b \<noteq> Greater) xs \<Longrightarrow> sort_by c xs = xs"
proof (induction xs)
  case (Cons x xs)
  then have "sort_by c (x # xs) = insert_by c x xs" by (simp add: sort_by_def)
  also have "\<dots> = x # xs" using Cons.prems by (cases xs) auto
  finally show ?case .
qed (simp add: sort_by_def)

lemma sort_by_map: "map f (sort_by (\<lambda>a b. c (f a) (f b)) xs) = sort_by c (map f xs)"
proof -
  have "map f (insert_by (\<lambda>a b. c (f a) (f b)) x ys) = insert_by c (f x) (map f ys)" for x ys
    by (induction ys) auto
  then show ?thesis by (induction xs) (simp_all add: sort_by_def)
qed

text \<open>\<^verbatim>\<open>Iterator::min_by_key\<close>: the first of the smallest elements.\<close>

fun min_by_key :: "('a \<Rightarrow> 'k::linorder) \<Rightarrow> 'a list \<Rightarrow> 'a option" where
  "min_by_key key [] = None"
| "min_by_key key (x # xs) = Some (foldl (\<lambda>m y. if key y < key m then y else m) x xs)"

lemma min_by_key_None [simp]: "min_by_key key xs = None \<longleftrightarrow> xs = []"
  by (cases xs) simp_all

lemma min_by_key_Some:
  assumes "min_by_key key xs = Some m"
  shows "m \<in> set xs" "\<forall>y\<in>set xs. key m \<le> key y"
proof -
  have "foldl (\<lambda>m y. if key y < key m then y else m) x ys \<in> set (x # ys) \<and>
      (\<forall>y\<in>set (x # ys). key (foldl (\<lambda>m y. if key y < key m then y else m) x ys) \<le> key y)" for x ys
  proof (induction ys rule: rev_induct)
    case (snoc y ys)
    then show ?case by (auto simp: not_less intro: order.trans less_imp_le)
  qed simp
  then show "m \<in> set xs" "\<forall>y\<in>set xs. key m \<le> key y"
    using assms by (cases xs; force)+
qed

subsection \<open>Sub-slices\<close>

definition list_get :: "'a list \<Rightarrow> nat \<Rightarrow> 'a option" where
  "list_get xs i = (if i < length xs then Some (xs ! i) else None)"

definition slice_get :: "'a list \<Rightarrow> nat \<Rightarrow> nat \<Rightarrow> 'a list option" where
  "slice_get xs a b = (if a \<le> b \<and> b \<le> length xs then Some (take (b - a) (drop a xs)) else None)"

lemma slice_get_middle [simp, codec_simps]:
  "slice_get (pre @ mid @ post) (length pre) (length pre + length mid) = Some mid"
  by (simp add: slice_get_def)

lemma slice_get_length: "slice_get xs a b = Some ys \<Longrightarrow> length ys = b - a"
  by (auto simp: slice_get_def split: if_splits)

fun chunks_exact :: "nat \<Rightarrow> 'a list \<Rightarrow> 'a list list" where
  "chunks_exact n xs = (if n = 0 \<or> length xs < n then [] else take n xs # chunks_exact n (drop n xs))"

declare chunks_exact.simps [simp del]

lemma chunks_exact_concat:
  assumes "\<forall>xs\<in>set xss. length xs = n" "0 < n"
  shows "chunks_exact n (concat xss) = xss"
  using assms by (induction xss) (simp_all add: chunks_exact.simps)

section \<open>Little-endian integers\<close>

text \<open>\<^verbatim>\<open>to_le_bytes\<close> and \<^verbatim>\<open>from_le_bytes\<close>.\<close>

primrec le_bytes :: "nat \<Rightarrow> 'a::len word \<Rightarrow> bytes" where
  "le_bytes 0 w = []"
| "le_bytes (Suc n) w = ucast w # le_bytes n (drop_bit 8 w)"

primrec le_word :: "bytes \<Rightarrow> 'a::len word" where
  "le_word [] = 0"
| "le_word (b # bs) = ucast b OR push_bit 8 (le_word bs)"

lemma length_le_bytes [simp]: "length (le_bytes n w) = n"
  by (induction n arbitrary: w) auto

lemma le_word_le_bytes_take: "le_word (le_bytes n w) = take_bit (8 * n) w"
proof (induction n arbitrary: w)
  case (Suc n)
  show ?case
  proof (rule bit_word_eqI)
    fix i assume "i < LENGTH('a)"
    then show "bit (le_word (le_bytes (Suc n) w) :: 'a word) i = bit (take_bit (8 * Suc n) w) i"
      using Suc.IH [of "drop_bit 8 w"]
      by (cases "i < 8") (auto simp: bit_simps)
  qed
qed simp

lemma le_word_le_bytes [simp]:
  fixes w :: "'a::len word"
  assumes "LENGTH('a) \<le> 8 * n"
  shows "le_word (le_bytes n w) = w"
  using assms by (simp add: le_word_le_bytes_take take_bit_word_eq_self)

section \<open>Binary formats\<close>

text \<open>
  Decoders read from a byte slice at a cursor and return the value with the cursor behind
  it. A format keeps its promise when reading at the start of an encoding, wherever that lies
  in the slice, gives back the value and stops exactly behind the encoding.
\<close>

type_synonym ('e, 'a) decoder = "bytes \<Rightarrow> nat \<Rightarrow> 'e + ('a \<times> nat)"

fun decode_n :: "('e, 'a) decoder \<Rightarrow> nat \<Rightarrow> ('e, 'a list) decoder" where
  "decode_n dec 0 bs cur = Inr ([], cur)"
| "decode_n dec (Suc n) bs cur =
     and_then (dec bs cur) (\<lambda>(v, cur).
     and_then (decode_n dec n bs cur) (\<lambda>(vs, cur). Inr (v # vs, cur)))"

text \<open>The slice \<open>bs\<close> holds the bytes \<open>e\<close> at position \<open>cur\<close>.\<close>

definition bytes_at :: "bytes \<Rightarrow> nat \<Rightarrow> bytes \<Rightarrow> bool" where
  "bytes_at bs cur e \<longleftrightarrow> cur + length e \<le> length bs \<and> take (length e) (drop cur bs) = e"

lemma bytes_at_append [codec_simps]:
  "bytes_at bs cur (e @ f) \<longleftrightarrow> bytes_at bs cur e \<and> bytes_at bs (cur + length e) f"
proof -
  have "take (length e + length f) (drop cur bs) =
      take (length e) (drop cur bs) @ take (length f) (drop (cur + length e) bs)"
    by (simp add: take_add add.commute)
  then show ?thesis by (auto simp: bytes_at_def)
qed

lemma bytes_at_Nil [codec_simps]: "bytes_at bs cur [] \<longleftrightarrow> cur \<le> length bs"
  by (simp add: bytes_at_def)

lemma bytes_at_single [codec_simps]: "bytes_at bs cur [b] \<longleftrightarrow> cur < length bs \<and> bs ! cur = b"
proof (cases "cur < length bs")
  case True
  then have "drop cur bs = bs ! cur # drop (Suc cur) bs" by (rule Cons_nth_drop_Suc [symmetric])
  with True show ?thesis by (simp add: bytes_at_def)
qed (simp add: bytes_at_def)

lemma bytes_at_Cons [codec_simps]:
  "bytes_at bs cur (b # e) \<longleftrightarrow> cur < length bs \<and> bs ! cur = b \<and> bytes_at bs (Suc cur) e"
  using bytes_at_append [of bs cur "[b]" e] by (simp add: bytes_at_single)

lemma bytes_at_middle [simp]: "bytes_at (pre @ e @ post) (length pre) e"
  by (simp add: bytes_at_def)

lemma bytes_at_start [simp]: "bytes_at (e @ post) 0 e"
  using bytes_at_middle [of "[]"] by simp

lemma bytes_at_all [simp]: "bytes_at e 0 e"
  using bytes_at_start [of e "[]"] by simp

lemma bytes_at_bound: "bytes_at bs cur e \<Longrightarrow> cur + length e \<le> length bs"
  by (simp add: bytes_at_def)

lemma slice_get_at [codec_simps]: "bytes_at bs cur e \<Longrightarrow> slice_get bs cur (cur + length e) = Some e"
  by (simp add: bytes_at_def slice_get_def)

locale codec =
  fixes enc :: "'a \<Rightarrow> bytes"
    and dec :: "('e, 'a) decoder"
    and ok :: "'a \<Rightarrow> bool"
  assumes dec_enc: "ok v \<Longrightarrow> bytes_at bs cur (enc v) \<Longrightarrow> dec bs cur = Inr (v, cur + length (enc v))"
begin

lemma decode_n_concat:
  assumes "list_all ok vs" "bytes_at bs cur (concat (map enc vs))"
  shows "decode_n dec (length vs) bs cur = Inr (vs, cur + length (concat (map enc vs)))"
  using assms
proof (induction vs arbitrary: cur)
  case (Cons v vs)
  then have "dec bs cur = Inr (v, cur + length (enc v))"
    by (simp add: dec_enc bytes_at_append)
  with Cons show ?case by (simp add: bytes_at_append add.assoc)
qed simp

lemma enc_inj_on: "ok v \<Longrightarrow> ok w \<Longrightarrow> enc v = enc w \<Longrightarrow> v = w"
  using dec_enc [of v "enc v" 0] dec_enc [of w "enc w" 0] bytes_at_all [of "enc v"]
  by (metis prod.inject sum.inject(2))

end

end
