(* ===== verification/Rust_Str.thy ===== *)
theory Rust_Str
  imports Shardlog_Prelude "HOL-Library.Sublist"
begin

text \<open>
  Rust strings. A \<^verbatim>\<open>str\<close> is the sequence of its Unicode scalar values; its bytes
  are the UTF-8 encoding of that sequence, and slicing at character boundaries is slicing of
  the sequence. Classification and case mapping of characters above ASCII come from the
  Unicode Character Database, which is data outside the repository: the record \<open>ucd\<close> is
  that parameter. The standard library's algorithm on top of the database (the ASCII fast
  path, the final-sigma rule) is defined here.
\<close>

type_synonym rstr = "nat list"

definition valid_scalar :: "nat \<Rightarrow> bool" where
  "valid_scalar c \<longleftrightarrow> c < 0xD800 \<or> (0xE000 \<le> c \<and> c < 0x110000)"

abbreviation valid_str :: "rstr \<Rightarrow> bool" where
  "valid_str s \<equiv> list_all valid_scalar s"

text \<open>A string literal of the source with ASCII characters only.\<close>

definition lit :: "string \<Rightarrow> rstr" where
  "lit s = map of_char s"

section \<open>ASCII\<close>

definition is_ascii :: "rstr \<Rightarrow> bool" where
  "is_ascii s \<longleftrightarrow> list_all (\<lambda>c. c < 128) s"

definition to_ascii_lowercase :: "nat \<Rightarrow> nat" where
  "to_ascii_lowercase c = (if 65 \<le> c \<and> c \<le> 90 then c + 32 else c)"

definition is_ascii_digit :: "nat \<Rightarrow> bool" where
  "is_ascii_digit c \<longleftrightarrow> 48 \<le> c \<and> c \<le> 57"

definition is_ascii_hexdigit :: "nat \<Rightarrow> bool" where
  "is_ascii_hexdigit c \<longleftrightarrow> is_ascii_digit c \<or> (65 \<le> c \<and> c \<le> 70) \<or> (97 \<le> c \<and> c \<le> 102)"

definition is_ascii_alphanumeric :: "nat \<Rightarrow> bool" where
  "is_ascii_alphanumeric c \<longleftrightarrow>
     is_ascii_digit c \<or> (65 \<le> c \<and> c \<le> 90) \<or> (97 \<le> c \<and> c \<le> 122)"

definition eq_ignore_ascii_case :: "rstr \<Rightarrow> rstr \<Rightarrow> bool" where
  "eq_ignore_ascii_case a b \<longleftrightarrow> map to_ascii_lowercase a = map to_ascii_lowercase b"

lemma to_ascii_lowercase_ascii [simp]: "c < 128 \<Longrightarrow> to_ascii_lowercase c < 128"
  by (simp add: to_ascii_lowercase_def)

lemma is_ascii_append [simp]: "is_ascii (a @ b) \<longleftrightarrow> is_ascii a \<and> is_ascii b"
  by (simp add: is_ascii_def)

lemma is_ascii_lower [simp]: "is_ascii s \<Longrightarrow> is_ascii (map to_ascii_lowercase s)"
  by (auto simp: is_ascii_def list_all_iff)

section \<open>UTF-8\<close>

definition utf8_codes :: "nat \<Rightarrow> nat list" where
  "utf8_codes c =
     (if c < 0x80 then [c]
      else if c < 0x800 then [0xC0 + c div 64, 0x80 + c mod 64]
      else if c < 0x10000 then [0xE0 + c div 4096, 0x80 + c div 64 mod 64, 0x80 + c mod 64]
      else [0xF0 + c div 262144, 0x80 + c div 4096 mod 64, 0x80 + c div 64 mod 64,
            0x80 + c mod 64])"

definition utf8_char :: "nat \<Rightarrow> bytes" where
  "utf8_char c = map of_nat (utf8_codes c)"

definition str_bytes :: "rstr \<Rightarrow> bytes" where
  "str_bytes s = concat (map utf8_char s)"

definition str_len :: "rstr \<Rightarrow> nat" where
  "str_len s = length (str_bytes s)"

definition is_continuation :: "nat \<Rightarrow> bool" where
  "is_continuation b \<longleftrightarrow> 0x80 \<le> b \<and> b < 0xC0"

text \<open>
  The first character of a byte sequence and the number of bytes it takes, with the
  shortest-form, surrogate and range checks of \<^verbatim>\<open>str::from_utf8\<close>.
\<close>

fun utf8_scan :: "nat list \<Rightarrow> (nat \<times> nat) option" where
  "utf8_scan [] = None"
| "utf8_scan (b0 # rest) =
     (if b0 < 0x80 then Some (b0, 1)
      else if b0 < 0xC0 then None
      else if b0 < 0xE0 then
        (case rest of b1 # _ \<Rightarrow>
           let c = (b0 - 0xC0) * 64 + (b1 - 0x80)
           in if is_continuation b1 \<and> 0x80 \<le> c then Some (c, 2) else None
         | _ \<Rightarrow> None)
      else if b0 < 0xF0 then
        (case rest of b1 # b2 # _ \<Rightarrow>
           let c = (b0 - 0xE0) * 4096 + (b1 - 0x80) * 64 + (b2 - 0x80)
           in if is_continuation b1 \<and> is_continuation b2 \<and> 0x800 \<le> c \<and> valid_scalar c
              then Some (c, 3) else None
         | _ \<Rightarrow> None)
      else
        (case rest of b1 # b2 # b3 # _ \<Rightarrow>
           let c = (b0 - 0xF0) * 262144 + (b1 - 0x80) * 4096 + (b2 - 0x80) * 64 + (b3 - 0x80)
           in if is_continuation b1 \<and> is_continuation b2 \<and> is_continuation b3
                 \<and> 0x10000 \<le> c \<and> valid_scalar c
              then Some (c, 4) else None
         | _ \<Rightarrow> None))"

definition utf8_next :: "bytes \<Rightarrow> (nat \<times> bytes) option" where
  "utf8_next bs = map_option (\<lambda>(c, n). (c, drop n bs)) (utf8_scan (map unat (take 4 bs)))"

lemma utf8_scan_pos: "utf8_scan xs = Some (c, n) \<Longrightarrow> 0 < n \<and> xs \<noteq> []"
  by (cases xs) (auto simp: Let_def split: if_splits list.splits)

lemma utf8_next_shorter: "utf8_next bs = Some (c, rest) \<Longrightarrow> length rest < length bs"
proof -
  assume "utf8_next bs = Some (c, rest)"
  then obtain n where n: "utf8_scan (map unat (take 4 bs)) = Some (c, n)" "rest = drop n bs"
    by (auto simp: utf8_next_def)
  have "0 < n" "bs \<noteq> []" using utf8_scan_pos [OF n(1)] by auto
  then show ?thesis using n(2) by (simp add: diff_less)
qed

function from_utf8 :: "bytes \<Rightarrow> rstr option" where
  "from_utf8 bs =
     (if bs = [] then Some []
      else case utf8_next bs of None \<Rightarrow> None
           | Some (c, rest) \<Rightarrow> map_option ((#) c) (from_utf8 rest))"
  by pat_completeness auto
termination
  by (relation "measure length") (auto dest: utf8_next_shorter)

declare from_utf8.simps [simp del]

lemma valid_scalar_bound: "valid_scalar c \<Longrightarrow> c < 0x110000"
  by (auto simp: valid_scalar_def)

lemma utf8_codes_bound: "c < 0x110000 \<Longrightarrow> x \<in> set (utf8_codes c) \<Longrightarrow> x < 256"
  by (auto simp: utf8_codes_def less_mult_imp_div_less split: if_splits)

lemma utf8_char_not_Nil [simp]: "utf8_char c \<noteq> []"
  by (simp add: utf8_char_def utf8_codes_def)

lemma unat_utf8_char:
  assumes "valid_scalar c"
  shows "map unat (utf8_char c) = utf8_codes c"
  using utf8_codes_bound [OF valid_scalar_bound [OF assms]]
  by (simp add: utf8_char_def unat_of_nat map_idI)

lemma utf8_scan_codes:
  assumes "valid_scalar c"
  shows "utf8_scan (utf8_codes c @ rest) = Some (c, length (utf8_codes c))"
proof -
  note b = valid_scalar_bound [OF assms]
  have d1: "c div 64 * 64 + c mod 64 = c" by simp
  have d2: "c div 4096 * 64 + c div 64 mod 64 = c div 64"
    using div_mult_mod_eq [of "c div 64" 64] by (simp add: div_mult2_eq [of c 64 64, simplified])
  have d3: "c div 262144 * 64 + c div 4096 mod 64 = c div 4096"
    using div_mult_mod_eq [of "c div 4096" 64]
    by (simp add: div_mult2_eq [of c 4096 64, simplified])
  consider "c < 0x80" | "0x80 \<le> c" "c < 0x800" | "0x800 \<le> c" "c < 0x10000" | "0x10000 \<le> c"
    by linarith
  then show ?thesis
  proof cases
    case 1
    then show ?thesis by (simp add: utf8_codes_def)
  next
    case 2
    have "c div 64 < 32" using 2 by (simp add: less_mult_imp_div_less)
    moreover have "c div 64 * 64 + c mod 64 = c" by simp
    ultimately show ?thesis using 2 
      by (simp add: utf8_codes_def is_continuation_def less_mult_imp_div_less)
  next
    case 3
    have "c div 4096 < 16" using 3 by (simp add: less_mult_imp_div_less)
    moreover have "c div 4096 * 4096 + c div 64 mod 64 * 64 + c mod 64 = c" using d1 d2 d3 by linarith
    ultimately show ?thesis using 3 assms 
      by (simp add: utf8_codes_def is_continuation_def less_mult_imp_div_less)
  next
    case 4
    have "c div 262144 < 5" using b by (simp add: less_mult_imp_div_less)
    moreover have "c div 262144 * 262144 + c div 4096 mod 64 * 4096 + c div 64 mod 64 * 64
        + c mod 64 = c" using d1 d2 d3 by linarith
    ultimately show ?thesis using 4 assms 
      by (simp add: utf8_codes_def is_continuation_def less_mult_imp_div_less)
  qed
qed

lemma utf8_next_char:
  assumes "valid_scalar c"
  shows "utf8_next (utf8_char c @ rest) = Some (c, rest)"
proof -
  have len: "length (utf8_char c) = length (utf8_codes c)" "length (utf8_codes c) \<le> 4"
    by (simp_all add: utf8_char_def utf8_codes_def)
  then have "take 4 (utf8_char c @ rest) = utf8_char c @ take (4 - length (utf8_codes c)) rest"
    by simp
  then show ?thesis
    using len by (simp add: utf8_next_def unat_utf8_char [OF assms] utf8_scan_codes [OF assms])
qed

lemma from_utf8_str_bytes: "valid_str s \<Longrightarrow> from_utf8 (str_bytes s) = Some s"
proof (induction s)
  case Nil
  show ?case by (simp add: str_bytes_def from_utf8.simps)
next
  case (Cons c s)
  then have "utf8_next (str_bytes (c # s)) = Some (c, str_bytes s)"
    by (simp add: str_bytes_def utf8_next_char)
  moreover have "str_bytes (c # s) \<noteq> []" by (simp add: str_bytes_def)
  ultimately show ?case using Cons by (simp add: from_utf8.simps [of "str_bytes (c # s)"])
qed

lemma str_bytes_append [simp]: "str_bytes (a @ b) = str_bytes a @ str_bytes b"
  by (simp add: str_bytes_def)

lemma str_bytes_inj: "valid_str a \<Longrightarrow> valid_str b \<Longrightarrow> str_bytes a = str_bytes b \<Longrightarrow> a = b"
  by (metis from_utf8_str_bytes option.inject)

lemma utf8_scan_valid: "utf8_scan xs = Some (c, n) \<Longrightarrow> valid_scalar c"
  by (cases xs)
     (auto simp: Let_def valid_scalar_def is_continuation_def split: if_splits list.splits)

lemma utf8_next_valid: "utf8_next bs = Some (c, rest) \<Longrightarrow> valid_scalar c"
  by (auto simp: utf8_next_def dest: utf8_scan_valid)

lemma from_utf8_valid: "from_utf8 bs = Some s \<Longrightarrow> valid_str s"
proof (induction bs arbitrary: s rule: from_utf8.induct)
  case (1 bs)
  show ?case
  proof (cases "bs = []")
    case True
    with "1.prems" show ?thesis by (simp add: from_utf8.simps)
  next
    case False
    with "1.prems" obtain c rest t where
      "utf8_next bs = Some (c, rest)" "from_utf8 rest = Some t" "s = c # t"
      by (auto simp: from_utf8.simps [of bs] split: option.splits)
    with "1.IH" False utf8_next_valid show ?thesis by auto
  qed
qed

section \<open>Characters above ASCII\<close>

text \<open>
  What the standard library takes from the Unicode Character Database: the Alphabetic or
  Numeric characters, the Uppercase property, the lowercase mapping, and the Cased and
  Case\_Ignorable properties of the final-sigma rule.
\<close>

record ucd =
  ucd_alphanumeric :: "nat \<Rightarrow> bool"
  ucd_uppercase :: "nat \<Rightarrow> bool"
  ucd_lower :: "nat \<Rightarrow> nat list"
  ucd_cased :: "nat \<Rightarrow> bool"
  ucd_case_ignorable :: "nat \<Rightarrow> bool"

text \<open>The database restricted to ASCII, for evaluation on ASCII text.\<close>

definition ascii_ucd :: ucd where
  "ascii_ucd = \<lparr>ucd_alphanumeric = (\<lambda>_. False), ucd_uppercase = (\<lambda>_. False), ucd_lower = (\<lambda>c. [c]),
     ucd_cased = (\<lambda>c. 65 \<le> c \<and> c \<le> 90 \<or> 97 \<le> c \<and> c \<le> 122), ucd_case_ignorable = (\<lambda>_. False)\<rparr>"

definition char_is_alphanumeric :: "ucd \<Rightarrow> nat \<Rightarrow> bool" where
  "char_is_alphanumeric U c \<longleftrightarrow>
     (if c < 128 then is_ascii_alphanumeric c else ucd_alphanumeric U c)"

definition char_is_uppercase :: "ucd \<Rightarrow> nat \<Rightarrow> bool" where
  "char_is_uppercase U c \<longleftrightarrow> (if c < 128 then 65 \<le> c \<and> c \<le> 90 else ucd_uppercase U c)"

text \<open>
  The database restricted to ASCII, the Greek letters alpha and sigma, and the three case forms of
  one letter with a titlecase form (U+01C4 to U+01C6).
\<close>

definition sample_ucd :: ucd where
  "sample_ucd = \<lparr>ucd_alphanumeric = (\<lambda>c. c \<in> {0x391, 0x3A3, 0x3B1, 0x3C2, 0x3C3, 0x1C4, 0x1C5, 0x1C6}),
     ucd_uppercase = (\<lambda>c. c \<in> {0x391, 0x3A3, 0x1C4}),
     ucd_lower = (\<lambda>c. if c = 0x391 then [0x3B1] else if c = 0x3A3 then [0x3C3]
       else if c = 0x1C4 \<or> c = 0x1C5 then [0x1C6] else [c]),
     ucd_cased = (\<lambda>c. c \<in> {0x391, 0x3A3, 0x3B1, 0x3C2, 0x3C3, 0x1C4, 0x1C5, 0x1C6}),
     ucd_case_ignorable = (\<lambda>_. False)\<rparr>"

definition char_to_lower :: "ucd \<Rightarrow> nat \<Rightarrow> nat list" where
  "char_to_lower U c = (if c < 128 then [to_ascii_lowercase c] else ucd_lower U c)"

definition case_ignorable_then_cased :: "ucd \<Rightarrow> rstr \<Rightarrow> bool" where
  "case_ignorable_then_cased U s =
     (case dropWhile (ucd_case_ignorable U) s of [] \<Rightarrow> False | c # _ \<Rightarrow> ucd_cased U c)"

abbreviation capital_sigma :: nat where "capital_sigma \<equiv> 0x3A3"

text \<open>
  \<^verbatim>\<open>str::to_lowercase\<close>: character by character, except that a capital sigma ending
  a word becomes the final form. The first argument holds the characters already passed, last
  one first.
\<close>

fun lower_from :: "ucd \<Rightarrow> rstr \<Rightarrow> rstr \<Rightarrow> rstr" where
  "lower_from U bef [] = []"
| "lower_from U bef (c # cs) =
     (if c = capital_sigma
      then [if case_ignorable_then_cased U bef \<and> \<not> case_ignorable_then_cased U cs
            then 0x3C2 else 0x3C3]
      else char_to_lower U c) @ lower_from U (c # bef) cs"

definition to_lowercase :: "ucd \<Rightarrow> rstr \<Rightarrow> rstr" where
  "to_lowercase U s = lower_from U [] s"

lemma lower_from_no_sigma:
  "capital_sigma \<notin> set s \<Longrightarrow> lower_from U bef s = concat (map (char_to_lower U) s)"
  by (induction s arbitrary: bef) auto

lemma to_lowercase_no_sigma:
  "capital_sigma \<notin> set s \<Longrightarrow> to_lowercase U s = concat (map (char_to_lower U) s)"
  by (simp add: to_lowercase_def lower_from_no_sigma)

lemma to_lowercase_ascii:
  assumes "is_ascii s"
  shows "to_lowercase U s = map to_ascii_lowercase s"
proof -
  have "capital_sigma \<notin> set s" using assms by (auto simp: is_ascii_def list_all_iff)
  moreover have "concat (map (char_to_lower U) s) = map to_ascii_lowercase s"
    using assms by (induction s) (simp_all add: is_ascii_def char_to_lower_def)
  ultimately show ?thesis by (simp add: to_lowercase_no_sigma)
qed

section \<open>Searching\<close>

fun str_contains :: "'a list \<Rightarrow> 'a list \<Rightarrow> bool" where
  "str_contains [] n = (n = [])"
| "str_contains (x # xs) n = (take (length n) (x # xs) = n \<or> str_contains xs n)"

lemma str_contains_sublist: "str_contains h n \<longleftrightarrow> sublist n h"
proof (induction h n rule: str_contains.induct)
  case (2 x xs n)
  have "take (length n) (x # xs) = n \<longleftrightarrow> prefix n (x # xs)"
    by (auto simp: take_is_prefix prefix_def) (metis append_eq_conv_conj take_is_prefix prefix_def)
  with 2 show ?case by (auto simp: sublist_Cons_right)
qed auto

definition starts_with :: "'a list \<Rightarrow> 'a list \<Rightarrow> bool" where
  "starts_with s p \<longleftrightarrow> take (length p) s = p"

definition ends_with :: "'a list \<Rightarrow> 'a list \<Rightarrow> bool" where
  "ends_with s p \<longleftrightarrow> length p \<le> length s \<and> drop (length s - length p) s = p"

lemma starts_with_sublist: "starts_with s p \<Longrightarrow> sublist p s"
  by (metis starts_with_def sublist_take)

lemma ends_with_sublist: "ends_with s p \<Longrightarrow> sublist p s"
  by (metis ends_with_def sublist_drop)

text \<open>\<^verbatim>\<open>slice::windows\<close>, for a nonzero width.\<close>

definition windows :: "nat \<Rightarrow> 'a list \<Rightarrow> 'a list list" where
  "windows n xs = map (\<lambda>i. take n (drop i xs)) [0 ..< Suc (length xs) - n]"

lemma set_windows: "0 < n \<Longrightarrow> set (windows n xs) = {w. sublist w xs \<and> length w = n}"
proof (intro set_eqI iffI)
  fix w assume n: "0 < n" and "w \<in> set (windows n xs)"
  then obtain i where i: "i < Suc (length xs) - n" "w = take n (drop i xs)"
    by (auto simp: windows_def)
  then have "length w = n" by simp
  moreover have "sublist w xs" using i(2) by (metis sublist_take sublist_drop sublist_order.order_trans)
  ultimately show "w \<in> {w. sublist w xs \<and> length w = n}" by simp
next
  fix w assume n: "0 < n" and "w \<in> {w. sublist w xs \<and> length w = n}"
  then obtain ps ss where xs: "xs = ps @ w @ ss" and w: "length w = n"
    by (auto simp: sublist_def)
  have "w = take n (drop (length ps) xs)" using xs w by simp
  moreover have "length ps < Suc (length xs) - n" using xs w by simp
  ultimately show "w \<in> set (windows n xs)" by (auto simp: windows_def)
qed

lemma windows_adjacent:
  "list_ex P (windows 2 xs) \<longleftrightarrow> (\<exists>i. Suc i < length xs \<and> P [xs ! i, xs ! Suc i])"
proof -
  have "take 2 (drop i xs) = [xs ! i, xs ! Suc i]" if "Suc i < length xs" for i
    using that by (simp add: Cons_nth_drop_Suc [symmetric] take_Suc numeral_2_eq_2)
  moreover have "i < Suc (length xs) - 2 \<longleftrightarrow> Suc i < length xs" for i by auto
  ultimately show ?thesis by (auto simp: windows_def list_ex_iff)
qed

lemma sublist_concat_map: "sublist a b \<Longrightarrow> sublist (concat (map f a)) (concat (map f b))"
  by (auto simp: sublist_def) (metis concat_append map_append)

lemma sublist_str_bytes: "sublist a b \<Longrightarrow> sublist (str_bytes a) (str_bytes b)"
  unfolding str_bytes_def by (rule sublist_concat_map)

section \<open>Integers as text\<close>

fun digits_value :: "nat \<Rightarrow> (nat \<Rightarrow> nat option) \<Rightarrow> nat \<Rightarrow> rstr \<Rightarrow> nat option" where
  "digits_value base digit acc [] = Some acc"
| "digits_value base digit acc (c # cs) =
     (case digit c of None \<Rightarrow> None | Some d \<Rightarrow> digits_value base digit (acc * base + d) cs)"

definition decimal_digit :: "nat \<Rightarrow> nat option" where
  "decimal_digit c = (if 48 \<le> c \<and> c \<le> 57 then Some (c - 48) else None)"

definition hex_digit :: "nat \<Rightarrow> nat option" where
  "hex_digit c =
     (if 48 \<le> c \<and> c \<le> 57 then Some (c - 48)
      else if 97 \<le> c \<and> c \<le> 102 then Some (c - 87)
      else if 65 \<le> c \<and> c \<le> 70 then Some (c - 55)
      else None)"

text \<open>\<^verbatim>\<open>str::parse::<i128>\<close>: an optional sign, at least one digit, no overflow.\<close>

definition parse_i128 :: "rstr \<Rightarrow> int option" where
  "parse_i128 s =
     (let (neg, ds) = (case s of c # cs \<Rightarrow>
              if c = 45 then (True, cs) else if c = 43 then (False, cs) else (False, s)
            | [] \<Rightarrow> (False, []))
      in if ds = [] then None
         else case digits_value 10 decimal_digit 0 ds of None \<Rightarrow> None
              | Some n \<Rightarrow>
                 let v = (if neg then - int n else int n)
                 in if - (2 ^ 127) \<le> v \<and> v < 2 ^ 127 then Some v else None)"

text \<open>\<^verbatim>\<open>u64::from_str_radix(_, 16)\<close> and the format \<^verbatim>\<open>{:016x}\<close>.\<close>

definition parse_hex_u64 :: "rstr \<Rightarrow> u64 option" where
  "parse_hex_u64 s =
     (let ds = (case s of c # cs \<Rightarrow> if c = 43 then cs else s | [] \<Rightarrow> [])
      in if ds = [] then None
         else case digits_value 16 hex_digit 0 ds of None \<Rightarrow> None | Some n \<Rightarrow> try_word n)"

definition hex_char :: "nat \<Rightarrow> nat" where
  "hex_char d = (if d < 10 then 48 + d else 87 + d)"

fun hex_pad :: "nat \<Rightarrow> nat \<Rightarrow> rstr" where
  "hex_pad 0 n = []"
| "hex_pad (Suc k) n = hex_pad k (n div 16) @ [hex_char (n mod 16)]"

definition format_016x :: "u64 \<Rightarrow> rstr" where
  "format_016x w = hex_pad 16 (unat w)"

lemma hex_digit_char: "d < 16 \<Longrightarrow> hex_digit (hex_char d) = Some d"
  by (auto simp: hex_digit_def hex_char_def)

lemma digits_value_append:
  "digits_value b f a (xs @ ys) = Option.bind (digits_value b f a xs) (\<lambda>a. digits_value b f a ys)"
  by (induction xs arbitrary: a) (auto split: option.splits)

lemma digits_value_hex_pad:
  "digits_value 16 hex_digit a (hex_pad k n) = Some (a * 16 ^ k + n mod 16 ^ k)"
proof (induction k arbitrary: a n)
  case (Suc k)
  have "n mod 16 ^ Suc k = 16 * (n div 16 mod 16 ^ k) + n mod 16"
    by (metis mod_mult2_eq mult.commute power_Suc power_Suc2 add.commute)
  then show ?case
    by (simp add: digits_value_append Suc hex_digit_char algebra_simps)
qed simp

lemma length_hex_pad [simp]: "length (hex_pad k n) = k"
  by (induction k arbitrary: n) auto

lemma parse_format_hex: "parse_hex_u64 (format_016x w) = Some w"
proof -
  have hd: "c = hex_char d \<and> d < 16 \<Longrightarrow> c \<noteq> 43" for c d by (auto simp: hex_char_def)
  have mem: "x \<in> set (hex_pad k n) \<Longrightarrow> \<exists>d<16. x = hex_char d" for x k n
    by (induction k arbitrary: n) (auto intro: exI [of _ "n mod 16" for n])
  have "unat w mod 16 ^ 16 = unat w" using unat_bound [of w] by simp
  then have val: "digits_value 16 hex_digit 0 (hex_pad 16 (unat w)) = Some (unat w)"
    by (simp only: digits_value_hex_pad mult_zero_left add_0)
  obtain c cs where s: "hex_pad 16 (unat w) = c # cs"
    by (metis length_hex_pad list.exhaust list.size(3) zero_neq_numeral)
  then have "c \<noteq> 43" using mem [of c 16 "unat w"] hd by auto
  with s val show ?thesis by (simp add: parse_hex_u64_def format_016x_def)
qed

lemma format_016x_inj: "format_016x v = format_016x w \<longleftrightarrow> v = w"
  by (metis parse_format_hex option.inject)

end
