(* ===== verification/Log_Types.thy ===== *)
theory Log_Types
  imports Rust_Str
begin

text \<open>
  The data of \<^verbatim>\<open>src/src/types.rs\<close>: record addresses, metadata fields, durable
  records, predicates and the lookup \<open>log_query\<close> with its builder methods. Regular
  expressions are compiled and run by the \<^verbatim>\<open>regex\<close> crate; the two functions of
  that crate the code uses are arguments of the definitions that use them.
\<close>

section \<open>Records\<close>

record record_ref =
  rr_topic_partition :: topic_partition
  rr_offset :: logical_offset

definition record_ref_new :: "topic_partition \<Rightarrow> logical_offset \<Rightarrow> record_ref" where
  "record_ref_new tp off = \<lparr>rr_topic_partition = tp, rr_offset = off\<rparr>"

record metadata_field =
  field_key :: rstr
  field_value :: rstr

definition metadata_field_new :: "rstr \<Rightarrow> rstr \<Rightarrow> metadata_field" where
  "metadata_field_new k v = \<lparr>field_key = k, field_value = v\<rparr>"

type_synonym compression_cohort_id = u64
type_synonym compression_placement_id = u64

record durable_log_record =
  stream_shard_id :: shard_id
  record_ref :: record_ref
  timestamp_unix_nanos :: u64
  message :: rstr
  record_fields :: "metadata_field list"
  compression_cohort :: compression_cohort_id

definition durable_log_record_new ::
  "shard_id \<Rightarrow> topic_partition \<Rightarrow> logical_offset \<Rightarrow> u64 \<Rightarrow> rstr \<Rightarrow> compression_cohort_id \<Rightarrow>
   durable_log_record" where
  "durable_log_record_new shard tp off ts msg cohort =
     \<lparr>stream_shard_id = shard, record_ref = record_ref_new tp off, timestamp_unix_nanos = ts,
      message = msg, record_fields = [], compression_cohort = cohort\<rparr>"

definition record_with_field :: "durable_log_record \<Rightarrow> rstr \<Rightarrow> rstr \<Rightarrow> durable_log_record" where
  "record_with_field r k v = r\<lparr>record_fields := record_fields r @ [metadata_field_new k v]\<rparr>"

abbreviation record_offset :: "durable_log_record \<Rightarrow> logical_offset" where
  "record_offset r \<equiv> rr_offset (record_ref r)"

section \<open>Predicates\<close>

datatype query_order = OldestFirst | NewestFirst

datatype case_sensitivity = Sensitive | Insensitive

datatype text_match_kind = Exact | Contains | Prefix | Suffix

record text_matcher =
  matcher_value :: rstr
  matcher_kind :: text_match_kind
  matcher_case :: case_sensitivity

definition text_matcher_new :: "rstr \<Rightarrow> text_match_kind \<Rightarrow> case_sensitivity \<Rightarrow> text_matcher" where
  "text_matcher_new v k c = \<lparr>matcher_value = v, matcher_kind = k, matcher_case = c\<rparr>"

text \<open>
  A validated expression keeps its source and case handling; equality of expressions in the
  source compares exactly these two.
\<close>

record log_regex =
  regex_pattern :: rstr
  regex_case :: case_sensitivity

text \<open>
  \<open>build\<close> stands for \<^verbatim>\<open>RegexBuilder::build\<close> with the case flag: \<open>None\<close>
  when the expression compiles, the error text otherwise.
\<close>

definition log_regex_new ::
  "(rstr \<Rightarrow> bool \<Rightarrow> string option) \<Rightarrow> rstr \<Rightarrow> case_sensitivity \<Rightarrow> log_regex log_db_result" where
  "log_regex_new build pattern cs =
     (case build pattern (cs = Insensitive) of
        Some msg \<Rightarrow> Inl (InvalidQuery msg)
      | None \<Rightarrow> Inr \<lparr>regex_pattern = pattern, regex_case = cs\<rparr>)"

datatype numeric_comparison =
    NumEqual | NumNotEqual | NumLessThan | NumLessThanOrEqual | NumGreaterThan
  | NumGreaterThanOrEqual

datatype log_predicate =
    MatchAll
  | MatchNone
  | Term rstr
  | Message text_matcher
  | MessageRegex log_regex
  | FieldExists rstr
  | Field rstr text_matcher
  | FieldIn rstr "rstr list"
  | FieldRegex rstr log_regex
  | FieldNumeric rstr numeric_comparison int
  | And "log_predicate list"
  | Or "log_predicate list"
  | Not log_predicate

definition predicate_message_contains :: "rstr \<Rightarrow> log_predicate" where
  "predicate_message_contains v = Message (text_matcher_new v Contains Insensitive)"

definition predicate_message_regex ::
  "(rstr \<Rightarrow> bool \<Rightarrow> string option) \<Rightarrow> rstr \<Rightarrow> case_sensitivity \<Rightarrow> log_predicate log_db_result" where
  "predicate_message_regex build pattern cs =
     and_then (log_regex_new build pattern cs) (\<lambda>r. Inr (MessageRegex r))"

definition predicate_field_equals :: "rstr \<Rightarrow> rstr \<Rightarrow> log_predicate" where
  "predicate_field_equals k v = Field k (text_matcher_new v Exact Sensitive)"

definition predicate_field_regex ::
  "(rstr \<Rightarrow> bool \<Rightarrow> string option) \<Rightarrow> rstr \<Rightarrow> rstr \<Rightarrow> case_sensitivity \<Rightarrow>
   log_predicate log_db_result" where
  "predicate_field_regex build k pattern cs =
     and_then (log_regex_new build pattern cs) (\<lambda>r. Inr (FieldRegex k r))"

definition predicate_and :: "log_predicate list \<Rightarrow> log_predicate" where
  "predicate_and ps = (if ps = [] then MatchAll else And ps)"

definition predicate_or :: "log_predicate list \<Rightarrow> log_predicate" where
  "predicate_or ps = (if ps = [] then MatchNone else Or ps)"

section \<open>Lookups\<close>

datatype query_sort = SortOffset | SortTimestamp

record query_cursor =
  cursor_timestamp :: u64
  cursor_offset :: logical_offset

definition query_cursor_new :: "u64 \<Rightarrow> logical_offset \<Rightarrow> query_cursor" where
  "query_cursor_new ts off = \<lparr>cursor_timestamp = ts, cursor_offset = off\<rparr>"

record log_query =
  q_topic_partition :: topic_partition
  q_terms :: "rstr list"
  q_exact_fields :: "metadata_field list"
  q_predicate :: log_predicate
  q_start_offset :: "logical_offset option"
  q_end_offset :: "logical_offset option"
  q_start_timestamp :: "u64 option"
  q_end_timestamp :: "u64 option"
  q_limit :: "nat option"
  q_order :: query_order
  q_sort :: query_sort
  q_after :: "query_cursor option"

definition log_query_new :: "topic_partition \<Rightarrow> log_query" where
  "log_query_new tp =
     \<lparr>q_topic_partition = tp, q_terms = [], q_exact_fields = [], q_predicate = MatchAll,
      q_start_offset = None, q_end_offset = None, q_start_timestamp = None,
      q_end_timestamp = None, q_limit = None, q_order = OldestFirst, q_sort = SortOffset,
      q_after = None\<rparr>"

definition with_term :: "log_query \<Rightarrow> rstr \<Rightarrow> log_query" where
  "with_term q t = q\<lparr>q_terms := q_terms q @ [t]\<rparr>"

definition with_field :: "log_query \<Rightarrow> rstr \<Rightarrow> rstr \<Rightarrow> log_query" where
  "with_field q k v = q\<lparr>q_exact_fields := q_exact_fields q @ [metadata_field_new k v]\<rparr>"

definition with_predicate :: "log_query \<Rightarrow> log_predicate \<Rightarrow> log_query" where
  "with_predicate q p =
     q\<lparr>q_predicate := (case q_predicate q of MatchAll \<Rightarrow> p | current \<Rightarrow> And [current, p])\<rparr>"

definition where_predicate :: "log_query \<Rightarrow> log_predicate \<Rightarrow> log_query" where
  "where_predicate q p = q\<lparr>q_predicate := p\<rparr>"

definition with_offset_range :: "log_query \<Rightarrow> logical_offset \<Rightarrow> logical_offset \<Rightarrow> log_query" where
  "with_offset_range q s e = q\<lparr>q_start_offset := Some s, q_end_offset := Some e\<rparr>"

definition with_timestamp_range :: "log_query \<Rightarrow> u64 \<Rightarrow> u64 \<Rightarrow> log_query" where
  "with_timestamp_range q s e = q\<lparr>q_start_timestamp := Some s, q_end_timestamp := Some e\<rparr>"

definition with_limit :: "log_query \<Rightarrow> nat \<Rightarrow> log_query" where
  "with_limit q n = q\<lparr>q_limit := Some n\<rparr>"

definition newest_first :: "log_query \<Rightarrow> log_query" where
  "newest_first q = q\<lparr>q_order := NewestFirst\<rparr>"

definition oldest_first :: "log_query \<Rightarrow> log_query" where
  "oldest_first q = q\<lparr>q_order := OldestFirst\<rparr>"

definition sort_by_timestamp :: "log_query \<Rightarrow> log_query" where
  "sort_by_timestamp q = q\<lparr>q_sort := SortTimestamp\<rparr>"

definition sort_by_offset :: "log_query \<Rightarrow> log_query" where
  "sort_by_offset q = q\<lparr>q_sort := SortOffset\<rparr>"

definition query_after :: "log_query \<Rightarrow> query_cursor \<Rightarrow> log_query" where
  "query_after q c = q\<lparr>q_after := Some c\<rparr>"

lemmas query_builder_defs =
  log_query_new_def with_term_def with_field_def with_predicate_def where_predicate_def
  with_offset_range_def with_timestamp_range_def with_limit_def newest_first_def
  oldest_first_def sort_by_timestamp_def sort_by_offset_def query_after_def

section \<open>The record view\<close>

text \<open>
  \<^verbatim>\<open>StructuralRecordView\<close> of \<^verbatim>\<open>src/src/structural.rs\<close>: what a lookup sees
  of a record, whichever storage it comes from.
\<close>

record record_view =
  view_offset :: logical_offset
  view_timestamp :: u64
  view_message :: rstr
  view_fields :: "(rstr \<times> rstr) list"

definition durable_view :: "durable_log_record \<Rightarrow> record_view" where
  "durable_view r =
     \<lparr>view_offset = rr_offset (record_ref r), view_timestamp = timestamp_unix_nanos r,
      view_message = message r,
      view_fields = map (\<lambda>f. (field_key f, field_value f)) (record_fields r)\<rparr>"

lemma durable_view_simps [simp]:
  "view_offset (durable_view r) = record_offset r"
  "view_timestamp (durable_view r) = timestamp_unix_nanos r"
  "view_message (durable_view r) = message r"
  "view_fields (durable_view r) = map (\<lambda>f. (field_key f, field_value f)) (record_fields r)"
  by (simp_all add: durable_view_def)

end
