(* ===== verification/Text_Scan.thy ===== *)
theory Text_Scan
  imports Log_Types
begin

text \<open>
  Message analysis of \<^verbatim>\<open>src/src/locality.rs\<close>: the single pass that reports the
  search terms of a message and computes its template-shape hash and its 16-bit SimHash, and
  the scanner that reports the terms only. A callback that observes terms is the list of the
  terms in the order of the calls. The main facts are that both scanners report the same terms,
  which are exactly the maximal alphanumeric runs, on the ASCII and on the Unicode path.
\<close>

section \<open>Hashing\<close>

abbreviation FNV_OFFSET :: u64 where "FNV_OFFSET \<equiv> 0xcbf29ce484222325"
abbreviation FNV_PRIME :: u64 where "FNV_PRIME \<equiv> 0x00000100000001b3"

definition fnv_bytes :: "u64 \<Rightarrow> bytes \<Rightarrow> u64" where
  "fnv_bytes h bs = foldl (\<lambda>h b. (h XOR ucast b) * FNV_PRIME) h bs"

definition splitmix64 :: "u64 \<Rightarrow> u64" where
  "splitmix64 value =
     (let v = value + 0x9e3779b97f4a7c15;
          v = (v XOR drop_bit 30 v) * 0xbf58476d1ce4e5b9;
          v = (v XOR drop_bit 27 v) * 0x94d049bb133111eb
      in v XOR drop_bit 31 v)"

text \<open>The SimHash weights are sixteen saturating 16-bit counters.\<close>

definition sat_i16 :: "int \<Rightarrow> int" where
  "sat_i16 x = max (- 32768) (min 32767 x)"

definition add_simhash_feature :: "int list \<Rightarrow> u64 \<Rightarrow> int list" where
  "add_simhash_feature weights feature_hash =
     (let h = splitmix64 feature_hash
      in map (\<lambda>(i, w). if bit h i then sat_i16 (w + 1) else sat_i16 (w - 1))
           (enumerate 0 weights))"

section \<open>Structural runs\<close>

definition is_template_token :: "nat \<Rightarrow> bool" where
  "is_template_token c \<longleftrightarrow> is_ascii_alphanumeric c \<or> c \<in> {95, 45, 46, 47, 58}"

definition dynamic_class :: "rstr \<Rightarrow> nat" where
  "dynamic_class run =
     (if list_all is_ascii_digit run then 1
      else if list_all is_ascii_hexdigit run then 2
      else if 45 \<in> set run then 3
      else if 46 \<in> set run \<or> 58 \<in> set run \<or> 47 \<in> set run then 4
      else 5)"

fun ilog2 :: "nat \<Rightarrow> nat" where
  "ilog2 n = (if n < 2 then 0 else Suc (ilog2 (n div 2)))"

declare ilog2.simps [simp del]

definition length_class :: "nat \<Rightarrow> nat" where
  "length_class n = min (ilog2 (max n 1)) 15"

definition analyze_structural_run ::
  "rstr \<Rightarrow> bool \<Rightarrow> bool \<Rightarrow> u64 \<times> int list \<Rightarrow> u64 \<times> int list" where
  "analyze_structural_run run is_token has_digit = (\<lambda>(shape, simhash).
     if is_token \<and> has_digit
     then (fnv_bytes shape [0xd1],
           add_simhash_feature simhash
             (splitmix64 (0x64796e616d696300 XOR push_bit 8 (of_nat (dynamic_class run))
                XOR of_nat (length_class (str_len run)))))
     else (fnv_bytes (fnv_bytes shape [0x51]) (str_bytes run),
           add_simhash_feature simhash
             (fnv_bytes (FNV_OFFSET XOR 0x6c69746572616c00) (str_bytes run))))"

section \<open>The one-pass analysis\<close>

text \<open>
  The loop variables of \<^verbatim>\<open>analyze_ascii_body\<close> and \<^verbatim>\<open>analyze_unicode_body\<close>; positions
  count characters.
\<close>

record scan_state =
  sc_hashes :: "u64 \<times> int list"
  sc_structural_start :: nat
  sc_structural_is_token :: "bool option"
  sc_structural_has_digit :: bool
  sc_term_start :: "nat option"
  sc_terms :: "rstr list"

definition sub :: "'a list \<Rightarrow> nat \<Rightarrow> nat \<Rightarrow> 'a list" where
  "sub xs a b = take (b - a) (drop a xs)"

definition term_step :: "rstr \<Rightarrow> bool \<Rightarrow> nat \<Rightarrow> nat option \<times> rstr list \<Rightarrow> nat option \<times> rstr list" where
  "term_step msg is_term index = (\<lambda>(start, terms).
     case (start, is_term) of
       (None, True) \<Rightarrow> (Some index, terms)
     | (Some st, False) \<Rightarrow> (None, terms @ [sub msg st index])
     | _ \<Rightarrow> (start, terms))"

definition scan_step :: "(nat \<Rightarrow> bool) \<Rightarrow> (nat \<Rightarrow> bool) \<Rightarrow> rstr \<Rightarrow> scan_state \<Rightarrow> nat \<times> nat \<Rightarrow> scan_state" where
  "scan_step is_term is_token msg st = (\<lambda>(index, c).
     let (term_start, terms) = term_step msg (is_term c) index (sc_term_start st, sc_terms st);
         st = st\<lparr>sc_term_start := term_start, sc_terms := terms\<rparr>;
         tok = is_token c
     in case sc_structural_is_token st of
          None \<Rightarrow> st\<lparr>sc_structural_start := index, sc_structural_is_token := Some tok,
                    sc_structural_has_digit := is_ascii_digit c\<rparr>
        | Some current \<Rightarrow>
           if current = tok
           then st\<lparr>sc_structural_has_digit := sc_structural_has_digit st \<or> is_ascii_digit c\<rparr>
           else st\<lparr>sc_hashes := analyze_structural_run (sub msg (sc_structural_start st) index)
                        current (sc_structural_has_digit st) (sc_hashes st),
                   sc_structural_start := index, sc_structural_is_token := Some tok,
                   sc_structural_has_digit := is_ascii_digit c\<rparr>)"

definition initial_hashes :: "u64 \<times> int list" where
  "initial_hashes = (FNV_OFFSET, replicate 16 0)"

definition scan_init :: scan_state where
  "scan_init = \<lparr>sc_hashes = initial_hashes, sc_structural_start = 0,
     sc_structural_is_token = None, sc_structural_has_digit = False, sc_term_start = None,
     sc_terms = []\<rparr>"

definition analyze_body ::
  "(nat \<Rightarrow> bool) \<Rightarrow> (nat \<Rightarrow> bool) \<Rightarrow> rstr \<Rightarrow> rstr list \<times> u64 \<times> int list" where
  "analyze_body is_term is_token msg =
     (let st = foldl (scan_step is_term is_token msg) scan_init (enumerate 0 msg);
          terms = (case sc_term_start st of None \<Rightarrow> sc_terms st
                   | Some s \<Rightarrow> sc_terms st @ [drop s msg]);
          hashes = (case sc_structural_is_token st of None \<Rightarrow> sc_hashes st
                    | Some tok \<Rightarrow> analyze_structural_run (drop (sc_structural_start st) msg) tok
                        (sc_structural_has_digit st) (sc_hashes st))
      in (terms, hashes))"

definition analyze_ascii_body :: "rstr \<Rightarrow> rstr list \<times> u64 \<times> int list" where
  "analyze_ascii_body msg = analyze_body is_ascii_alphanumeric is_template_token msg"

definition analyze_unicode_body :: "ucd \<Rightarrow> rstr \<Rightarrow> rstr list \<times> u64 \<times> int list" where
  "analyze_unicode_body U msg = analyze_body (char_is_alphanumeric U) is_template_token msg"

record message_fingerprint =
  shape_hash :: u64
  locality_signature :: u16

definition analyze_field :: "u64 \<times> int list \<Rightarrow> metadata_field \<Rightarrow> u64 \<times> int list" where
  "analyze_field = (\<lambda>(shape, simhash) f.
     (fnv_bytes (fnv_bytes shape [0xf1]) (str_bytes (field_key f)),
      add_simhash_feature simhash
        (fnv_bytes (FNV_OFFSET XOR 0x6d6574616b657900) (str_bytes (field_key f)))))"

definition signature_of :: "int list \<Rightarrow> u16" where
  "signature_of simhash =
     foldl (\<lambda>sig (i, w). if w > 0 then sig OR push_bit i 1 else sig) 0 (enumerate 0 simhash)"

text \<open>The analysis returns the observed terms beside the fingerprint.\<close>

definition analyze_message :: "ucd \<Rightarrow> rstr \<Rightarrow> metadata_field list \<Rightarrow> rstr list \<times> message_fingerprint" where
  "analyze_message U msg fs =
     (let (terms, hashes) =
            (if is_ascii msg then analyze_ascii_body msg else analyze_unicode_body U msg);
          (shape, simhash) = foldl analyze_field hashes fs
      in (terms, \<lparr>shape_hash = shape, locality_signature = signature_of simhash\<rparr>))"

definition fingerprint_message :: "ucd \<Rightarrow> rstr \<Rightarrow> metadata_field list \<Rightarrow> message_fingerprint" where
  "fingerprint_message U msg fs = snd (analyze_message U msg fs)"

section \<open>The term scanner\<close>

definition scan_terms :: "(nat \<Rightarrow> bool) \<Rightarrow> rstr \<Rightarrow> rstr list" where
  "scan_terms is_term msg =
     (let (start, terms) =
        foldl (\<lambda>st (index, c). term_step msg (is_term c) index st) (None, []) (enumerate 0 msg)
      in case start of None \<Rightarrow> terms | Some s \<Rightarrow> terms @ [drop s msg])"

definition scan_message_terms :: "ucd \<Rightarrow> rstr \<Rightarrow> rstr list" where
  "scan_message_terms U msg =
     (if is_ascii msg then scan_terms is_ascii_alphanumeric msg
      else scan_terms (char_is_alphanumeric U) msg)"

section \<open>Terms are the maximal runs\<close>

lemmas length_dropWhile_less [termination_simp] = le_imp_less_Suc [OF length_dropWhile_le]

text \<open>The reference: split at the characters that are not part of a term.\<close>

fun tokens :: "(nat \<Rightarrow> bool) \<Rightarrow> rstr \<Rightarrow> rstr list" where
  "tokens p [] = []"
| "tokens p (c # cs) =
     (if p c then (c # takeWhile p cs) # tokens p (dropWhile p cs) else tokens p cs)"

lemma tokens_cong: "(\<And>c. c \<in> set s \<Longrightarrow> p c = q c) \<Longrightarrow> tokens p s = tokens q s"
proof (induction p s rule: tokens.induct)
  case (2 p c cs)
  have eq: "takeWhile p cs = takeWhile q cs" "dropWhile p cs = dropWhile q cs"
    using "2.prems" by (auto intro: takeWhile_cong dropWhile_cong)
  have "tokens p (dropWhile q cs) = tokens q (dropWhile q cs)" if "p c"
    using that "2.IH"(1) "2.prems" eq by (metis list.set_intros(2) set_dropWhileD)
  then show ?case using "2" eq by auto
qed simp

lemma tokens_in:
  "t \<in> set (tokens p s) \<Longrightarrow> t \<noteq> [] \<and> list_all p t \<and> sublist t s"
proof (induction p s rule: tokens.induct)
  case (2 p c cs)
  have run: "sublist (c # takeWhile p cs) (c # cs)"
    using takeWhile_dropWhile_id [of p cs] by (metis append_Cons sublist_appendI append_Nil)
  have "list_all p (takeWhile p cs)" by (simp add: list_all_iff) (meson set_takeWhileD)
  moreover have "sublist (dropWhile p cs) (c # cs)"
    by (metis sublist_dropWhile sublist_Cons_right)
  ultimately show ?case using "2" run
    by (auto split: if_splits intro: sublist_order.order_trans sublist_Cons_right [THEN iffD2])
qed simp

lemma enumerate_Cons: "enumerate n (x # xs) = (n, x) # enumerate (Suc n) xs"
  by simp

definition finish_terms :: "rstr \<Rightarrow> nat option \<times> rstr list \<Rightarrow> rstr list" where
  "finish_terms msg = (\<lambda>(start, terms).
     case start of None \<Rightarrow> terms | Some s \<Rightarrow> terms @ [drop s msg])"

abbreviation term_loop :: "(nat \<Rightarrow> bool) \<Rightarrow> rstr \<Rightarrow> nat option \<times> rstr list \<Rightarrow> (nat \<times> nat) list \<Rightarrow>
    nat option \<times> rstr list" where
  "term_loop p msg \<equiv> foldl (\<lambda>st (index, c). term_step msg (p c) index st)"

lemma term_loop_tokens:
  assumes "msg = pre @ rest" and "\<And>s. start = Some s \<Longrightarrow> s \<le> length pre"
  shows "finish_terms msg (term_loop p msg (start, ts) (enumerate (length pre) rest)) =
    ts @ (case start of None \<Rightarrow> tokens p rest
          | Some s \<Rightarrow> (drop s pre @ takeWhile p rest) # tokens p (dropWhile p rest))"
  using assms
proof (induction rest arbitrary: pre start ts)
  case Nil
  then show ?case by (cases start) (simp_all add: finish_terms_def)
next
  case (Cons c rest)
  note IH = Cons.IH [of "pre @ [c]", simplified]
  show ?case
  proof (cases start)
    case None
    with Cons.prems show ?thesis
      using IH [of None ts] IH [of "Some (length pre)" ts] by (simp add: term_step_def)
  next
    case (Some s)
    with Cons.prems have "s \<le> length pre" by simp
    with Some Cons.prems show ?thesis
      using IH [of None "ts @ [drop s pre]"] IH [of "Some s" ts]
      by (simp add: term_step_def sub_def)
  qed
qed

lemma scan_terms_tokens: "scan_terms p msg = tokens p msg"
  using term_loop_tokens [of msg "[]" msg None p "[]"]
  by (simp add: scan_terms_def finish_terms_def Let_def)

lemma scan_loop_terms:
  "(sc_term_start (foldl (scan_step p q msg) st xs), sc_terms (foldl (scan_step p q msg) st xs)) =
   term_loop p msg (sc_term_start st, sc_terms st) xs"
proof (induction xs arbitrary: st)
  case (Cons x xs)
  obtain i c where x: "x = (i, c)" by (cases x)
  have "(sc_term_start (scan_step p q msg st (i, c)), sc_terms (scan_step p q msg st (i, c))) =
      term_step msg (p c) i (sc_term_start st, sc_terms st)"
    by (simp add: scan_step_def Let_def split: prod.splits option.splits)
  with Cons.IH [of "scan_step p q msg st (i, c)"] x show ?case by simp
qed simp

lemma analyze_body_terms: "fst (analyze_body p q msg) = scan_terms p msg"
  using scan_loop_terms [of p q msg scan_init "enumerate 0 msg"]
  by (auto simp: analyze_body_def scan_terms_def scan_init_def Let_def split: option.splits prod.splits)

lemma ascii_tokens:
  assumes "is_ascii s"
  shows "tokens is_ascii_alphanumeric s = tokens (char_is_alphanumeric U) s"
  by (rule tokens_cong)
     (use assms in \<open>auto simp: is_ascii_def list_all_iff char_is_alphanumeric_def\<close>)

lemma scan_message_terms_tokens: "scan_message_terms U msg = tokens (char_is_alphanumeric U) msg"
  by (simp add: scan_message_terms_def scan_terms_tokens ascii_tokens [of msg U])

lemma analyze_message_terms: "fst (analyze_message U msg fs) = tokens (char_is_alphanumeric U) msg"
proof -
  have "fst (if is_ascii msg then analyze_ascii_body msg else analyze_unicode_body U msg) =
      tokens (char_is_alphanumeric U) msg"
    by (simp add: analyze_ascii_body_def analyze_unicode_body_def analyze_body_terms
          scan_terms_tokens ascii_tokens [of msg U])
  then show ?thesis by (simp add: analyze_message_def split_beta)
qed

section \<open>Shape hashes ignore dynamic values\<close>

text \<open>The reference: the maximal runs of token and of separator characters.\<close>

fun runs :: "(nat \<Rightarrow> bool) \<Rightarrow> rstr \<Rightarrow> (bool \<times> rstr) list" where
  "runs f [] = []"
| "runs f (c # cs) =
     (f c, c # takeWhile (\<lambda>x. f x = f c) cs) # runs f (dropWhile (\<lambda>x. f x = f c) cs)"

definition observe_run :: "u64 \<times> int list \<Rightarrow> bool \<times> rstr \<Rightarrow> u64 \<times> int list" where
  "observe_run h = (\<lambda>(tok, run). analyze_structural_run run tok (list_ex is_ascii_digit run) h)"

lemma observe_run_pair [simp]:
  "observe_run h (tok, run) = analyze_structural_run run tok (list_ex is_ascii_digit run) h"
  by (simp add: observe_run_def)

definition finish_hashes :: "rstr \<Rightarrow> scan_state \<Rightarrow> u64 \<times> int list" where
  "finish_hashes msg st =
     (case sc_structural_is_token st of None \<Rightarrow> sc_hashes st
      | Some tok \<Rightarrow> analyze_structural_run (drop (sc_structural_start st) msg) tok
          (sc_structural_has_digit st) (sc_hashes st))"

lemma scan_step_structural:
  "sc_structural_is_token (scan_step p f msg st (i, c)) = Some (f c)"
  "sc_structural_start (scan_step p f msg st (i, c)) =
     (if sc_structural_is_token st = Some (f c) then sc_structural_start st else i)"
  "sc_structural_has_digit (scan_step p f msg st (i, c)) =
     (sc_structural_is_token st = Some (f c) \<and> sc_structural_has_digit st \<or> is_ascii_digit c)"
  "sc_hashes (scan_step p f msg st (i, c)) =
     (case sc_structural_is_token st of None \<Rightarrow> sc_hashes st
      | Some tok \<Rightarrow> if tok = f c then sc_hashes st
          else analyze_structural_run (sub msg (sc_structural_start st) i) tok
                 (sc_structural_has_digit st) (sc_hashes st))"
  by (auto simp: scan_step_def Let_def split: prod.splits option.splits)

lemma scan_loop_hashes:
  assumes "msg = pre @ rest"
    and "\<And>tok. sc_structural_is_token st = Some tok \<Longrightarrow>
      sc_structural_start st \<le> length pre \<and>
      sc_structural_has_digit st = list_ex is_ascii_digit (drop (sc_structural_start st) pre)"
  shows "finish_hashes msg (foldl (scan_step p f msg) st (enumerate (length pre) rest)) =
    foldl observe_run (sc_hashes st)
      (case sc_structural_is_token st of None \<Rightarrow> runs f rest
       | Some tok \<Rightarrow>
          (tok, drop (sc_structural_start st) pre @ takeWhile (\<lambda>x. f x = tok) rest) #
          runs f (dropWhile (\<lambda>x. f x = tok) rest))"
  using assms
proof (induction rest arbitrary: pre st)
  case Nil
  then show ?case
    by (cases "sc_structural_is_token st") (simp_all add: finish_hashes_def)
next
  case (Cons c rest)
  let ?st = "scan_step p f msg st (length pre, c)"
  have inv: "sc_structural_start ?st \<le> length (pre @ [c]) \<and>
      sc_structural_has_digit ?st =
        list_ex is_ascii_digit (drop (sc_structural_start ?st) (pre @ [c]))"
    using Cons.prems(2) by (cases "sc_structural_is_token st") (auto simp: scan_step_structural)
  have IH: "finish_hashes msg (foldl (scan_step p f msg) ?st (enumerate (Suc (length pre)) rest)) =
    foldl observe_run (sc_hashes ?st)
      (case sc_structural_is_token ?st of None \<Rightarrow> runs f rest
       | Some tok \<Rightarrow>
          (tok, drop (sc_structural_start ?st) (pre @ [c]) @ takeWhile (\<lambda>x. f x = tok) rest) #
          runs f (dropWhile (\<lambda>x. f x = tok) rest))"
    using Cons.IH [of "pre @ [c]" ?st] Cons.prems(1) inv by simp
  have step: "foldl (scan_step p f msg) st (enumerate (length pre) (c # rest)) =
      foldl (scan_step p f msg) ?st (enumerate (Suc (length pre)) rest)" by simp
  show ?case
  proof (cases "sc_structural_is_token st")
    case None
    with IH show ?thesis unfolding step by (simp add: scan_step_structural)
  next
    case (Some tok)
    with Cons.prems(2) have "sc_structural_start st \<le> length pre"
      "sc_structural_has_digit st = list_ex is_ascii_digit (drop (sc_structural_start st) pre)"
      by blast+
    with Some IH Cons.prems(1) show ?thesis
      unfolding step by (simp add: scan_step_structural sub_def)
  qed
qed

lemma analyze_body_hashes:
  "snd (analyze_body p f msg) = foldl observe_run initial_hashes (runs f msg)"
proof -
  have "snd (analyze_body p f msg) =
      finish_hashes msg (foldl (scan_step p f msg) scan_init (enumerate 0 msg))"
    by (simp add: analyze_body_def finish_hashes_def Let_def)
  also have "\<dots> = foldl observe_run initial_hashes (runs f msg)"
    using scan_loop_hashes [of msg "[]" msg scan_init p f] by (simp add: scan_init_def)
  finally show ?thesis .
qed

text \<open>A run with its dynamic value removed.\<close>

definition static_run :: "bool \<times> rstr \<Rightarrow> rstr option" where
  "static_run = (\<lambda>(tok, run). if tok \<and> list_ex is_ascii_digit run then None else Some run)"

lemma observe_run_shape:
  assumes "static_run r = static_run r'" "fst h = fst h'"
  shows "fst (observe_run h r) = fst (observe_run h' r')"
  using assms
  by (auto simp: static_run_def observe_run_def analyze_structural_run_def split_beta
        split: if_splits)

lemma observe_runs_shape:
  assumes "map static_run rs = map static_run rs'" "fst h = fst h'"
  shows "fst (foldl observe_run h rs) = fst (foldl observe_run h' rs')"
  using assms
proof (induction rs arbitrary: rs' h h')
  case (Cons r rs)
  then obtain r' ts where rs': "rs' = r' # ts" by (cases rs') auto
  then have "static_run r = static_run r'" using Cons.prems(1) by simp
  then have "fst (observe_run h r) = fst (observe_run h' r')"
    using Cons.prems(2) by (rule observe_run_shape)
  with Cons.IH [of ts] Cons.prems(1) rs' show ?case by simp
qed simp

lemma analyze_fields_shape:
  "fst h = fst h' \<Longrightarrow> map field_key fs = map field_key gs \<Longrightarrow>
   fst (foldl analyze_field h fs) = fst (foldl analyze_field h' gs)"
proof (induction fs arbitrary: gs h h')
  case (Cons f fs)
  then obtain g ts where gs: "gs = g # ts" by (cases gs) auto
  have "fst (analyze_field h f) = fst (analyze_field h' g)"
    using Cons.prems gs by (simp add: analyze_field_def split_beta)
  with Cons.IH [of _ _ ts] Cons.prems(2) gs show ?case by simp
qed simp

lemma analyze_message_hashes:
  "shape_hash (snd (analyze_message U msg fs)) =
   fst (foldl analyze_field
     (foldl observe_run initial_hashes (runs is_template_token msg)) fs)"
proof -
  have "snd (if is_ascii msg then analyze_ascii_body msg else analyze_unicode_body U msg) =
      foldl observe_run initial_hashes (runs is_template_token msg)"
    by (simp add: analyze_ascii_body_def analyze_unicode_body_def analyze_body_hashes)
  then show ?thesis by (simp add: analyze_message_def split_beta)
qed

section \<open>Properties\<close>

text \<open>C18: The two scanners agree, on ASCII and on other text: the indexing-only scan and the
  fingerprinting scan both report exactly the maximal runs of alphanumeric characters, in order,
  whatever the fields are.\<close>

theorem scanners_agree:
  "scan_message_terms U msg = tokens (char_is_alphanumeric U) msg \<and>
   fst (analyze_message U msg fs) = scan_message_terms U msg"
  by (simp add: scan_message_terms_tokens analyze_message_terms)

text \<open>C19: The shape hash sees neither dynamic tokens nor metadata values: two messages whose runs
  differ only inside token runs that contain a digit, with the same field keys in the same order,
  have the same shape hash.\<close>

theorem shape_hash_ignores_dynamic:
  assumes "map static_run (runs is_template_token a) = map static_run (runs is_template_token b)"
    and "map field_key fs = map field_key gs"
  shows "shape_hash (fingerprint_message U a fs) = shape_hash (fingerprint_message U b gs)"
  unfolding fingerprint_message_def analyze_message_hashes
  by (intro analyze_fields_shape observe_runs_shape assms refl)

theorem shape_hash_ignores_dynamic_witness:
  "shape_hash (fingerprint_message ascii_ucd (lit ''req 17 took 3ms'') [metadata_field_new (lit ''k'') (lit ''a'')]) =
   shape_hash (fingerprint_message ascii_ucd (lit ''req 9f3 took 250ms'') [metadata_field_new (lit ''k'') (lit ''b'')])"
  by (rule shape_hash_ignores_dynamic) code_simp+

end
