(* ===== verification/Query.thy ===== *)
theory Query
  imports Text_Scan
begin

text \<open>
  Lookup semantics of \<^verbatim>\<open>src/src/query.rs\<close>: literal text matching, the evaluation
  of predicates, ranges and cursors, the deterministic result order, \<open>select\<close>, and the
  index constraints a lookup implies. \<open>U\<close> is the character database; \<open>rx\<close> stands for
  \<^verbatim>\<open>Regex::is_match\<close> of a compiled expression. Candidate records are values of any
  type with a \<open>view\<close>, as the source is generic over its record type.
\<close>

section \<open>Text matching\<close>

definition text_equal :: "ucd \<Rightarrow> rstr \<Rightarrow> rstr \<Rightarrow> case_sensitivity \<Rightarrow> bool" where
  "text_equal U left right cs =
     (case cs of
        Sensitive \<Rightarrow> left = right
      | Insensitive \<Rightarrow>
         if is_ascii left \<and> is_ascii right then eq_ignore_ascii_case left right
         else to_lowercase U left = to_lowercase U right)"

definition text_contains :: "ucd \<Rightarrow> rstr \<Rightarrow> rstr \<Rightarrow> case_sensitivity \<Rightarrow> bool" where
  "text_contains U haystack needle cs =
     (if needle = [] then True
      else case cs of
        Sensitive \<Rightarrow> str_contains haystack needle
      | Insensitive \<Rightarrow>
         if is_ascii haystack \<and> is_ascii needle
         then list_ex (\<lambda>w. eq_ignore_ascii_case w needle) (windows (length needle) haystack)
         else str_contains (to_lowercase U haystack) (to_lowercase U needle))"

definition text_prefix :: "ucd \<Rightarrow> rstr \<Rightarrow> rstr \<Rightarrow> case_sensitivity \<Rightarrow> bool" where
  "text_prefix U observed pre cs =
     (case cs of
        Sensitive \<Rightarrow> starts_with observed pre
      | Insensitive \<Rightarrow>
         if is_ascii observed \<and> is_ascii pre
         then (case slice_get observed 0 (length pre) of None \<Rightarrow> False
               | Some candidate \<Rightarrow> eq_ignore_ascii_case candidate pre)
         else starts_with (to_lowercase U observed) (to_lowercase U pre))"

definition text_suffix :: "ucd \<Rightarrow> rstr \<Rightarrow> rstr \<Rightarrow> case_sensitivity \<Rightarrow> bool" where
  "text_suffix U observed suf cs =
     (case cs of
        Sensitive \<Rightarrow> ends_with observed suf
      | Insensitive \<Rightarrow>
         if is_ascii observed \<and> is_ascii suf
         then length suf \<le> length observed \<and>
              eq_ignore_ascii_case (drop (length observed - length suf) observed) suf
         else ends_with (to_lowercase U observed) (to_lowercase U suf))"

definition text_matches :: "ucd \<Rightarrow> rstr \<Rightarrow> text_matcher \<Rightarrow> bool" where
  "text_matches U observed m =
     (case matcher_kind m of
        Exact \<Rightarrow> text_equal U observed (matcher_value m) (matcher_case m)
      | Contains \<Rightarrow> text_contains U observed (matcher_value m) (matcher_case m)
      | Prefix \<Rightarrow> text_prefix U observed (matcher_value m) (matcher_case m)
      | Suffix \<Rightarrow> text_suffix U observed (matcher_value m) (matcher_case m))"

definition message_has_term :: "ucd \<Rightarrow> rstr \<Rightarrow> rstr \<Rightarrow> bool" where
  "message_has_term U msg expected =
     list_ex (\<lambda>t. text_equal U t expected Insensitive) (fst (analyze_message U msg []))"

definition compare_numeric :: "int \<Rightarrow> numeric_comparison \<Rightarrow> int \<Rightarrow> bool" where
  "compare_numeric observed c expected =
     (case c of
        NumEqual \<Rightarrow> observed = expected
      | NumNotEqual \<Rightarrow> observed \<noteq> expected
      | NumLessThan \<Rightarrow> observed < expected
      | NumLessThanOrEqual \<Rightarrow> observed \<le> expected
      | NumGreaterThan \<Rightarrow> observed > expected
      | NumGreaterThanOrEqual \<Rightarrow> observed \<ge> expected)"

section \<open>Predicates\<close>

type_synonym regex_match = "log_regex \<Rightarrow> rstr \<Rightarrow> bool"

definition field_equals :: "record_view \<Rightarrow> metadata_field \<Rightarrow> bool" where
  "field_equals v expected =
     list_ex (\<lambda>(k, x). k = field_key expected \<and> x = field_value expected) (view_fields v)"

fun predicate_matches :: "ucd \<Rightarrow> regex_match \<Rightarrow> log_predicate \<Rightarrow> record_view \<Rightarrow> bool" where
  "predicate_matches U rx MatchAll v = True"
| "predicate_matches U rx MatchNone v = False"
| "predicate_matches U rx (Term t) v = message_has_term U (view_message v) t"
| "predicate_matches U rx (Message m) v = text_matches U (view_message v) m"
| "predicate_matches U rx (MessageRegex r) v = rx r (view_message v)"
| "predicate_matches U rx (FieldExists key) v = list_ex (\<lambda>(k, _). k = key) (view_fields v)"
| "predicate_matches U rx (Field key m) v =
     list_ex (\<lambda>(k, x). k = key \<and> text_matches U x m) (view_fields v)"
| "predicate_matches U rx (FieldIn key values) v =
     list_ex (\<lambda>(k, x). k = key \<and> list_ex (\<lambda>expected. x = expected) values) (view_fields v)"
| "predicate_matches U rx (FieldRegex key r) v =
     list_ex (\<lambda>(k, x). k = key \<and> rx r x) (view_fields v)"
| "predicate_matches U rx (FieldNumeric key c value) v =
     list_ex (\<lambda>(k, x). k = key \<and>
       (case parse_i128 x of None \<Rightarrow> False | Some n \<Rightarrow> compare_numeric n c value)) (view_fields v)"
| "predicate_matches U rx (And ps) v = list_all (\<lambda>p. predicate_matches U rx p v) ps"
| "predicate_matches U rx (Or ps) v = list_ex (\<lambda>p. predicate_matches U rx p v) ps"
| "predicate_matches U rx (Not p) v = (\<not> predicate_matches U rx p v)"

section \<open>Ranges, cursors and order\<close>

definition is_none_or :: "'a option \<Rightarrow> ('a \<Rightarrow> bool) \<Rightarrow> bool" where
  "is_none_or x p = (case x of None \<Rightarrow> True | Some y \<Rightarrow> p y)"

lemma is_none_or_simps [simp]:
  "is_none_or None p = True"
  "is_none_or (Some y) p = p y"
  by (simp_all add: is_none_or_def)

definition offset_matches :: "log_query \<Rightarrow> logical_offset \<Rightarrow> bool" where
  "offset_matches q off \<longleftrightarrow>
     is_none_or (q_start_offset q) (\<lambda>s. s \<le> off) \<and> is_none_or (q_end_offset q) (\<lambda>e. off < e)"

definition timestamp_matches :: "log_query \<Rightarrow> u64 \<Rightarrow> bool" where
  "timestamp_matches q ts \<longleftrightarrow>
     is_none_or (q_start_timestamp q) (\<lambda>s. s \<le> ts) \<and> is_none_or (q_end_timestamp q) (\<lambda>e. ts < e)"

fun then_with :: "ordering \<Rightarrow> ordering \<Rightarrow> ordering" where
  "then_with Equal y = y"
| "then_with x y = x"

fun reverse_ordering :: "ordering \<Rightarrow> ordering" where
  "reverse_ordering Less = Greater"
| "reverse_ordering Equal = Equal"
| "reverse_ordering Greater = Less"

definition position_cmp :: "query_sort \<Rightarrow> u64 \<times> logical_offset \<Rightarrow> u64 \<times> logical_offset \<Rightarrow> ordering" where
  "position_cmp s a b =
     (case s of
        SortOffset \<Rightarrow> cmp (snd a) (snd b)
      | SortTimestamp \<Rightarrow> then_with (cmp (fst a) (fst b)) (cmp (snd a) (snd b)))"

definition cursor_matches :: "log_query \<Rightarrow> record_view \<Rightarrow> bool" where
  "cursor_matches q v =
     (case q_after q of None \<Rightarrow> True
      | Some c \<Rightarrow>
         let ord = position_cmp (q_sort q) (view_timestamp v, view_offset v)
                     (cursor_timestamp c, cursor_offset c)
         in if q_order q = NewestFirst then ord = Less else ord = Greater)"

definition query_compare :: "log_query \<Rightarrow> record_view \<Rightarrow> record_view \<Rightarrow> ordering" where
  "query_compare q l r =
     (let ord = position_cmp (q_sort q) (view_timestamp l, view_offset l)
                  (view_timestamp r, view_offset r)
      in if q_order q = NewestFirst then reverse_ordering ord else ord)"

definition cursor_for :: "record_view \<Rightarrow> query_cursor" where
  "cursor_for v = query_cursor_new (view_timestamp v) (view_offset v)"

section \<open>Matching and selection\<close>

definition legacy_terms_match :: "ucd \<Rightarrow> log_query \<Rightarrow> record_view \<Rightarrow> bool" where
  "legacy_terms_match U q v = list_all (\<lambda>t. message_has_term U (view_message v) t) (q_terms q)"

definition legacy_fields_match :: "log_query \<Rightarrow> record_view \<Rightarrow> bool" where
  "legacy_fields_match q v = list_all (field_equals v) (q_exact_fields q)"

definition query_matches :: "ucd \<Rightarrow> regex_match \<Rightarrow> log_query \<Rightarrow> record_view \<Rightarrow> bool" where
  "query_matches U rx q v \<longleftrightarrow>
     offset_matches q (view_offset v) \<and> timestamp_matches q (view_timestamp v) \<and>
     cursor_matches q v \<and> legacy_terms_match U q v \<and> legacy_fields_match q v \<and>
     predicate_matches U rx (q_predicate q) v"

definition matches_index_candidate :: "ucd \<Rightarrow> regex_match \<Rightarrow> log_query \<Rightarrow> record_view \<Rightarrow> bool" where
  "matches_index_candidate U rx q v \<longleftrightarrow>
     offset_matches q (view_offset v) \<and> timestamp_matches q (view_timestamp v) \<and>
     cursor_matches q v \<and> predicate_matches U rx (q_predicate q) v"

definition truncate_opt :: "nat option \<Rightarrow> 'a list \<Rightarrow> 'a list" where
  "truncate_opt limit xs = (case limit of None \<Rightarrow> xs | Some n \<Rightarrow> take n xs)"

definition select :: "ucd \<Rightarrow> regex_match \<Rightarrow> ('r \<Rightarrow> record_view) \<Rightarrow> log_query \<Rightarrow> 'r list \<Rightarrow> 'r list" where
  "select U rx view q rs =
     truncate_opt (q_limit q)
       (sort_by (\<lambda>l r. query_compare q (view l) (view r))
         (filter (\<lambda>r. query_matches U rx q (view r)) rs))"

section \<open>What the index may decide\<close>

record required_index_constraints =
  rc_terms :: "rstr list"
  rc_fields :: "(rstr \<times> rstr) list"
  rc_message_literals :: "rstr list"
  rc_impossible :: bool

fun collect_required_constraints ::
  "log_predicate \<Rightarrow> required_index_constraints \<Rightarrow> required_index_constraints" where
  "collect_required_constraints MatchAll c = c"
| "collect_required_constraints MatchNone c = c\<lparr>rc_impossible := True\<rparr>"
| "collect_required_constraints (Term t) c = c\<lparr>rc_terms := rc_terms c @ [t]\<rparr>"
| "collect_required_constraints (Field key m) c =
     (if matcher_kind m = Exact \<and> matcher_case m = Sensitive
      then c\<lparr>rc_fields := rc_fields c @ [(key, matcher_value m)]\<rparr> else c)"
| "collect_required_constraints (And ps) c =
     foldl (\<lambda>c p. collect_required_constraints p c) c ps"
| "collect_required_constraints (Message m) c =
     c\<lparr>rc_message_literals := rc_message_literals c @ [matcher_value m]\<rparr>"
| "collect_required_constraints _ c = c"

definition required_index_constraints :: "log_query \<Rightarrow> required_index_constraints" where
  "required_index_constraints q =
     collect_required_constraints (q_predicate q)
       \<lparr>rc_terms = q_terms q,
        rc_fields = map (\<lambda>f. (field_key f, field_value f)) (q_exact_fields q),
        rc_message_literals = [], rc_impossible = False\<rparr>"

fun predicate_is_index_only_conjunction :: "log_predicate \<Rightarrow> bool" where
  "predicate_is_index_only_conjunction MatchAll = True"
| "predicate_is_index_only_conjunction MatchNone = True"
| "predicate_is_index_only_conjunction (Term _) = True"
| "predicate_is_index_only_conjunction (Field _ m) =
     (matcher_kind m = Exact \<and> matcher_case m = Sensitive)"
| "predicate_is_index_only_conjunction (And ps) = list_all predicate_is_index_only_conjunction ps"
| "predicate_is_index_only_conjunction _ = False"

definition requires_post_decode :: "log_query \<Rightarrow> bool" where
  "requires_post_decode q \<longleftrightarrow>
     q_start_offset q \<noteq> None \<or> q_end_offset q \<noteq> None \<or> q_start_timestamp q \<noteq> None \<or>
     q_end_timestamp q \<noteq> None \<or> q_after q \<noteq> None \<or> q_sort q = SortTimestamp \<or>
     \<not> predicate_is_index_only_conjunction (q_predicate q)"

definition can_apply_index_limit :: "log_query \<Rightarrow> bool" where
  "can_apply_index_limit q \<longleftrightarrow>
     q_start_offset q = None \<and> q_end_offset q = None \<and> q_start_timestamp q = None \<and>
     q_end_timestamp q = None \<and> q_after q = None \<and> q_sort q = SortOffset \<and>
     predicate_is_index_only_conjunction (q_predicate q)"

definition needs_record_filter :: "log_query \<Rightarrow> bool" where
  "needs_record_filter q \<longleftrightarrow>
     q_start_timestamp q \<noteq> None \<or> q_end_timestamp q \<noteq> None \<or> q_after q \<noteq> None \<or>
     q_sort q = SortTimestamp \<or> \<not> predicate_is_index_only_conjunction (q_predicate q)"

definition has_invalid_range :: "log_query \<Rightarrow> bool" where
  "has_invalid_range q \<longleftrightarrow>
     (case (q_start_offset q, q_end_offset q) of (Some s, Some e) \<Rightarrow> e \<le> s | _ \<Rightarrow> False) \<or>
     (case (q_start_timestamp q, q_end_timestamp q) of (Some s, Some e) \<Rightarrow> e \<le> s | _ \<Rightarrow> False)"

section \<open>The ASCII paths agree with Unicode lowercasing\<close>

lemma text_equal_lower:
  "text_equal U a b Insensitive \<longleftrightarrow> to_lowercase U a = to_lowercase U b"
  by (simp add: text_equal_def eq_ignore_ascii_case_def to_lowercase_ascii)

lemma windows_lower:
  assumes "needle \<noteq> []"
  shows "list_ex (\<lambda>w. eq_ignore_ascii_case w needle) (windows (length needle) hay) \<longleftrightarrow>
    sublist (map to_ascii_lowercase needle) (map to_ascii_lowercase hay)"
proof
  assume "list_ex (\<lambda>w. eq_ignore_ascii_case w needle) (windows (length needle) hay)"
  then obtain w where w: "sublist w hay" "map to_ascii_lowercase w = map to_ascii_lowercase needle"
    using assms by (auto simp: list_ex_iff set_windows eq_ignore_ascii_case_def)
  then show "sublist (map to_ascii_lowercase needle) (map to_ascii_lowercase hay)"
    by (metis map_mono_sublist)
next
  assume "sublist (map to_ascii_lowercase needle) (map to_ascii_lowercase hay)"
  then obtain ps ss where "map to_ascii_lowercase hay = ps @ map to_ascii_lowercase needle @ ss"
    by (auto simp: sublist_def)
  then obtain a w b where "hay = a @ w @ b" "map to_ascii_lowercase w = map to_ascii_lowercase needle"
    by (auto simp: map_eq_append_conv append_eq_map_conv)
  then have "w \<in> set (windows (length needle) hay)" "eq_ignore_ascii_case w needle"
    using assms by (auto simp: set_windows eq_ignore_ascii_case_def dest: map_eq_imp_length_eq)
  then show "list_ex (\<lambda>w. eq_ignore_ascii_case w needle) (windows (length needle) hay)"
    by (auto simp: list_ex_iff)
qed

lemma text_contains_lower:
  assumes "needle \<noteq> []"
  shows "text_contains U hay needle Insensitive \<longleftrightarrow>
    sublist (to_lowercase U needle) (to_lowercase U hay)"
  using assms
  by (simp add: text_contains_def windows_lower to_lowercase_ascii str_contains_sublist)

lemma starts_with_prefix: "starts_with s p \<longleftrightarrow> prefix p s"
  by (metis starts_with_def append_eq_conv_conj prefix_def take_is_prefix)

lemma text_prefix_lower:
  "text_prefix U s p Insensitive \<longleftrightarrow> prefix (to_lowercase U p) (to_lowercase U s)"
proof -
  have len: "map to_ascii_lowercase (take (length p) s) = map to_ascii_lowercase p \<Longrightarrow>
      length p \<le> length s" by (drule map_eq_imp_length_eq) simp
  have "(case slice_get s 0 (length p) of None \<Rightarrow> False
      | Some candidate \<Rightarrow> eq_ignore_ascii_case candidate p) \<longleftrightarrow>
      starts_with (map to_ascii_lowercase s) (map to_ascii_lowercase p)"
    using len by (auto simp: slice_get_def eq_ignore_ascii_case_def starts_with_def take_map)
  then show ?thesis by (simp add: text_prefix_def to_lowercase_ascii starts_with_prefix)
qed

lemma ends_with_suffix: "ends_with s p \<longleftrightarrow> suffix p s"
  by (auto simp: ends_with_def suffix_def) (metis append_take_drop_id)

lemma text_suffix_lower:
  "text_suffix U s p Insensitive \<longleftrightarrow> suffix (to_lowercase U p) (to_lowercase U s)"
proof -
  have "length p \<le> length s \<and> eq_ignore_ascii_case (drop (length s - length p) s) p \<longleftrightarrow>
      ends_with (map to_ascii_lowercase s) (map to_ascii_lowercase p)"
    by (auto simp: ends_with_def eq_ignore_ascii_case_def drop_map)
  then show ?thesis by (simp add: text_suffix_def to_lowercase_ascii ends_with_suffix)
qed

section \<open>The result order\<close>

lemma position_cmp_Equal: "position_cmp s a b = Equal \<Longrightarrow> snd a = snd b"
  by (cases s; cases "cmp (fst a) (fst b)")
     (auto simp: position_cmp_def cmp_def split: if_splits)

lemma position_cmp_Less:
  "position_cmp s a b = Less \<longleftrightarrow>
     (if s = SortOffset then snd a < snd b
      else fst a < fst b \<or> fst a = fst b \<and> snd a < snd b)"
  by (cases s) (simp_all add: position_cmp_def cmp_def)

lemma position_cmp_swap: "position_cmp s a b = Greater \<longleftrightarrow> position_cmp s b a = Less"
  by (cases s) (auto simp: position_cmp_def cmp_def)

lemma position_cmp_trans:
  "position_cmp s a b = Less \<Longrightarrow> position_cmp s b d \<noteq> Greater \<Longrightarrow> position_cmp s a d = Less"
  "position_cmp s a b \<noteq> Greater \<Longrightarrow> position_cmp s b d = Less \<Longrightarrow> position_cmp s a d = Less"
  "position_cmp s a b \<noteq> Greater \<Longrightarrow> position_cmp s b d \<noteq> Greater \<Longrightarrow> position_cmp s a d \<noteq> Greater"
  unfolding position_cmp_swap position_cmp_Less by (auto split: if_splits)

lemma reverse_ordering_eq [simp]:
  "reverse_ordering x = Less \<longleftrightarrow> x = Greater"
  "reverse_ordering x = Greater \<longleftrightarrow> x = Less"
  "reverse_ordering x = Equal \<longleftrightarrow> x = Equal"
  by (induction x) simp_all

lemma query_compare_swap: "query_compare q a b = Greater \<longleftrightarrow> query_compare q b a = Less"
  by (cases "q_order q")
     (simp_all add: query_compare_def position_cmp_swap [of "q_sort q" "(view_timestamp a, view_offset a)"]
        position_cmp_swap [of "q_sort q" "(view_timestamp b, view_offset b)"])

lemma query_compare_trans:
  assumes "query_compare q a b \<noteq> Greater" "query_compare q b d \<noteq> Greater"
  shows "query_compare q a d \<noteq> Greater"
proof -
  let ?p = "\<lambda>v. (view_timestamp v, view_offset v)"
  note swap = position_cmp_swap [of "q_sort q" "?p b" "?p a"]
    position_cmp_swap [of "q_sort q" "?p d" "?p b"] position_cmp_swap [of "q_sort q" "?p d" "?p a"]
  show ?thesis
  proof (cases "q_order q = NewestFirst")
    case True
    then have "position_cmp (q_sort q) (?p d) (?p b) \<noteq> Greater"
      "position_cmp (q_sort q) (?p b) (?p a) \<noteq> Greater"
      using assms swap by (simp_all add: query_compare_def)
    then have "position_cmp (q_sort q) (?p d) (?p a) \<noteq> Greater" by (rule position_cmp_trans(3))
    with True swap show ?thesis by (simp add: query_compare_def)
  next
    case False
    then show ?thesis using assms position_cmp_trans(3) [of "q_sort q" "?p a" "?p b" "?p d"]
      by (simp add: query_compare_def)
  qed
qed

interpretation query_order: comparator "\<lambda>l r. query_compare q (view l) (view r)" for q view
  by unfold_locales (use query_compare_swap query_compare_trans in blast)+

lemma query_compare_Equal: "query_compare q a b = Equal \<Longrightarrow> view_offset a = view_offset b"
  by (auto simp: query_compare_def Let_def dest: position_cmp_Equal split: if_splits)

lemma query_compare_cong:
  "q_sort q = q_sort q' \<Longrightarrow> q_order q = q_order q' \<Longrightarrow> query_compare q = query_compare q'"
  by (intro ext) (simp add: query_compare_def)

text \<open>A cursor admits exactly what follows the record it was made from.\<close>

lemma cursor_matches_after:
  "cursor_matches (q\<lparr>q_after := Some (cursor_for c), q_limit := l\<rparr>) v \<longleftrightarrow> query_compare q c v = Less"
  using position_cmp_swap [of "q_sort q" "(view_timestamp c, view_offset c)"
      "(view_timestamp v, view_offset v)"]
    position_cmp_swap [of "q_sort q" "(view_timestamp v, view_offset v)"
      "(view_timestamp c, view_offset c)"]
  by (simp add: cursor_matches_def query_compare_def cursor_for_def query_cursor_new_def Let_def)

lemma cursor_matches_mono:
  assumes "cursor_matches q c" "query_compare q c v = Less"
  shows "cursor_matches q v"
proof (cases "q_after q")
  case None
  then show ?thesis by (simp add: cursor_matches_def)
next
  case (Some k)
  let ?p = "\<lambda>v. (view_timestamp v, view_offset v)"
  show ?thesis
  proof (cases "q_order q = NewestFirst")
    case True
    then have "position_cmp (q_sort q) (?p v) (?p c) \<noteq> Greater"
      "position_cmp (q_sort q) (?p c) (cursor_timestamp k, cursor_offset k) = Less"
      using assms Some position_cmp_swap [of "q_sort q" "?p c" "?p v"]
        position_cmp_swap [of "q_sort q" "?p v" "?p c"]
      by (simp_all add: cursor_matches_def query_compare_def)
    from position_cmp_trans(2) [OF this] True Some show ?thesis by (simp add: cursor_matches_def)
  next
    case False
    then have "position_cmp (q_sort q) (cursor_timestamp k, cursor_offset k) (?p c) = Less"
      "position_cmp (q_sort q) (?p c) (?p v) \<noteq> Greater"
      using assms Some position_cmp_swap [of "q_sort q" "?p c" "(cursor_timestamp k, cursor_offset k)"]
      by (simp_all add: cursor_matches_def query_compare_def)
    from position_cmp_trans(1) [OF this] False Some show ?thesis
      using position_cmp_swap [of "q_sort q" "?p v" "(cursor_timestamp k, cursor_offset k)"]
      by (simp add: cursor_matches_def)
  qed
qed

section \<open>Selection\<close>

lemma sort_by_filter_unique:
  assumes "distinct (map (view_offset \<circ> view) rs)"
    and "sorted_wrt (\<lambda>a b. query_compare q (view a) (view b) \<noteq> Greater) ys"
    and "set ys = set (filter P rs)" "distinct ys"
  shows "sort_by (\<lambda>l r. query_compare q (view l) (view r)) (filter P rs) = ys"
proof (rule query_order.sort_by_unique [OF assms(2,3) _ assms(4)])
  show "distinct (filter P rs)" using assms(1) by (simp add: distinct_map)
  show "a = b" if "a \<in> set (filter P rs)" "b \<in> set (filter P rs)"
    "query_compare q (view a) (view b) = Equal" for a b
    using assms(1) that query_compare_Equal [of q "view a" "view b"]
    by (auto simp: distinct_map inj_on_def)
qed

text \<open>The complete result of a lookup, before the limit.\<close>

abbreviation select_all :: "ucd \<Rightarrow> regex_match \<Rightarrow> ('r \<Rightarrow> record_view) \<Rightarrow> log_query \<Rightarrow> 'r list \<Rightarrow> 'r list" where
  "select_all U rx view q rs \<equiv> select U rx view (q\<lparr>q_limit := None\<rparr>) rs"

lemma query_matches_limit [simp]:
  "query_matches U rx (q\<lparr>q_limit := l\<rparr>) v = query_matches U rx q v"
  by (simp add: query_matches_def offset_matches_def timestamp_matches_def cursor_matches_def
        legacy_terms_match_def legacy_fields_match_def cong: option.case_cong)

lemma query_compare_limit [simp]: "query_compare (q\<lparr>q_limit := l\<rparr>) = query_compare q"
  by (rule query_compare_cong) simp_all

lemma select_truncate: "select U rx view q rs = truncate_opt (q_limit q) (select_all U rx view q rs)"
  by (simp add: select_def truncate_opt_def)

lemma set_select_all: "set (select_all U rx view q rs) = {r \<in> set rs. query_matches U rx q (view r)}"
  by (auto simp: select_def truncate_opt_def)

lemma distinct_select_all: "distinct rs \<Longrightarrow> distinct (select_all U rx view q rs)"
  by (simp add: select_def truncate_opt_def)

lemma sorted_select_all:
  "sorted_wrt (\<lambda>a b. query_compare q (view a) (view b) \<noteq> Greater) (select_all U rx view q rs)"
  using query_order.sorted_sort_by [of q view] by (simp add: select_def truncate_opt_def)

lemma select_all_unique:
  assumes "distinct (map (view_offset \<circ> view) rs)"
    and "sorted_wrt (\<lambda>a b. query_compare q (view a) (view b) \<noteq> Greater) ys"
    and "set ys = {r \<in> set rs. query_matches U rx q (view r)}" "distinct ys"
  shows "select_all U rx view q rs = ys"
  using sort_by_filter_unique [OF assms(1,2) _ assms(4), of "\<lambda>r. query_matches U rx q (view r)"]
    assms(3) by (simp add: select_def truncate_opt_def)

section \<open>Pages\<close>

lemma strictly_sorted_select_all:
  assumes "distinct (map (view_offset \<circ> view) rs)"
  shows "sorted_wrt (\<lambda>a b. query_compare q (view a) (view b) = Less) (select_all U rx view q rs)"
proof -
  let ?full = "select_all U rx view q rs"
  have "distinct rs" "inj_on (view_offset \<circ> view) (set rs)" using assms by (auto simp: distinct_map)
  then have d: "distinct ?full" and sub: "set ?full \<subseteq> set rs"
    by (simp_all add: distinct_select_all set_select_all)
  show ?thesis unfolding sorted_wrt_iff_nth_less
  proof (intro allI impI)
    fix i j assume ij: "i < j" "j < length ?full"
    let ?c = "query_compare q (view (?full ! i)) (view (?full ! j))"
    have "?c \<noteq> Greater"
      using sorted_select_all [of q view U rx rs] ij by (simp add: sorted_wrt_iff_nth_less)
    moreover have "?c \<noteq> Equal"
    proof
      assume "?c = Equal"
      then have "view_offset (view (?full ! i)) = view_offset (view (?full ! j))"
        by (rule query_compare_Equal)
      moreover have "?full ! i \<in> set rs" "?full ! j \<in> set rs" using ij sub by auto
      ultimately have "?full ! i = ?full ! j"
        using \<open>inj_on (view_offset \<circ> view) (set rs)\<close> by (auto simp: inj_on_def)
      with d ij show False by (simp add: nth_eq_iff_index_eq)
    qed
    ultimately show "?c = Less" by (cases ?c) auto
  qed
qed

lemma set_drop_strictly_sorted:
  assumes "sorted_wrt R xs" "n < length xs" "\<And>a b. R a b \<Longrightarrow> \<not> R b a"
  shows "set (drop (Suc n) xs) = {x \<in> set xs. R (xs ! n) x}"
proof -
  have xs: "xs = take n xs @ xs ! n # drop (Suc n) xs" using assms(2) by (simp add: id_take_nth_drop)
  have "sorted_wrt R (take n xs @ xs ! n # drop (Suc n) xs)" using assms(1) xs by simp
  then have "\<forall>x\<in>set (drop (Suc n) xs). R (xs ! n) x" "\<forall>x\<in>set (take n xs). R x (xs ! n)"
    by (auto simp: sorted_wrt_append)
  moreover have "\<not> R (xs ! n) x" if "R x (xs ! n)" for x using assms(3) that by blast
  moreover have "\<not> R (xs ! n) (xs ! n)" using assms(3) by blast
  moreover have "set xs = set (take n xs) \<union> {xs ! n} \<union> set (drop (Suc n) xs)"
    using arg_cong [OF xs, of set] by simp
  ultimately show ?thesis by blast
qed

lemma query_matches_after:
  assumes "query_matches U rx q c"
  shows "query_matches U rx (q\<lparr>q_after := Some (cursor_for c), q_limit := l\<rparr>) v \<longleftrightarrow>
    query_matches U rx q v \<and> query_compare q c v = Less"
  using assms cursor_matches_mono [of q c v]
  by (auto simp: query_matches_def cursor_matches_after offset_matches_def timestamp_matches_def
        legacy_terms_match_def legacy_fields_match_def)

lemma select_next_page:
  assumes "distinct (map (view_offset \<circ> view) rs)" "n < length (select_all U rx view q rs)"
  shows "select_all U rx view
      (q\<lparr>q_after := Some (cursor_for (view (select_all U rx view q rs ! n)))\<rparr>) rs =
    drop (Suc n) (select_all U rx view q rs)" (is "select_all U rx view ?q' rs = _")
proof (rule select_all_unique [OF assms(1)])
  let ?full = "select_all U rx view q rs"
  have "?full ! n \<in> set ?full" using assms(2) by simp
  then have c: "query_matches U rx q (view (?full ! n))" unfolding set_select_all by simp
  have cmp: "query_compare ?q' = query_compare q" by (rule query_compare_cong) simp_all
  have "sorted_wrt (\<lambda>a b. query_compare q (view a) (view b) \<noteq> Greater) (drop (Suc n) ?full)"
    using sorted_select_all [of q view U rx rs] by (rule sorted_wrt_drop)
  then show "sorted_wrt (\<lambda>a b. query_compare ?q' (view a) (view b) \<noteq> Greater) (drop (Suc n) ?full)"
    unfolding cmp .
  have "set (drop (Suc n) ?full) =
      {r \<in> set ?full. query_compare q (view (?full ! n)) (view r) = Less}"
    by (rule set_drop_strictly_sorted [OF strictly_sorted_select_all [OF assms(1)] assms(2)])
       (metis query_compare_swap ordering.distinct(3))
  also have "\<dots> = {r \<in> set rs. query_matches U rx ?q' (view r)}"
    using query_matches_after [OF c, of "q_limit q"] by (auto simp: set_select_all)
  finally show "set (drop (Suc n) ?full) = {r \<in> set rs. query_matches U rx ?q' (view r)}" .
  have "distinct rs" using assms(1) by (simp add: distinct_map)
  then show "distinct (drop (Suc n) ?full)" by (intro distinct_drop distinct_select_all)
qed

section \<open>Index constraints are implied, and suffice for posting-only lookups\<close>

definition satisfies_constraints :: "ucd \<Rightarrow> required_index_constraints \<Rightarrow> record_view \<Rightarrow> bool" where
  "satisfies_constraints U c v \<longleftrightarrow>
     \<not> rc_impossible c \<and> (\<forall>t\<in>set (rc_terms c). message_has_term U (view_message v) t) \<and>
     set (rc_fields c) \<subseteq> set (view_fields v)"

text \<open>
  A literal is safe for an index over lowercased text when its match is case-insensitive or it
  has no capital sigma, whose lowercase form depends on the characters around it.
\<close>

definition trigram_safe :: "text_matcher \<Rightarrow> bool" where
  "trigram_safe m \<longleftrightarrow> matcher_case m = Insensitive \<or> capital_sigma \<notin> set (matcher_value m)"

fun predicate_trigram_safe :: "log_predicate \<Rightarrow> bool" where
  "predicate_trigram_safe (Message m) = trigram_safe m"
| "predicate_trigram_safe (And ps) = list_all predicate_trigram_safe ps"
| "predicate_trigram_safe _ = True"

definition literal_matched :: "ucd \<Rightarrow> rstr \<Rightarrow> rstr \<Rightarrow> bool" where
  "literal_matched U msg l \<longleftrightarrow> (\<exists>m. matcher_value m = l \<and> text_matches U msg m \<and> trigram_safe m)"

lemma exact_field_matches:
  assumes "matcher_kind m = Exact" "matcher_case m = Sensitive"
  shows "predicate_matches U rx (Field key m) v \<longleftrightarrow> (key, matcher_value m) \<in> set (view_fields v)"
  using assms by (auto simp: list_ex_iff text_matches_def text_equal_def)

lemma collect_sound:
  assumes "predicate_matches U rx p v" "satisfies_constraints U c v"
  shows "satisfies_constraints U (collect_required_constraints p c) v"
  using assms
proof (induction p arbitrary: c)
  case (And ps)
  then show ?case by (induction ps arbitrary: c) auto
next
  case (Field key m)
  then show ?case
    using exact_field_matches [of m U rx key v] by (auto simp: satisfies_constraints_def)
qed (auto simp: satisfies_constraints_def)

lemma collect_complete:
  assumes "predicate_is_index_only_conjunction p"
  shows "satisfies_constraints U (collect_required_constraints p c) v \<longleftrightarrow>
    satisfies_constraints U c v \<and> predicate_matches U rx p v"
  using assms
proof (induction p arbitrary: c)
  case (And ps)
  then show ?case by (induction ps arbitrary: c) auto
next
  case (Field key m)
  then show ?case
    using exact_field_matches [of m U rx key v] by (auto simp: satisfies_constraints_def)
qed (auto simp: satisfies_constraints_def)

definition literals_matched :: "ucd \<Rightarrow> required_index_constraints \<Rightarrow> record_view \<Rightarrow> bool" where
  "literals_matched U c v \<longleftrightarrow>
     (\<forall>l\<in>set (rc_message_literals c). literal_matched U (view_message v) l)"

lemma collect_literals:
  assumes "predicate_matches U rx p v" "predicate_trigram_safe p" "literals_matched U c v"
  shows "literals_matched U (collect_required_constraints p c) v"
  using assms
proof (induction p arbitrary: c)
  case (And ps)
  then show ?case by (induction ps arbitrary: c) auto
qed (auto simp: literals_matched_def literal_matched_def)

lemma satisfies_required_iff:
  "satisfies_constraints U
     \<lparr>rc_terms = q_terms q, rc_fields = map (\<lambda>f. (field_key f, field_value f)) (q_exact_fields q),
      rc_message_literals = [], rc_impossible = False\<rparr> v \<longleftrightarrow>
   legacy_terms_match U q v \<and> legacy_fields_match q v"
  by (auto simp: satisfies_constraints_def legacy_terms_match_def legacy_fields_match_def
        list_all_iff field_equals_def list_ex_iff)

lemma matches_satisfies_required:
  "query_matches U rx q v \<Longrightarrow> satisfies_constraints U (required_index_constraints q) v"
  unfolding required_index_constraints_def
  by (rule collect_sound) (auto simp: query_matches_def satisfies_required_iff)

lemma matches_required_literals:
  "query_matches U rx q v \<Longrightarrow> predicate_trigram_safe (q_predicate q) \<Longrightarrow>
   literals_matched U (required_index_constraints q) v"
  unfolding required_index_constraints_def
  by (rule collect_literals) (auto simp: query_matches_def literals_matched_def)

lemma collect_foldl_mono:
  assumes "\<And>p c. p \<in> set ps \<Longrightarrow> satisfies_constraints U (collect_required_constraints p c) v \<Longrightarrow>
      satisfies_constraints U c v"
    and "satisfies_constraints U (foldl (\<lambda>c p. collect_required_constraints p c) c ps) v"
  shows "satisfies_constraints U c v"
  using assms
proof (induction ps arbitrary: c)
  case (Cons p ps)
  have "satisfies_constraints U (collect_required_constraints p c) v"
  proof (rule Cons.IH)
    show "satisfies_constraints U c v"
      if "x \<in> set ps" "satisfies_constraints U (collect_required_constraints x c) v" for x c
      by (rule Cons.prems(1) [of x]) (use that in auto)
  qed (use Cons.prems(2) in \<open>simp only: foldl_Cons\<close>)
  then show ?case by (rule Cons.prems(1) [of p, rotated]) simp
qed simp

lemma collect_mono:
  assumes "satisfies_constraints U (collect_required_constraints p c) v"
  shows "satisfies_constraints U c v"
  using assms
proof (induction p arbitrary: c)
  case (And ps)
  show ?case
    by (rule collect_foldl_mono [OF And.IH]) (use And.prems in \<open>simp_all only: collect_required_constraints.simps\<close>)
next
  case (Or ps)
  from Or.prems show ?case by simp
next
  case (Not p)
  from Not.prems show ?case by simp
qed (auto simp: satisfies_constraints_def split: if_splits)

lemma candidate_matches_iff:
  "query_matches U rx q v \<longleftrightarrow>
   satisfies_constraints U (required_index_constraints q) v \<and> matches_index_candidate U rx q v"
proof
  assume *: "query_matches U rx q v"
  then show "satisfies_constraints U (required_index_constraints q) v \<and> matches_index_candidate U rx q v"
    using matches_satisfies_required by (simp add: query_matches_def matches_index_candidate_def)
next
  assume *: "satisfies_constraints U (required_index_constraints q) v \<and> matches_index_candidate U rx q v"
  then have "legacy_terms_match U q v \<and> legacy_fields_match q v"
    unfolding required_index_constraints_def satisfies_required_iff [symmetric]
    by (blast intro: collect_mono)
  with * show "query_matches U rx q v" by (simp add: query_matches_def matches_index_candidate_def)
qed

lemma index_only_matches_iff:
  assumes "predicate_is_index_only_conjunction (q_predicate q)"
  shows "query_matches U rx q v \<longleftrightarrow>
    satisfies_constraints U (required_index_constraints q) v \<and>
    offset_matches q (view_offset v) \<and> timestamp_matches q (view_timestamp v) \<and> cursor_matches q v"
  using collect_complete [OF assms, of U _ v rx]
  by (auto simp: query_matches_def required_index_constraints_def satisfies_required_iff)

section \<open>Properties\<close>

text \<open>C5: A lookup over records with distinct offsets can be paged: continuing after the cursor
  of the record at position \<open>n\<close> of the complete result, with any page limit, returns exactly the
  records that follow it, in the same order, without loss or repetition. This covers both sort
  keys and both orders.\<close>

theorem select_pages:
  assumes "distinct (map (view_offset \<circ> view) rs)" "n < length (select_all U rx view q rs)"
  shows "select U rx view
      (query_after (with_limit q l) (cursor_for (view (select_all U rx view q rs ! n)))) rs =
    take l (drop (Suc n) (select_all U rx view q rs))"
  using select_next_page [OF assms]
  by (subst select_truncate) (simp add: query_after_def with_limit_def truncate_opt_def)

definition sample_records :: "durable_log_record list" where
  "sample_records = map (\<lambda>(off, ts). durable_log_record_new 0 (0, 0) off ts [] 0)
     [(0, 30), (1, 10), (2, 20), (3, 10)]"

theorem select_pages_witness:
  "select ascii_ucd (\<lambda>_ _. False) durable_view
     (query_after (with_limit (sort_by_timestamp (log_query_new (0, 0))) 2) (query_cursor_new 10 1))
     sample_records =
   map (\<lambda>(off, ts). durable_log_record_new 0 (0, 0) off ts [] 0) [(3, 10), (2, 20)]"
proof -
  let ?q = "sort_by_timestamp (log_query_new (0, 0))"
  let ?full = "map (\<lambda>(off, ts). durable_log_record_new 0 (0, 0) off ts [] 0)
    [(1, 10), (3, 10), (2, 20), (0, 30)]"
  have full: "select_all ascii_ucd (\<lambda>_ _. False) durable_view ?q sample_records = ?full"
    by code_simp
  have "distinct (map (view_offset \<circ> durable_view) sample_records)" by code_simp
  from select_pages [OF this, where n = 0 and U = ascii_ucd and rx = "\<lambda>_ _. False" and q = ?q and l = 2]
  show ?thesis
    unfolding full by (simp add: cursor_for_def durable_log_record_new_def record_ref_new_def)
qed

text \<open>C8: A lookup returns the best page: its records are matching records of the input, in
  query order; no more than the limit are returned; and when a matching record is left out, the
  page is full and no returned record comes after it in query order.\<close>

theorem select_best:
  assumes "distinct rs" "res = select U rx view q rs"
  shows "sorted_wrt (\<lambda>a b. query_compare q (view a) (view b) \<noteq> Greater) res \<and>
    set res \<subseteq> {r \<in> set rs. query_matches U rx q (view r)} \<and> distinct res \<and>
    (\<forall>l. q_limit q = Some l \<longrightarrow> length res \<le> l) \<and>
    (\<forall>r\<in>set rs. query_matches U rx q (view r) \<longrightarrow> r \<notin> set res \<longrightarrow>
      q_limit q = Some (length res) \<and> (\<forall>s\<in>set res. query_compare q (view s) (view r) \<noteq> Greater))"
proof -
  let ?full = "select_all U rx view q rs"
  have res: "res = truncate_opt (q_limit q) ?full" using assms(2) select_truncate by metis
  have sorted: "sorted_wrt (\<lambda>a b. query_compare q (view a) (view b) \<noteq> Greater) ?full"
    by (rule sorted_select_all)
  have full: "set ?full = {r \<in> set rs. query_matches U rx q (view r)}" by (rule set_select_all)
  show ?thesis
  proof (cases "q_limit q")
    case None
    with res have "res = ?full" by (simp add: truncate_opt_def)
    then show ?thesis using None sorted full distinct_select_all [OF assms(1)] by simp
  next
    case (Some l)
    with res have take: "res = take l ?full" by (simp add: truncate_opt_def)
    have "sorted_wrt (\<lambda>a b. query_compare q (view a) (view b) \<noteq> Greater)
        (take l ?full @ drop l ?full)"
      using sorted by simp
    then have split: "\<forall>s\<in>set res. \<forall>r\<in>set (drop l ?full). query_compare q (view s) (view r) \<noteq> Greater"
      unfolding sorted_wrt_append take by blast
    have rest: "r \<in> set (drop l ?full)" if "r \<in> set ?full" "r \<notin> set res" for r
      using that set_append [of "take l ?full" "drop l ?full"] take by auto
    have "l = length res" if "r \<in> set (drop l ?full)" for r
      using that take by (cases "l \<le> length ?full") auto
    then show ?thesis
      using Some sorted split rest take full distinct_select_all [OF assms(1)]
      by (auto simp: sorted_wrt_take dest: in_set_takeD)
  qed
qed

theorem select_best_witness:
  "durable_log_record_new 0 (0, 0) 1 10 [] 0 \<in> set (select ascii_ucd (\<lambda>_ _. False) durable_view
     (with_limit (sort_by_timestamp (log_query_new (0, 0))) 2) sample_records) \<and>
   list_all (\<lambda>s. query_compare (with_limit (sort_by_timestamp (log_query_new (0, 0))) 2) (durable_view s)
       (durable_view (durable_log_record_new 0 (0, 0) 0 30 [] 0)) \<noteq> Greater)
     (select ascii_ucd (\<lambda>_ _. False) durable_view
       (with_limit (sort_by_timestamp (log_query_new (0, 0))) 2) sample_records)"
proof -
  let ?q = "with_limit (sort_by_timestamp (log_query_new (0, 0))) 2"
  let ?r = "durable_log_record_new 0 (0, 0) 0 30 [] 0"
  have "distinct sample_records" by code_simp
  note best = select_best [OF this refl, where q = ?q and U = ascii_ucd and rx = "\<lambda>_ _. False" and view = durable_view]
  have "?r \<in> set sample_records" "query_matches ascii_ucd (\<lambda>_ _. False) ?q (durable_view ?r)"
    "?r \<notin> set (select ascii_ucd (\<lambda>_ _. False) durable_view ?q sample_records)"
    "durable_log_record_new 0 (0, 0) 1 10 [] 0 \<in>
       set (select ascii_ucd (\<lambda>_ _. False) durable_view ?q sample_records)"
    by code_simp+
  with best show ?thesis unfolding list_all_iff by blast
qed

text \<open>C9: The constraints handed to the index are implied by a match, and an index lookup that
  enforces them needs only the residual test: a record matches a query exactly when it satisfies
  the required terms and exact fields and passes the test applied to index candidates. When
  the predicate is an index-only conjunction, the predicate itself need not be evaluated.\<close>

theorem index_constraints_exact:
  "(query_matches U rx q v \<longleftrightarrow>
     satisfies_constraints U (required_index_constraints q) v \<and> matches_index_candidate U rx q v) \<and>
   (can_apply_index_limit q \<longrightarrow>
     query_matches U rx q v = satisfies_constraints U (required_index_constraints q) v)"
  using candidate_matches_iff [of U rx q v] index_only_matches_iff [of q U rx v]
  by (auto simp: can_apply_index_limit_def offset_matches_def timestamp_matches_def
        cursor_matches_def is_none_or_def)

theorem index_constraints_exact_witness:
  "query_matches ascii_ucd (\<lambda>_ _. False) (with_term (log_query_new (0, 0)) (lit ''disk''))
     (durable_view (durable_log_record_new 0 (0, 0) 7 9 (lit ''DISK full'') 0)) \<and>
   satisfies_constraints ascii_ucd
     (required_index_constraints (with_term (log_query_new (0, 0)) (lit ''disk'')))
     (durable_view (durable_log_record_new 0 (0, 0) 7 9 (lit ''DISK full'') 0))"
proof -
  let ?q = "with_term (log_query_new (0, 0)) (lit ''disk'')"
  let ?v = "durable_view (durable_log_record_new 0 (0, 0) 7 9 (lit ''DISK full'') 0)"
  have "can_apply_index_limit ?q" by code_simp
  moreover have "query_matches ascii_ucd (\<lambda>_ _. False) ?q ?v" by code_simp
  ultimately show ?thesis using index_constraints_exact by blast
qed

end
