(* ===== verification/Trigram.thy ===== *)
theory Trigram
  imports Query
begin

text \<open>
  The block-level rejection filter for literal message predicates
  (\<^verbatim>\<open>MessageTrigramFilter\<close> in \<^verbatim>\<open>src/query_index.rs\<close>): a bit vector of hashed UTF-8
  byte trigrams of the lowercased messages of a block, and the union and intersection over all
  blocks of a directory.
\<close>

section \<open>Slots\<close>

abbreviation MESSAGE_TRIGRAM_FILTER_BITS :: nat where
  "MESSAGE_TRIGRAM_FILTER_BITS \<equiv> 65536"

abbreviation MESSAGE_TRIGRAM_FILTER_WORDS :: nat where
  "MESSAGE_TRIGRAM_FILTER_WORDS \<equiv> 1024"

abbreviation MESSAGE_TRIGRAM_FILTER_BYTES :: nat where
  "MESSAGE_TRIGRAM_FILTER_BYTES \<equiv> 8192"

definition xorshift_right :: "nat \<Rightarrow> u32 \<Rightarrow> u32" where
  "xorshift_right n h = h XOR drop_bit n h"

definition message_trigram_slot :: "u8 \<Rightarrow> u8 \<Rightarrow> u8 \<Rightarrow> nat" where
  "message_trigram_slot a b c =
     (let h = ucast a OR push_bit 8 (ucast b) OR push_bit 16 (ucast c) :: u32;
          h = xorshift_right 16 h;
          h = h * 0x7feb352d;
          h = xorshift_right 15 h;
          h = h * 0x846ca68b;
          h = xorshift_right 16 h
      in unat h mod MESSAGE_TRIGRAM_FILTER_BITS)"

definition lower_byte :: "u8 \<Rightarrow> u8" where
  "lower_byte b = of_nat (to_ascii_lowercase (unat b))"

definition window_slot :: "bytes \<Rightarrow> nat" where
  "window_slot w = message_trigram_slot (w ! 0) (w ! 1) (w ! 2)"

text \<open>\<^verbatim>\<open>visit_normalized_trigrams\<close>, as the list of the slots it visits.\<close>

definition visit_normalized_trigrams :: "ucd \<Rightarrow> rstr \<Rightarrow> nat list" where
  "visit_normalized_trigrams U msg =
     (if is_ascii msg
      then map (\<lambda>w. message_trigram_slot (lower_byte (w ! 0)) (lower_byte (w ! 1)) (lower_byte (w ! 2)))
             (windows 3 (str_bytes msg))
      else map window_slot (windows 3 (str_bytes (to_lowercase U msg))))"

definition required_message_trigram_slots :: "ucd \<Rightarrow> rstr list \<Rightarrow> nat list" where
  "required_message_trigram_slots U literals =
     remdups_adj (sort (concat (map (visit_normalized_trigrams U) literals)))"

section \<open>Filters\<close>

type_synonym trigram_filter = "u64 list"

definition trigram_filter_new :: trigram_filter where
  "trigram_filter_new = replicate MESSAGE_TRIGRAM_FILTER_WORDS 0"

definition filter_set :: "trigram_filter \<Rightarrow> nat \<Rightarrow> trigram_filter" where
  "filter_set ws slot = ws[slot div 64 := ws ! (slot div 64) OR push_bit (slot mod 64) 1]"

definition filter_get :: "u64 list \<Rightarrow> nat \<Rightarrow> bool" where
  "filter_get ws slot \<longleftrightarrow> ws ! (slot div 64) AND push_bit (slot mod 64) 1 \<noteq> 0"

definition insert_message :: "ucd \<Rightarrow> trigram_filter \<Rightarrow> rstr \<Rightarrow> trigram_filter" where
  "insert_message U ws msg = foldl filter_set ws (visit_normalized_trigrams U msg)"

definition might_contain_all :: "trigram_filter \<Rightarrow> nat list \<Rightarrow> bool" where
  "might_contain_all ws slots = list_all (filter_get ws) slots"

definition filter_from_bytes :: "bytes \<Rightarrow> trigram_filter log_db_result" where
  "filter_from_bytes bs =
     (if length bs \<noteq> MESSAGE_TRIGRAM_FILTER_BYTES
      then Inl (InvalidBlockEncoding ''invalid message trigram filter length'')
      else Inr (map le_word (chunks_exact 8 bs)))"

definition filter_bytes :: "u64 list \<Rightarrow> bytes" where
  "filter_bytes ws = concat (map (le_bytes 8) ws)"

definition aggregate_message_trigrams :: "u64 list \<Rightarrow> trigram_filter \<times> trigram_filter" where
  "aggregate_message_trigrams words =
     (if words = [] then (trigram_filter_new, replicate MESSAGE_TRIGRAM_FILTER_WORDS 0)
      else foldl (\<lambda>(u, i) observed. (map2 (OR) u observed, map2 (AND) i observed))
             (trigram_filter_new, replicate MESSAGE_TRIGRAM_FILTER_WORDS (- 1))
             (chunks_exact MESSAGE_TRIGRAM_FILTER_WORDS words))"

section \<open>Slots of lowercase text\<close>

lemma message_trigram_slot_less: "message_trigram_slot a b c < MESSAGE_TRIGRAM_FILTER_BITS"
  by (simp add: message_trigram_slot_def Let_def)

lemma ascii_str_bytes: "is_ascii s \<Longrightarrow> str_bytes s = map of_nat s"
  by (induction s) (simp_all add: str_bytes_def is_ascii_def utf8_char_def utf8_codes_def)

lemma windows_map: "windows n (map f xs) = map (map f) (windows n xs)"
  by (simp add: windows_def take_map drop_map comp_def)

lemma ascii_lower: "is_ascii s \<Longrightarrow> is_ascii (map to_ascii_lowercase s)"
  by (auto simp: is_ascii_def list_all_iff to_ascii_lowercase_def)

lemma lower_byte_of_nat: "c < 128 \<Longrightarrow> lower_byte (of_nat c) = of_nat (to_ascii_lowercase c)"
  by (simp add: lower_byte_def unat_of_nat)

text \<open>On ASCII text the byte-wise path visits the slots of the lowercased text as well.\<close>

lemma visit_lower:
  "visit_normalized_trigrams U msg = map window_slot (windows 3 (str_bytes (to_lowercase U msg)))"
proof (cases "is_ascii msg")
  case True
  have "str_bytes (to_lowercase U msg) = map lower_byte (str_bytes msg)"
    using True ascii_lower [OF True]
    by (auto simp: to_lowercase_ascii ascii_str_bytes lower_byte_of_nat is_ascii_def list_all_iff)
  moreover have "length w = 3" if "w \<in> set (windows 3 (str_bytes msg))" for w
    using that by (simp add: set_windows)
  ultimately show ?thesis using True
    by (auto simp: visit_normalized_trigrams_def windows_map window_slot_def)
qed (simp add: visit_normalized_trigrams_def)

lemma visit_sublist:
  assumes "sublist (to_lowercase U l) (to_lowercase U msg)"
  shows "set (visit_normalized_trigrams U l) \<subseteq> set (visit_normalized_trigrams U msg)"
proof -
  have "sublist (str_bytes (to_lowercase U l)) (str_bytes (to_lowercase U msg))"
    using assms by (rule sublist_str_bytes)
  then show ?thesis
    unfolding visit_lower by (auto simp: set_windows intro: sublist_order.order_trans)
qed

lemma lower_from_append_no_sigma:
  "capital_sigma \<notin> set l \<Longrightarrow>
   \<exists>p s. lower_from U bef (a @ l @ b) = p @ concat (map (char_to_lower U) l) @ s"
proof (induction a arbitrary: bef)
  case Nil
  have "lower_from U bef (l @ b) =
      concat (map (char_to_lower U) l) @ lower_from U (rev l @ bef) b" for bef
    using Nil by (induction l arbitrary: bef) auto
  then show ?case by (metis append_Nil)
next
  case (Cons c a)
  then obtain p s where "lower_from U (c # bef) (a @ l @ b) =
      p @ concat (map (char_to_lower U) l) @ s" by blast
  then show ?case by (metis append_Cons append_assoc lower_from.simps(2))
qed

lemma sublist_lower_no_sigma:
  assumes "sublist l msg" "capital_sigma \<notin> set l"
  shows "sublist (to_lowercase U l) (to_lowercase U msg)"
proof -
  obtain a b where "msg = a @ l @ b" using assms(1) by (auto simp: sublist_def)
  then obtain p s where "to_lowercase U msg = p @ concat (map (char_to_lower U) l) @ s"
    using lower_from_append_no_sigma [OF assms(2), of U "[]" a b] by (auto simp: to_lowercase_def)
  then show ?thesis using assms(2) by (simp add: to_lowercase_no_sigma)
qed

lemma text_matches_sublist:
  assumes "text_matches U msg m"
  shows "if matcher_case m = Insensitive
    then sublist (to_lowercase U (matcher_value m)) (to_lowercase U msg)
    else sublist (matcher_value m) msg"
proof (cases "matcher_case m = Insensitive")
  case True
  show ?thesis
  proof (cases "matcher_value m = []")
    case False
    then show ?thesis using assms True
      by (cases "matcher_kind m")
         (auto simp: text_matches_def text_equal_lower text_contains_lower text_prefix_lower
            text_suffix_lower prefix_imp_sublist suffix_imp_sublist)
  qed (simp add: to_lowercase_def)
next
  case False
  then have "matcher_case m = Sensitive" by (cases "matcher_case m") auto
  then show ?thesis using assms
    by (cases "matcher_kind m")
       (auto simp: text_matches_def text_equal_def text_contains_def text_prefix_def text_suffix_def
          str_contains_sublist starts_with_prefix ends_with_suffix
          intro: prefix_imp_sublist suffix_imp_sublist split: if_splits)
qed

lemma matched_slots:
  assumes "text_matches U msg m" "trigram_safe m"
  shows "set (visit_normalized_trigrams U (matcher_value m)) \<subseteq> set (visit_normalized_trigrams U msg)"
proof (rule visit_sublist, cases "matcher_case m = Insensitive")
  case True
  then show "sublist (to_lowercase U (matcher_value m)) (to_lowercase U msg)"
    using text_matches_sublist [OF assms(1)] by simp
next
  case False
  then show "sublist (to_lowercase U (matcher_value m)) (to_lowercase U msg)"
    using text_matches_sublist [OF assms(1)] assms(2)
    by (intro sublist_lower_no_sigma) (simp_all add: trigram_safe_def)
qed

lemma set_required_slots:
  "set (required_message_trigram_slots U ls) = (\<Union>l\<in>set ls. set (visit_normalized_trigrams U l))"
  by (auto simp: required_message_trigram_slots_def)

lemma visit_less: "t \<in> set (visit_normalized_trigrams U msg) \<Longrightarrow> t < MESSAGE_TRIGRAM_FILTER_BITS"
  unfolding visit_lower using message_trigram_slot_less by (auto simp: window_slot_def)

section \<open>Filters as sets of slots\<close>

lemma filter_get_bit: "filter_get ws t \<longleftrightarrow> bit (ws ! (t div 64)) (t mod 64)"
proof -
  let ?w = "ws ! (t div 64)" and ?i = "t mod 64"
  have "bit (?w AND push_bit ?i 1) i \<longleftrightarrow> bit ?w ?i \<and> i = ?i" for i
    by (auto simp: bit_simps)
  then show ?thesis unfolding filter_get_def by (auto simp: bit_eq_iff [of _ "0 :: u64"])
qed

lemma length_filter_set [simp]: "length (filter_set ws t) = length ws"
  by (simp add: filter_set_def)

lemma filter_get_set:
  assumes "s div 64 < length ws"
  shows "filter_get (filter_set ws s) t \<longleftrightarrow> filter_get ws t \<or> s = t"
proof (cases "s div 64 = t div 64")
  case True
  then have "s = t \<longleftrightarrow> s mod 64 = t mod 64" by (metis div_mod_decomp)
  then show ?thesis using True assms
    by (auto simp: filter_get_bit filter_set_def bit_simps)
next
  case False
  then show ?thesis by (auto simp: filter_get_bit filter_set_def)
qed

lemma filter_fold:
  assumes "\<forall>s\<in>set slots. s div 64 < length ws"
  shows "length (foldl filter_set ws slots) = length ws \<and>
    (filter_get (foldl filter_set ws slots) t \<longleftrightarrow> filter_get ws t \<or> t \<in> set slots)"
  using assms by (induction slots arbitrary: ws) (auto simp: filter_get_set)

lemma insert_message_get:
  assumes "length ws = MESSAGE_TRIGRAM_FILTER_WORDS"
  shows "length (insert_message U ws msg) = MESSAGE_TRIGRAM_FILTER_WORDS"
    and "filter_get (insert_message U ws msg) t \<longleftrightarrow>
      filter_get ws t \<or> t \<in> set (visit_normalized_trigrams U msg)"
proof -
  have "s div 64 < length ws" if "s \<in> set (visit_normalized_trigrams U msg)" for s
    using visit_less [OF that] assms by simp
  then show "length (insert_message U ws msg) = MESSAGE_TRIGRAM_FILTER_WORDS"
    and "filter_get (insert_message U ws msg) t \<longleftrightarrow>
      filter_get ws t \<or> t \<in> set (visit_normalized_trigrams U msg)"
    using filter_fold [of "visit_normalized_trigrams U msg" ws t] assms
    by (auto simp: insert_message_def)
qed

lemma filter_new: "length trigram_filter_new = MESSAGE_TRIGRAM_FILTER_WORDS"
  "t < MESSAGE_TRIGRAM_FILTER_BITS \<Longrightarrow> \<not> filter_get trigram_filter_new t"
  by (simp_all add: trigram_filter_new_def filter_get_bit)

lemma nth_concat_equal:
  assumes "\<forall>xs\<in>set xss. length xs = n" "k < length xss" "j < n"
  shows "concat xss ! (k * n + j) = xss ! k ! j"
  using assms
proof (induction xss arbitrary: k)
  case (Cons xs xss)
  then show ?case by (cases k) (auto simp: nth_append)
qed simp

lemma aggregate_fold:
  assumes "\<forall>f\<in>set fs. length f = n" "length u = n" "length i = n" "t div 64 < n"
    and "(u', i') = foldl (\<lambda>(u, i) observed. (map2 (OR) u observed, map2 (AND) i observed)) (u, i) fs"
  shows "length u' = n \<and> length i' = n \<and>
    (filter_get u' t \<longleftrightarrow> filter_get u t \<or> (\<exists>f\<in>set fs. filter_get f t)) \<and>
    (filter_get i' t \<longleftrightarrow> filter_get i t \<and> (\<forall>f\<in>set fs. filter_get f t))"
  using assms
proof (induction fs arbitrary: u i)
  case (Cons f fs)
  have "length u' = n \<and> length i' = n \<and>
    (filter_get u' t \<longleftrightarrow> filter_get (map2 (OR) u f) t \<or> (\<exists>f\<in>set fs. filter_get f t)) \<and>
    (filter_get i' t \<longleftrightarrow> filter_get (map2 (AND) i f) t \<and> (\<forall>f\<in>set fs. filter_get f t))"
    by (rule Cons.IH) (use Cons.prems in simp_all)
  then show ?case using Cons.prems by (auto simp: filter_get_bit bit_simps)
qed simp

lemma aggregate_get:
  assumes "\<forall>f\<in>set fs. length f = MESSAGE_TRIGRAM_FILTER_WORDS" "t < MESSAGE_TRIGRAM_FILTER_BITS"
    and "(u, i) = aggregate_message_trigrams (concat fs)"
  shows "(filter_get u t \<longleftrightarrow> (\<exists>f\<in>set fs. filter_get f t)) \<and>
    (filter_get i t \<longrightarrow> (\<forall>f\<in>set fs. filter_get f t))"
proof (cases "fs = []")
  case True
  then show ?thesis using assms filter_new(2) [OF assms(2)] by (simp add: aggregate_message_trigrams_def)
next
  case False
  then have ne: "concat fs \<noteq> []" using assms(1) by (cases fs) auto
  have chunks: "chunks_exact MESSAGE_TRIGRAM_FILTER_WORDS (concat fs) = fs"
    using assms(1) by (intro chunks_exact_concat) auto
  have agg: "(u, i) = foldl (\<lambda>(u, i) observed. (map2 (OR) u observed, map2 (AND) i observed))
      (trigram_filter_new, replicate MESSAGE_TRIGRAM_FILTER_WORDS (- 1)) fs"
    using assms(3) unfolding aggregate_message_trigrams_def chunks if_not_P [OF ne] .
  have "t div 64 < MESSAGE_TRIGRAM_FILTER_WORDS" using assms(2) by simp
  from aggregate_fold [OF assms(1) filter_new(1) length_replicate this agg]
  show ?thesis using filter_new(2) [OF assms(2)] by simp
qed

lemma filter_bytes_round_trip:
  assumes "length ws = MESSAGE_TRIGRAM_FILTER_WORDS"
  shows "filter_from_bytes (filter_bytes ws) = Inr ws" "length (filter_bytes ws) = MESSAGE_TRIGRAM_FILTER_BYTES"
proof -
  have "chunks_exact 8 (filter_bytes ws) = map (le_bytes 8) ws"
    unfolding filter_bytes_def by (rule chunks_exact_concat) auto
  then have "map le_word (chunks_exact 8 (filter_bytes ws)) = ws" by (simp add: comp_def)
  moreover show len: "length (filter_bytes ws) = MESSAGE_TRIGRAM_FILTER_BYTES"
    using assms by (simp add: filter_bytes_def length_concat comp_def sum_list_triv)
  ultimately show "filter_from_bytes (filter_bytes ws) = Inr ws" by (simp add: filter_from_bytes_def)
qed

section \<open>Rejection is sound\<close>

text \<open>C7: The trigram filter has no false negatives for safe literals: a filter into which a
  message was inserted admits every literal that the message matches, in every text mode and case
  policy, unless a case-sensitive literal holds a capital sigma.\<close>

theorem trigram_filter_sound:
  assumes "text_matches U msg m" "trigram_safe m" "length ws = MESSAGE_TRIGRAM_FILTER_WORDS"
  shows "might_contain_all (insert_message U ws msg) (required_message_trigram_slots U [matcher_value m])"
  using matched_slots [OF assms(1,2)]
  by (auto simp: might_contain_all_def list_all_iff set_required_slots insert_message_get [OF assms(3)])

theorem trigram_filter_sound_witness:
  "might_contain_all
     (insert_message ascii_ucd trigram_filter_new [87, 111, 114, 107, 101, 114])
     (required_message_trigram_slots ascii_ucd [[111, 82, 75]])"
  by (rule trigram_filter_sound [of ascii_ucd "[87, 111, 114, 107, 101, 114]"
        "\<lparr>matcher_value = [111, 82, 75], matcher_kind = Contains, matcher_case = Insensitive\<rparr>", simplified])
     (code_simp, simp_all add: trigram_safe_def filter_new)

text \<open>
  The restriction of the filter's soundness is needed: the message of alpha, sigma, alpha contains the
  literal of alpha and sigma, but the sigma that ends the literal is normalized to its final form
  and the one inside the message is not, so that the block is rejected.
\<close>

lemma sigma_literal_rejected:
  "text_matches sample_ucd [0x391, 0x3A3, 0x391]
     \<lparr>matcher_value = [0x391, 0x3A3], matcher_kind = Contains, matcher_case = Sensitive\<rparr> \<and>
   \<not> might_contain_all (insert_message sample_ucd trigram_filter_new [0x391, 0x3A3, 0x391])
       (required_message_trigram_slots sample_ucd [[0x391, 0x3A3]])"
proof -
  have m: "set (visit_normalized_trigrams sample_ucd [0x391, 0x3A3, 0x391]) =
      {window_slot [0xCE, 0xB1, 0xCF], window_slot [0xB1, 0xCF, 0x83], window_slot [0xCF, 0x83, 0xCE],
       window_slot [0x83, 0xCE, 0xB1]}"
    unfolding visit_lower by (simp add: to_lowercase_def sample_ucd_def case_ignorable_then_cased_def
        char_to_lower_def str_bytes_def utf8_char_def utf8_codes_def windows_def upt_rec)
  have l: "window_slot [0xB1, 0xCF, 0x82] \<in> set (visit_normalized_trigrams sample_ucd [0x391, 0x3A3])"
    unfolding visit_lower by (simp add: to_lowercase_def sample_ucd_def case_ignorable_then_cased_def
        char_to_lower_def str_bytes_def utf8_char_def utf8_codes_def windows_def upt_rec)
  have "window_slot [0xB1, 0xCF, 0x82] \<notin> set (visit_normalized_trigrams sample_ucd [0x391, 0x3A3, 0x391])"
    unfolding m by (simp add: window_slot_def message_trigram_slot_def xorshift_right_def Let_def)
  then have "\<not> filter_get (insert_message sample_ucd trigram_filter_new [0x391, 0x3A3, 0x391])
      (window_slot [0xB1, 0xCF, 0x82])"
    using filter_new visit_less [OF l] by (simp add: insert_message_get)
  then show ?thesis
    using l by (auto simp: might_contain_all_def list_all_iff set_required_slots text_matches_def text_contains_def)
qed

end
