(* ===== verification/Postings.thy ===== *)
theory Postings
  imports Rust_Str
begin

text \<open>
  Posting lists of the sealed-block query index (\<^verbatim>\<open>src/query_index.rs\<close>): ascending
  record ordinals kept either as a vector or as runs, the merges that intersect them with a
  candidate vector, and their variable-length byte encoding.

  The merges work in place: they read the candidate vector at one index and write the survivors
  to a smaller one. The model keeps these indices and the updated vector.
\<close>

section \<open>Posting lists\<close>

record ordinal_run =
  run_start :: u32
  run_length :: u32

datatype posting_list = Ordinals "u32 list" | Runs "ordinal_run list" nat

definition saturating_mul :: "nat \<Rightarrow> nat \<Rightarrow> nat" where
  "saturating_mul a b = min (a * b) usize_max"

text \<open>\<^verbatim>\<open>run.start..run.start + run.length\<close>\<close>

definition run_ordinals :: "ordinal_run \<Rightarrow> u32 list" where
  "run_ordinals r = word_range (run_start r) (run_start r + run_length r)"

definition run_push :: "ordinal_run list \<Rightarrow> u32 \<Rightarrow> ordinal_run list" where
  "run_push rs x =
     (if rs \<noteq> [] \<and> saturating_add (run_start (last rs)) (run_length (last rs)) = x
      then butlast rs @ [last rs\<lparr>run_length := saturating_add (run_length (last rs)) 1\<rparr>]
      else rs @ [\<lparr>run_start = x, run_length = 1\<rparr>])"

definition posting_runs :: "u32 list \<Rightarrow> ordinal_run list" where
  "posting_runs xs = foldl run_push [] xs"

definition from_ordinals :: "u32 list \<Rightarrow> posting_list log_db_result" where
  "from_ordinals xs =
     (if xs = [] then Inl (InvalidBlockEncoding ''empty query posting'')
      else if list_ex (\<lambda>p. p ! 0 \<ge> p ! 1) (windows 2 xs)
      then Inl (InvalidBlockEncoding ''query posting is not ordered'')
      else let runs = posting_runs xs in
        if saturating_mul (length runs) 2 < length xs then Inr (Runs runs (length xs))
        else Inr (Ordinals xs))"

fun cardinality :: "posting_list \<Rightarrow> nat" where
  "cardinality (Ordinals xs) = length xs"
| "cardinality (Runs rs n) = n"

fun to_vec :: "posting_list \<Rightarrow> u32 list" where
  "to_vec (Ordinals xs) = xs"
| "to_vec (Runs rs n) = concat (map run_ordinals rs)"

text \<open>
  The loops that push until a limit is reached. The test follows the push, so that a limit
  of zero never stops them.
\<close>

fun observe_limited :: "('a \<Rightarrow> bool) \<Rightarrow> nat \<Rightarrow> 'a list \<Rightarrow> 'a list \<Rightarrow> 'a list" where
  "observe_limited p limit acc [] = acc"
| "observe_limited p limit acc (x # xs) =
     (let acc = (if p x then acc @ [x] else acc) in
      if length acc = limit then acc else observe_limited p limit acc xs)"

fun take_ordered :: "posting_list \<Rightarrow> bool \<Rightarrow> nat \<Rightarrow> u32 list" where
  "take_ordered (Ordinals xs) newest_first limit =
     (let n = min limit (length xs) in
      if newest_first then rev (drop (length xs - n) xs) else take n xs)"
| "take_ordered (Runs rs n) newest_first limit =
     observe_limited (\<lambda>_. True) limit []
       (if newest_first then concat (map (\<lambda>r. rev (run_ordinals r)) (rev rs))
        else concat (map run_ordinals rs))"

fun posting_contains :: "posting_list \<Rightarrow> u32 \<Rightarrow> bool" where
  "posting_contains (Ordinals xs) x = (case binary_search_by_key id x xs of Inl _ \<Rightarrow> False | Inr _ \<Rightarrow> True)"
| "posting_contains (Runs rs n) x =
     (let position = partition_point (\<lambda>r. run_start r \<le> x) rs in
      0 < position \<and>
      x < saturating_add (run_start (rs ! (position - 1))) (run_length (rs ! (position - 1))))"

section \<open>Intersections\<close>

function intersect_loop :: "('b \<Rightarrow> u32) \<Rightarrow> u32 list \<Rightarrow> 'b list \<Rightarrow> nat \<Rightarrow> nat \<Rightarrow> nat \<Rightarrow> u32 list" where
  "intersect_loop key cs ps ci pi wi =
     (if ci < length cs \<and> pi < length ps
      then case cmp (cs ! ci) (key (ps ! pi)) of
             Less \<Rightarrow> intersect_loop key cs ps (ci + 1) pi wi
           | Greater \<Rightarrow> intersect_loop key cs ps ci (pi + 1) wi
           | Equal \<Rightarrow> intersect_loop key (cs[wi := cs ! ci]) ps (ci + 1) (pi + 1) (wi + 1)
      else take wi cs)"
  by pat_completeness auto
termination
  by (relation "measure (\<lambda>(_, cs, ps, ci, pi, _). (length cs - ci) + (length ps - pi))") auto

declare intersect_loop.simps [simp del]

record block_posting =
  bp_block_ordinal :: u32
  bp_record_ordinals :: posting_list

definition posting_for_block :: "block_posting list \<Rightarrow> u32 \<Rightarrow> posting_list option" where
  "posting_for_block ps b = map_option bp_record_ordinals (find_by_key bp_block_ordinal b ps)"

definition intersect_block_ordinals :: "u32 list \<Rightarrow> block_posting list \<Rightarrow> u32 list" where
  "intersect_block_ordinals cs ps = intersect_loop bp_block_ordinal cs ps 0 0 0"

text \<open>The galloping loop, for a candidate vector much shorter than the posting.\<close>

function gallop_loop :: "u32 list \<Rightarrow> u32 list \<Rightarrow> nat \<Rightarrow> nat \<Rightarrow> nat \<Rightarrow> u32 list" where
  "gallop_loop cs ps ci pi wi =
     (if ci < length cs
      then let c = cs ! ci;
               pi = pi + partition_point (\<lambda>p. p < c) (drop pi ps) in
           if pi < length ps
           then if ps ! pi = c then gallop_loop (cs[wi := c]) ps (ci + 1) (pi + 1) (wi + 1)
                else gallop_loop cs ps (ci + 1) pi wi
           else take wi cs
      else take wi cs)"
  by pat_completeness auto
termination by (relation "measure (\<lambda>(cs, _, ci, _, _). length cs - ci)") (auto simp: Let_def)

declare gallop_loop.simps [simp del]

definition intersect_u32 :: "u32 list \<Rightarrow> u32 list \<Rightarrow> u32 list" where
  "intersect_u32 cs ps =
     (if saturating_mul (length cs) 8 < length ps then gallop_loop cs ps 0 0 0
      else intersect_loop id cs ps 0 0 0)"

function intersect_runs_loop :: "u32 list \<Rightarrow> ordinal_run list \<Rightarrow> nat \<Rightarrow> nat \<Rightarrow> nat \<Rightarrow> u32 list" where
  "intersect_runs_loop cs rs ci ri wi =
     (if ci < length cs \<and> ri < length rs
      then let c = cs ! ci; r = rs ! ri; run_end = run_start r + run_length r in
           if c < run_start r then intersect_runs_loop cs rs (ci + 1) ri wi
           else if c \<ge> run_end then intersect_runs_loop cs rs ci (ri + 1) wi
           else intersect_runs_loop (cs[wi := c]) rs (ci + 1) ri (wi + 1)
      else take wi cs)"
  by pat_completeness auto
termination
  by (relation "measure (\<lambda>(cs, rs, ci, ri, _). (length cs - ci) + (length rs - ri))")
     (auto simp: Let_def)

declare intersect_runs_loop.simps [simp del]

text \<open>Intersecting a vector with each posting in turn, stopping once it is empty.\<close>

fun intersect_all :: "(u32 list \<Rightarrow> 'p \<Rightarrow> u32 list) \<Rightarrow> u32 list \<Rightarrow> 'p list \<Rightarrow> u32 list" where
  "intersect_all keep cs [] = cs"
| "intersect_all keep cs (p # ps) =
     (let cs = keep cs p in if cs = [] then [] else intersect_all keep cs ps)"

fun intersect_posting :: "u32 list \<Rightarrow> posting_list \<Rightarrow> u32 list" where
  "intersect_posting cs (Ordinals ps) = intersect_u32 cs ps"
| "intersect_posting cs (Runs rs n) = intersect_runs_loop cs rs 0 0 0"

text \<open>
  The argument \<open>first\<close> is \<^verbatim>\<open>postings[0]\<close>, the list \<open>rest\<close> is \<^verbatim>\<open>postings[1..]\<close>.
\<close>

definition intersect_postings_limited ::
  "posting_list \<Rightarrow> posting_list list \<Rightarrow> bool \<Rightarrow> nat \<Rightarrow> u32 list" where
  "intersect_postings_limited first rest newest_first limit =
     observe_limited (\<lambda>x. list_all (\<lambda>p. posting_contains p x) rest) limit []
       (case first of
          Ordinals xs \<Rightarrow> if newest_first then rev xs else xs
        | Runs rs _ \<Rightarrow>
            if newest_first then concat (map (\<lambda>r. rev (run_ordinals r)) (rev rs))
            else concat (map run_ordinals rs))"

section \<open>Well-formed postings\<close>

abbreviation ascending :: "u32 list \<Rightarrow> bool" where
  "ascending \<equiv> sorted_wrt (<)"

lemma ascending_unique: "ascending xs \<Longrightarrow> ascending ys \<Longrightarrow> set xs = set ys \<Longrightarrow> xs = ys"
  by (rule sorted_wrt_asym_unique [of "(<)"]) auto

definition run_end :: "ordinal_run \<Rightarrow> nat" where
  "run_end r = unat (run_start r) + unat (run_length r)"

definition runs_ok :: "ordinal_run list \<Rightarrow> bool" where
  "runs_ok rs \<longleftrightarrow>
     (\<forall>r\<in>set rs. 0 < run_length r \<and> run_end r < 2 ^ 32) \<and>
     sorted_wrt (\<lambda>r s. run_end r \<le> unat (run_start s)) rs"

fun posting_ok :: "posting_list \<Rightarrow> bool" where
  "posting_ok (Ordinals xs) = ascending xs"
| "posting_ok (Runs rs n) = (runs_ok rs \<and> n = length (concat (map run_ordinals rs)))"

lemma unat_run_end: "run_end r < 2 ^ 32 \<Longrightarrow> unat (run_start r + run_length r) = run_end r"
  by (simp add: run_end_def unat_word_ariths)

lemma set_run_ordinals:
  "run_end r < 2 ^ 32 \<Longrightarrow> set (run_ordinals r) = {x. run_start r \<le> x \<and> unat x < run_end r}"
  by (auto simp: run_ordinals_def word_less_nat_alt unat_run_end)

lemma unat_sat_run_end:
  assumes "run_end r < 2 ^ 32"
  shows "unat (saturating_add (run_start r) (run_length r)) = run_end r"
  using assms by (simp add: unat_saturating_add run_end_def)

lemma runs_ok_Cons:
  "runs_ok (r # rs) \<longleftrightarrow>
   0 < run_length r \<and> run_end r < 2 ^ 32 \<and> (\<forall>s\<in>set rs. run_end r \<le> unat (run_start s)) \<and> runs_ok rs"
  by (auto simp: runs_ok_def)

lemma runs_ok_snoc:
  "runs_ok (rs @ [r]) \<longleftrightarrow>
   runs_ok rs \<and> 0 < run_length r \<and> run_end r < 2 ^ 32 \<and> (\<forall>s\<in>set rs. run_end s \<le> unat (run_start r))"
  by (auto simp: runs_ok_def sorted_wrt_append)

lemma ascending_runs: "runs_ok rs \<Longrightarrow> ascending (concat (map run_ordinals rs))"
proof (induction rs)
  case (Cons r rs)
  have "x < y" if "x \<in> set (run_ordinals r)" "s \<in> set rs" "y \<in> set (run_ordinals s)" for x y s
  proof -
    have s: "run_end s < 2 ^ 32" "run_end r \<le> unat (run_start s)"
      using that(2) Cons.prems by (auto simp: runs_ok_def)
    have "run_end r < 2 ^ 32" using Cons.prems by (simp add: runs_ok_Cons)
    with that(1) have "unat x < run_end r" by (simp add: set_run_ordinals)
    moreover have "run_start s \<le> y" using that(3) s by (simp add: set_run_ordinals)
    ultimately show ?thesis using s(2) by (simp add: word_less_nat_alt word_le_nat_alt)
  qed
  moreover have "ascending (run_ordinals r)" by (simp add: run_ordinals_def sorted_word_range)
  ultimately show ?case using Cons by (auto simp: sorted_wrt_append runs_ok_Cons)
qed simp

lemma ascending_to_vec: "posting_ok p \<Longrightarrow> ascending (to_vec p)"
  by (cases p) (simp_all add: ascending_runs)

lemma cardinality_to_vec: "posting_ok p \<Longrightarrow> cardinality p = length (to_vec p)"
  by (cases p) simp_all

lemma u32_less_max: "(x :: u32) < - 1 \<longleftrightarrow> unat x < 2 ^ 32 - 1"
  by (simp add: word_less_nat_alt unsigned_minus_1_eq_mask mask_eq_exp_minus_1)

lemma run_ordinals_single [simp]:
  assumes "x < - 1"
  shows "run_ordinals \<lparr>run_start = x, run_length = 1\<rparr> = [x]"
proof -
  have "unat (x + 1) = Suc (unat x)" using assms by (simp add: u32_less_max unat_word_ariths)
  then show ?thesis by (simp add: run_ordinals_def word_range_def)
qed

lemma run_ordinals_grow:
  assumes "run_end r < 2 ^ 32 - 1" "x = run_start r + run_length r"
  shows "run_ordinals (r\<lparr>run_length := run_length r + 1\<rparr>) = run_ordinals r @ [x]"
proof -
  have "unat (run_length r) < 2 ^ 32 - 1" using assms(1) by (simp add: run_end_def)
  then have len: "unat (run_length r + 1) = Suc (unat (run_length r))"
    by (simp add: unat_word_ariths)
  have x: "unat x = run_end r" using assms by (simp add: unat_run_end)
  have "unat (run_start r + (run_length r + 1)) = Suc (unat x)"
    using assms(1) len x by (simp add: unat_word_ariths run_end_def)
  moreover have "unat (run_start r) \<le> unat x" using x by (simp add: run_end_def)
  moreover have "of_nat (unat x) = x" by simp
  ultimately show ?thesis using assms(2)
    by (simp add: run_ordinals_def word_range_def)
qed

lemma run_push_ok:
  assumes "runs_ok rs" "\<forall>y\<in>set (concat (map run_ordinals rs)). y < x" "x < - 1"
  shows "runs_ok (run_push rs x) \<and>
    concat (map run_ordinals (run_push rs x)) = concat (map run_ordinals rs) @ [x]"
proof -
  have x: "unat x < 2 ^ 32 - 1" using assms(3) by (simp only: u32_less_max)
  show ?thesis
  proof (cases rs rule: rev_cases)
    case Nil
    then show ?thesis using assms(3) x by (auto simp: run_push_def runs_ok_def run_end_def)
  next
    case (snoc qs r)
    have ok: "runs_ok qs" "0 < run_length r" "run_end r < 2 ^ 32"
      "\<forall>s\<in>set qs. run_end s \<le> unat (run_start r)"
      using assms(1) snoc by (auto simp: runs_ok_snoc)
    have last: "run_end r \<le> unat x"
    proof -
      define n where "n = run_end r - 1"
      have len: "0 < unat (run_length r)" using ok(2) by (simp add: word_less_nat_alt)
      have n: "unat (of_nat n :: u32) = n" using ok(3) by (simp add: n_def unat_of_nat)
      have "of_nat n \<in> set (run_ordinals r)"
        using ok(3) len n by (simp add: set_run_ordinals word_le_nat_alt) (simp add: n_def run_end_def)
      then have "of_nat n < x" using assms(2) snoc by simp
      then show ?thesis using n by (simp add: word_less_nat_alt n_def)
    qed
    show ?thesis
    proof (cases "saturating_add (run_start r) (run_length r) = x")
      case True
      then have e: "run_end r = unat x" using unat_sat_run_end [OF ok(3)] by simp
      then have "x = run_start r + run_length r"
        using ok(3) by (simp add: word_unat_eq_iff unat_run_end)
      moreover have "unat (run_length r) < 2 ^ 32 - 1" using e x by (simp add: run_end_def)
      then have sat: "saturating_add (run_length r) 1 = run_length r + 1"
        "unat (run_length r + 1) = Suc (unat (run_length r))"
        by (simp_all add: saturating_add_def unat_word_ariths)
      ultimately show ?thesis
        using True e x ok snoc run_ordinals_grow [of r x]
        by (auto simp: run_push_def runs_ok_snoc run_end_def word_less_nat_alt)
    next
      case False
      have "run_end s \<le> unat x" if "s \<in> set qs" for s
        using that ok(4) last by (auto simp: run_end_def)
      then show ?thesis
        using False assms(1,3) last x snoc
        by (auto simp: run_push_def runs_ok_snoc [of "qs @ [r]", simplified] run_end_def)
    qed
  qed
qed

lemma posting_runs_ok:
  assumes "ascending xs" "\<forall>x\<in>set xs. x < - 1"
  shows "runs_ok (posting_runs xs) \<and> concat (map run_ordinals (posting_runs xs)) = xs"
  using assms
proof (induction xs rule: rev_induct)
  case Nil
  then show ?case by (simp add: posting_runs_def runs_ok_def)
next
  case (snoc x xs)
  then have "runs_ok (posting_runs xs)" "concat (map run_ordinals (posting_runs xs)) = xs"
    by (simp_all add: sorted_wrt_append)
  moreover from this snoc.prems have "runs_ok (run_push (posting_runs xs) x) \<and>
      concat (map run_ordinals (run_push (posting_runs xs) x)) = xs @ [x]"
    using run_push_ok [of "posting_runs xs" x] by (simp add: sorted_wrt_append)
  ultimately show ?case by (simp add: posting_runs_def)
qed

lemma windows_ordered: "\<not> list_ex (\<lambda>p. p ! 0 \<ge> p ! 1) (windows 2 xs) \<longleftrightarrow> ascending xs"
proof -
  have "take 2 (drop i xs) ! 0 = xs ! i \<and> take 2 (drop i xs) ! 1 = xs ! Suc i"
    if "Suc i < length xs" for i
    using that by simp
  moreover have "Suc i < length xs \<longleftrightarrow> i < length xs - 1" for i by auto
  moreover have "transp ((<) :: u32 \<Rightarrow> u32 \<Rightarrow> bool)" by (rule transp_on_less)
  ultimately show ?thesis
    by (auto simp: windows_def list_ex_iff sorted_wrt_iff_nth_Suc_transp not_le)
qed

lemma from_ordinals_ok:
  assumes "from_ordinals xs = Inr p" "\<forall>x\<in>set xs. x < - 1"
  shows "posting_ok p \<and> to_vec p = xs \<and> xs \<noteq> []"
  using assms posting_runs_ok [of xs] windows_ordered [of xs]
  by (auto simp: from_ordinals_def Let_def split: if_splits)

lemma from_ordinals_total:
  "xs \<noteq> [] \<Longrightarrow> ascending xs \<Longrightarrow> \<exists>p. from_ordinals xs = Inr p"
  using windows_ordered [of xs] by (auto simp: from_ordinals_def Let_def)

lemma posting_contains_iff:
  assumes "posting_ok p"
  shows "posting_contains p x \<longleftrightarrow> x \<in> set (to_vec p)"
proof (cases p)
  case (Ordinals xs)
  then have "sorted_wrt (<) (map id xs)" using assms by simp
  note search = binary_search_by_key_Inr [OF this, of x]
  have "x \<in> set xs \<longleftrightarrow> (\<exists>i. binary_search_by_key id x xs = Inr i)"
    unfolding in_set_conv_nth search by auto
  then show ?thesis using Ordinals by (simp split: sum.splits)
next
  case (Runs rs n)
  then have ok: "runs_ok rs" using assms by simp
  define k where "k = partition_point (\<lambda>r. run_start r \<le> x) rs"
  have "sorted_wrt (\<lambda>r s. run_end r \<le> unat (run_start s)) rs" using ok by (simp add: runs_ok_def)
  then have "sorted_wrt (\<lambda>a b. run_start b \<le> x \<longrightarrow> run_start a \<le> x) rs"
    by (rule sorted_wrt_mono_rel [rotated]) (simp add: run_end_def word_le_nat_alt)
  from partition_point_nth [OF this]
  have k: "k \<le> length rs" "\<And>i. i < length rs \<Longrightarrow> run_start (rs ! i) \<le> x \<longleftrightarrow> i < k"
    by (simp_all add: k_def)
  have fits: "run_end (rs ! i) < 2 ^ 32" if "i < length rs" for i
    using ok that by (simp add: runs_ok_def)
  have order: "run_end (rs ! i) \<le> unat (run_start (rs ! j))" if "i < j" "j < length rs" for i j
    using ok that by (simp add: runs_ok_def sorted_wrt_iff_nth_less)
  have "x \<in> set (run_ordinals (rs ! i)) \<longleftrightarrow> i < k \<and> unat x < run_end (rs ! i)" if "i < length rs" for i
    using that k(2) fits by (simp add: set_run_ordinals)
  moreover have "x \<in> set (to_vec p) \<longleftrightarrow> (\<exists>i<length rs. x \<in> set (run_ordinals (rs ! i)))"
    using Runs by (auto simp: in_set_conv_nth [of _ rs] intro: nth_mem)
  ultimately have "x \<in> set (to_vec p) \<longleftrightarrow> (\<exists>i<length rs. i < k \<and> unat x < run_end (rs ! i))" by auto
  also have "\<dots> \<longleftrightarrow> 0 < k \<and> unat x < run_end (rs ! (k - 1))"
  proof
    assume "\<exists>i<length rs. i < k \<and> unat x < run_end (rs ! i)"
    then obtain i where i: "i < length rs" "i < k" "unat x < run_end (rs ! i)" by blast
    have "i = k - 1"
    proof (rule ccontr)
      assume "i \<noteq> k - 1"
      then have "i < k - 1" "k - 1 < length rs" using i k(1) by auto
      with order [of i "k - 1"] k(2) [of "k - 1"] i show False by (auto simp: word_le_nat_alt)
    qed
    with i show "0 < k \<and> unat x < run_end (rs ! (k - 1))" by auto
  next
    assume "0 < k \<and> unat x < run_end (rs ! (k - 1))"
    with k(1) show "\<exists>i<length rs. i < k \<and> unat x < run_end (rs ! i)"
      by (intro exI [of _ "k - 1"]) auto
  qed
  also have "\<dots> \<longleftrightarrow> posting_contains p x"
  proof (cases "0 < k")
    case True
    then have "run_end (rs ! (k - 1)) < 2 ^ 32" using fits k(1) by simp
    then show ?thesis using True Runs
      by (simp add: Let_def word_less_nat_alt unat_sat_run_end flip: k_def)
  qed (use Runs in \<open>simp flip: k_def\<close>)
  finally show ?thesis by simp
qed

section \<open>Limited iteration\<close>

lemma observe_limited_filter:
  assumes "length acc < limit"
  shows "observe_limited p limit acc xs = take limit (acc @ filter p xs)"
  using assms
proof (induction xs arbitrary: acc)
  case (Cons x xs)
  show ?case
  proof (cases "Suc (length acc) = limit \<and> p x")
    case True
    then show ?thesis by auto
  next
    case False
    then have "length (if p x then acc @ [x] else acc) < limit" using Cons.prems by auto
    with Cons.IH [OF this] False Cons.prems show ?thesis by (auto simp: Let_def take_Cons')
  qed
qed simp

lemma observe_limited_past:
  "limit < length acc \<Longrightarrow> observe_limited p limit acc xs = acc @ filter p xs"
  by (induction xs arbitrary: acc) (auto simp: Let_def)

definition in_order :: "bool \<Rightarrow> 'a list \<Rightarrow> 'a list" where
  "in_order newest_first xs = (if newest_first then rev xs else xs)"

lemma rev_concat_map: "concat (map (\<lambda>r. rev (f r)) (rev rs)) = rev (concat (map f rs))"
  by (simp add: rev_concat rev_map comp_def)

lemma take_ordered_take:
  "0 < limit \<Longrightarrow> take_ordered p newest_first limit = take limit (in_order newest_first (to_vec p))"
  by (cases p)
     (auto simp: in_order_def observe_limited_filter rev_concat_map Let_def take_rev min_def)

lemma intersect_postings_limited_take:
  assumes "0 < limit" "list_all posting_ok rest"
  shows "intersect_postings_limited first rest newest_first limit =
    take limit (in_order newest_first
      (filter (\<lambda>x. list_all (\<lambda>p. x \<in> set (to_vec p)) rest) (to_vec first)))"
proof -
  have "list_all (\<lambda>p. posting_contains p x) rest = list_all (\<lambda>p. x \<in> set (to_vec p)) rest" for x
    using assms(2) by (auto simp: list_all_iff posting_contains_iff)
  then show ?thesis using assms(1)
    by (cases first)
       (simp_all add: intersect_postings_limited_def observe_limited_filter in_order_def
          rev_concat_map rev_filter)
qed

section \<open>The merges keep exactly the common ordinals\<close>

lemma in_place_keep:
  assumes "wi \<le> ci" "ci < length cs"
  shows "take (Suc wi) (cs[wi := c]) = take wi cs @ [c]"
    and "drop (Suc ci) (cs[wi := c]) = drop (Suc ci) cs"
  using assms by (simp_all add: take_Suc_conv_app_nth)

lemma ascending_drop_nth:
  assumes "ascending (drop n xs)" "n < length xs"
  shows "drop n xs = xs ! n # drop (Suc n) xs" "ascending (drop (Suc n) xs)"
    "\<forall>y\<in>set (drop (Suc n) xs). xs ! n < y"
proof -
  show eq: "drop n xs = xs ! n # drop (Suc n) xs" by (rule Cons_nth_drop_Suc [OF assms(2), symmetric])
  then have "ascending (xs ! n # drop (Suc n) xs)" using assms(1) by simp
  then show "ascending (drop (Suc n) xs)" "\<forall>y\<in>set (drop (Suc n) xs). xs ! n < y" by simp_all
qed

lemma intersect_loop_filter:
  assumes "wi \<le> ci" "ascending (drop ci cs)" "ascending (map key (drop pi ps))"
  shows "intersect_loop key cs ps ci pi wi =
    take wi cs @ filter (\<lambda>c. c \<in> key ` set (drop pi ps)) (drop ci cs)"
  using assms
proof (induction key cs ps ci pi wi rule: intersect_loop.induct)
  case (1 key cs ps ci pi wi)
  show ?case
  proof (cases "ci < length cs \<and> pi < length ps")
    case False
    then show ?thesis by (auto simp: intersect_loop.simps [of key cs])
  next
    case True
    note cs = ascending_drop_nth [OF "1.prems"(2) conjunct1 [OF True]]
    have ps: "drop pi ps = ps ! pi # drop (Suc pi) ps"
      using True by (simp add: Cons_nth_drop_Suc)
    have keys: "ascending (map key (drop (Suc pi) ps))"
      "\<forall>k\<in>key ` set (drop (Suc pi) ps). key (ps ! pi) < k"
      using "1.prems"(3) unfolding ps by simp_all
    have step: "intersect_loop key cs ps ci pi wi =
        (case cmp (cs ! ci) (key (ps ! pi)) of
           Less \<Rightarrow> intersect_loop key cs ps (ci + 1) pi wi
         | Greater \<Rightarrow> intersect_loop key cs ps ci (pi + 1) wi
         | Equal \<Rightarrow> intersect_loop key (cs[wi := cs ! ci]) ps (ci + 1) (pi + 1) (wi + 1))"
      using True by (simp add: intersect_loop.simps [of key cs])
    show ?thesis
    proof (cases "cmp (cs ! ci) (key (ps ! pi))")
      case Less
      then have "cs ! ci < key (ps ! pi)" by (simp add: cmp_def split: if_splits)
      then have "cs ! ci \<notin> key ` set (drop pi ps)" using keys(2) unfolding ps by force
      then show ?thesis using "1.IH"(1) [OF True Less] "1.prems" cs(2) Less step
        unfolding cs(1) by simp
    next
      case Greater
      then have "key (ps ! pi) < cs ! ci" by (simp add: cmp_def split: if_splits)
      then have "key (ps ! pi) \<notin> set (drop ci cs)" using cs(3) unfolding cs(1) by force
      then have "filter (\<lambda>c. c \<in> key ` set (drop pi ps)) (drop ci cs) =
          filter (\<lambda>c. c \<in> key ` set (drop (Suc pi) ps)) (drop ci cs)"
        unfolding ps by (intro filter_cong refl) auto
      then show ?thesis using "1.IH"(3) [OF True Greater] "1.prems" keys(1) Greater step by simp
    next
      case Equal
      then have eq: "cs ! ci = key (ps ! pi)" by (simp add: cmp_def split: if_splits)
      have "filter (\<lambda>c. c \<in> key ` set (drop pi ps)) (drop (Suc ci) cs) =
          filter (\<lambda>c. c \<in> key ` set (drop (Suc pi) ps)) (drop (Suc ci) cs)"
        using cs(3) eq unfolding ps by (intro filter_cong refl) auto
      moreover have "cs ! ci \<in> key ` set (drop pi ps)" using eq unfolding ps by simp
      ultimately show ?thesis
        using "1.IH"(2) [OF True Equal] "1.prems"(1) keys(1) cs(2) Equal step True
          in_place_keep [OF "1.prems"(1), of cs]
        unfolding cs(1) by simp
    qed
  qed
qed

lemma gallop_loop_filter:
  assumes "wi \<le> ci" "pi \<le> length ps" "ascending (drop ci cs)" "ascending ps"
  shows "gallop_loop cs ps ci pi wi = take wi cs @ filter (\<lambda>c. c \<in> set (drop pi ps)) (drop ci cs)"
  using assms
proof (induction cs ps ci pi wi rule: gallop_loop.induct)
  case (1 cs ps ci pi wi)
  show ?case
  proof (cases "ci < length cs")
    case False
    then show ?thesis by (simp add: gallop_loop.simps [of cs])
  next
    case True
    note cs = ascending_drop_nth [OF "1.prems"(3) True]
    let ?c = "cs ! ci"
    define k where "k = partition_point (\<lambda>p. p < ?c) (drop pi ps)"
    have asc: "ascending (drop n ps)" for n using "1.prems"(4) by (rule sorted_wrt_drop)
    then have "sorted_wrt (\<lambda>a b. b < ?c \<longrightarrow> a < ?c) (drop pi ps)"
      by (rule sorted_wrt_mono_rel [rotated]) auto
    note pp = partition_point_nth [OF this, folded k_def]
    have small: "p < ?c" if "p \<in> set (take k (drop pi ps))" for p
      using that pp by (auto simp: in_set_conv_nth)
    have split: "set (drop pi ps) = set (take k (drop pi ps)) \<union> set (drop (pi + k) ps)"
      by (metis add.commute append_take_drop_id drop_drop set_append)
    have skip: "filter (\<lambda>c. c \<in> set (drop pi ps)) (drop ci cs) =
        filter (\<lambda>c. c \<in> set (drop (pi + k) ps)) (drop ci cs)"
      using small cs(3) unfolding split cs(1) by (intro filter_cong refl) force
    show ?thesis
    proof (cases "pi + k < length ps")
      case False
      then have "filter (\<lambda>c. c \<in> set (drop pi ps)) (drop ci cs) = []" unfolding skip by simp
      then show ?thesis using True False by (simp add: gallop_loop.simps [of cs] flip: k_def)
    next
      case inside: True
      note ps = ascending_drop_nth [OF asc inside]
      have ge: "?c \<le> ps ! (pi + k)" using pp(2) [of k] inside by (simp add: less_diff_conv2 add.commute not_less)
      show ?thesis
      proof (cases "ps ! (pi + k) = ?c")
        case eq: True
        have "filter (\<lambda>c. c \<in> set (drop (pi + k) ps)) (drop (Suc ci) cs) =
            filter (\<lambda>c. c \<in> set (drop (Suc (pi + k)) ps)) (drop (Suc ci) cs)"
          using cs(3) eq unfolding ps(1) by (intro filter_cong refl) auto
        moreover have "?c \<in> set (drop (pi + k) ps)" using eq unfolding ps(1) by simp
        moreover have "gallop_loop cs ps ci pi wi =
            gallop_loop (cs[wi := ?c]) ps (ci + 1) (pi + k + 1) (wi + 1)"
          using True inside eq by (simp add: gallop_loop.simps [of cs ps ci] flip: k_def)
        ultimately show ?thesis
          using "1.IH"(1) [OF True refl refl, folded k_def] "1.prems" inside eq cs(2) skip
            in_place_keep [OF "1.prems"(1) True]
          unfolding cs(1) by simp
      next
        case neq: False
        then have "?c < ps ! (pi + k)" using ge by simp
        then have "?c \<notin> set (drop (pi + k) ps)" using ps(3) unfolding ps(1) by force
        moreover have "gallop_loop cs ps ci pi wi = gallop_loop cs ps (ci + 1) (pi + k) wi"
          using True inside neq by (simp add: gallop_loop.simps [of cs ps ci] flip: k_def)
        ultimately show ?thesis
          using "1.IH"(2) [OF True refl refl, folded k_def] "1.prems" inside neq cs(2) skip
          unfolding cs(1) by simp
      qed
    qed
  qed
qed

lemma intersect_runs_loop_filter:
  assumes "wi \<le> ci" "ascending (drop ci cs)" "runs_ok (drop ri rs)"
  shows "intersect_runs_loop cs rs ci ri wi =
    take wi cs @ filter (\<lambda>c. c \<in> set (concat (map run_ordinals (drop ri rs)))) (drop ci cs)"
  using assms
proof (induction cs rs ci ri wi rule: intersect_runs_loop.induct)
  case (1 cs rs ci ri wi)
  show ?case
  proof (cases "ci < length cs \<and> ri < length rs")
    case False
    then show ?thesis by (auto simp: intersect_runs_loop.simps [of cs])
  next
    case True
    note cs = ascending_drop_nth [OF "1.prems"(2) conjunct1 [OF True]]
    let ?c = "cs ! ci" and ?r = "rs ! ri"
    let ?in = "\<lambda>n c. c \<in> set (concat (map run_ordinals (drop n rs)))"
    have rs: "drop ri rs = ?r # drop (Suc ri) rs" using True by (simp add: Cons_nth_drop_Suc)
    have ok: "run_end ?r < 2 ^ 32" "runs_ok (drop (Suc ri) rs)"
      "\<forall>s\<in>set (drop (Suc ri) rs). run_end ?r \<le> unat (run_start s)"
      using "1.prems"(3) unfolding rs runs_ok_Cons by auto
    have fits: "\<forall>s\<in>set (drop (Suc ri) rs). run_end s < 2 ^ 32" using ok(2) by (simp add: runs_ok_def)
    have split: "?in ri c \<longleftrightarrow> c \<in> set (run_ordinals ?r) \<or> ?in (Suc ri) c" for c
      unfolding rs by simp
    have head: "c \<in> set (run_ordinals ?r) \<longleftrightarrow> run_start ?r \<le> c \<and> c < run_start ?r + run_length ?r" for c
      by (simp add: run_ordinals_def)
    have later: "run_start ?r \<le> c" if "?in (Suc ri) c" for c
    proof -
      from that obtain s where s: "s \<in> set (drop (Suc ri) rs)" "c \<in> set (run_ordinals s)" by auto
      then have "run_start s \<le> c" using fits by (simp add: set_run_ordinals)
      moreover have "unat (run_start ?r) \<le> unat (run_start s)" using s(1) ok(3) by (auto simp: run_end_def)
      ultimately show ?thesis by (simp add: word_le_nat_alt)
    qed
    consider (before) "?c < run_start ?r"
      | (behind) "run_start ?r \<le> ?c" "run_start ?r + run_length ?r \<le> ?c"
      | (inside) "run_start ?r \<le> ?c" "?c < run_start ?r + run_length ?r"
      by (meson not_le)
    then show ?thesis
    proof cases
      case before
      then have "\<not> ?in ri ?c" using later head unfolding split by (meson not_le)
      moreover have "intersect_runs_loop cs rs ci ri wi = intersect_runs_loop cs rs (ci + 1) ri wi"
        using True before by (simp add: intersect_runs_loop.simps [of cs rs ci ri] Let_def)
      ultimately show ?thesis
        using "1.IH"(1) [OF True refl refl refl before] "1.prems" cs(2) unfolding cs(1) by simp
    next
      case behind
      have "filter (?in ri) (drop ci cs) = filter (?in (Suc ri)) (drop ci cs)"
        using behind(2) cs(3) unfolding split head cs(1) by (intro filter_cong refl) force
      moreover have "intersect_runs_loop cs rs ci ri wi = intersect_runs_loop cs rs ci (ri + 1) wi"
        using True behind leD [OF behind(1)]
        by (simp add: intersect_runs_loop.simps [of cs rs ci ri] Let_def)
      ultimately show ?thesis
        using "1.IH"(2) [OF True refl refl refl] behind "1.prems" ok(2) by (simp add: not_less)
    next
      case inside
      then have "?in ri ?c" unfolding split head by simp
      moreover have "intersect_runs_loop cs rs ci ri wi =
          intersect_runs_loop (cs[wi := ?c]) rs (ci + 1) ri (wi + 1)"
        using True inside leD [OF inside(1)] leD
        by (simp add: intersect_runs_loop.simps [of cs rs ci ri] Let_def not_le [symmetric])
      ultimately show ?thesis
        using "1.IH"(3) [OF True refl refl refl] inside "1.prems" cs(2)
          in_place_keep [OF "1.prems"(1) conjunct1 [OF True]]
        unfolding cs(1) by (simp add: not_less not_le)
    qed
  qed
qed

lemma intersect_u32_filter:
  "ascending cs \<Longrightarrow> ascending ps \<Longrightarrow> intersect_u32 cs ps = filter (\<lambda>c. c \<in> set ps) cs"
  using intersect_loop_filter [of 0 0 cs id 0 ps] gallop_loop_filter [of 0 0 0 ps cs]
  by (simp add: intersect_u32_def)

lemma intersect_posting_filter:
  assumes "ascending cs" "posting_ok p"
  shows "intersect_posting cs p = filter (\<lambda>c. c \<in> set (to_vec p)) cs"
proof (cases p)
  case (Ordinals xs)
  then show ?thesis using assms by (simp add: intersect_u32_filter)
next
  case (Runs rs n)
  then show ?thesis using assms intersect_runs_loop_filter [of 0 0 cs 0 rs] by simp
qed

lemma intersect_block_ordinals_filter:
  "ascending cs \<Longrightarrow> ascending (map bp_block_ordinal ps) \<Longrightarrow>
   intersect_block_ordinals cs ps = filter (\<lambda>c. c \<in> bp_block_ordinal ` set ps) cs"
  using intersect_loop_filter [of 0 0 cs bp_block_ordinal 0 ps]
  by (simp add: intersect_block_ordinals_def)

lemma posting_for_block_Some:
  assumes "ascending (map bp_block_ordinal ps)"
  shows "posting_for_block ps b = Some p \<longleftrightarrow>
    (\<exists>bp\<in>set ps. bp_block_ordinal bp = b \<and> bp_record_ordinals bp = p)"
  using find_by_key_Some [OF assms, of b] by (auto simp: posting_for_block_def)

lemma posting_for_block_None:
  assumes "ascending (map bp_block_ordinal ps)"
  shows "posting_for_block ps b = None \<longleftrightarrow> b \<notin> bp_block_ordinal ` set ps"
  using find_by_key_None [OF assms, of b] by (simp add: posting_for_block_def)

section \<open>Intersecting several postings\<close>

text \<open>
  What the planner needs of a posting representation: intersecting an ascending vector of
  ordinals in a window with it keeps exactly the members. The postings of sealed blocks need no
  window; those of the hot index are intersected in the window of a query.
\<close>

locale windowed_intersection =
  fixes window :: "u32 \<Rightarrow> bool" and ok :: "'p \<Rightarrow> bool" and members :: "'p \<Rightarrow> u32 set"
    and keep :: "u32 list \<Rightarrow> 'p \<Rightarrow> u32 list"
  assumes keep_within: "ascending cs \<Longrightarrow> \<forall>c\<in>set cs. window c \<Longrightarrow> ok p \<Longrightarrow>
    keep cs p = filter (\<lambda>c. c \<in> members p) cs"
begin

lemma all_within:
  assumes "ascending cs" "\<forall>c\<in>set cs. window c" "\<forall>p\<in>set ps. ok p"
  shows "intersect_all keep cs ps = filter (\<lambda>x. \<forall>p\<in>set ps. x \<in> members p) cs"
  using assms
proof (induction ps arbitrary: cs)
  case (Cons p ps)
  let ?c = "filter (\<lambda>x. x \<in> members p) cs"
  have "keep cs p = ?c" using Cons.prems by (intro keep_within) simp_all
  moreover have "intersect_all keep ?c ps = filter (\<lambda>x. \<forall>q\<in>set ps. x \<in> members q) ?c"
    by (rule Cons.IH [OF sorted_wrt_filter]) (use Cons.prems in simp_all)
  moreover have "filter (\<lambda>x. \<forall>q\<in>set (p # ps). x \<in> members q) cs =
      filter (\<lambda>x. \<forall>q\<in>set ps. x \<in> members q) ?c"
    by (simp add: conj_commute)
  ultimately show ?case
    by (cases "?c = []") (simp_all only: intersect_all.simps Let_def if_True if_False filter.simps simp_thms)
qed simp

end

locale intersection =
  fixes ok :: "'p \<Rightarrow> bool" and members :: "'p \<Rightarrow> u32 set" and keep :: "u32 list \<Rightarrow> 'p \<Rightarrow> u32 list"
  assumes keep_filter: "ascending cs \<Longrightarrow> ok p \<Longrightarrow> keep cs p = filter (\<lambda>c. c \<in> members p) cs"

sublocale intersection \<subseteq> unbounded: windowed_intersection "\<lambda>_. True" ok members keep
  by unfold_locales (rule keep_filter)

context intersection
begin

lemma all_filter:
  assumes "ascending cs" "\<forall>p\<in>set ps. ok p"
  shows "intersect_all keep cs ps = filter (\<lambda>x. \<forall>p\<in>set ps. x \<in> members p) cs"
  using unbounded.all_within [OF assms(1) _ assms(2)] by simp

lemma all_order:
  assumes "ascending cs" "\<forall>p\<in>set ps. ok p" "set ps = set qs"
  shows "intersect_all keep cs ps = intersect_all keep cs qs"
  using assms by (simp add: all_filter)

end

interpretation record_sets: intersection posting_ok "\<lambda>p. set (to_vec p)" intersect_posting
  by unfold_locales (rule intersect_posting_filter)

interpretation block_sets: intersection "\<lambda>ps. ascending (map bp_block_ordinal ps)"
  "\<lambda>ps. bp_block_ordinal ` set ps" intersect_block_ordinals
  by unfold_locales (rule intersect_block_ordinals_filter)

section \<open>Postings answer as the plain list\<close>

text \<open>C10: A posting list built from ordinals, whichever representation it picks, answers every
  operation as the plain ascending list does: expansion, cardinality, membership, intersection
  with a candidate vector, and the first or last ordinals up to a limit. (The largest ordinal is
  excluded: ordinals are smaller than a record count that fits 32 bits.)\<close>

theorem posting_answers:
  assumes "from_ordinals xs = Inr p" "\<forall>x\<in>set xs. x < - 1" "ascending cs" "0 < limit"
  shows "to_vec p = xs \<and> cardinality p = length xs \<and> (\<forall>x. posting_contains p x \<longleftrightarrow> x \<in> set xs) \<and>
    intersect_posting cs p = filter (\<lambda>c. c \<in> set xs) cs \<and>
    take_ordered p newest limit = take limit (in_order newest xs)"
  using from_ordinals_ok [OF assms(1,2)] assms(3,4)
  by (simp add: cardinality_to_vec posting_contains_iff intersect_posting_filter take_ordered_take)

theorem posting_answers_witness:
  "from_ordinals [3, 4, 5, 6, 7, 9] = Inr (Runs [\<lparr>run_start = 3, run_length = 5\<rparr>, \<lparr>run_start = 9, run_length = 1\<rparr>] 6) \<and>
   intersect_posting [1, 4, 8, 9] (Runs [\<lparr>run_start = 3, run_length = 5\<rparr>, \<lparr>run_start = 9, run_length = 1\<rparr>] 6) = [4, 9] \<and>
   take_ordered (Runs [\<lparr>run_start = 3, run_length = 5\<rparr>, \<lparr>run_start = 9, run_length = 1\<rparr>] 6) True 2 = [9, 7]"
proof -
  have built: "from_ordinals [3, 4, 5, 6, 7, 9] =
      Inr (Runs [\<lparr>run_start = 3, run_length = 5\<rparr>, \<lparr>run_start = 9, run_length = 1\<rparr>] 6)"
    by (simp add: from_ordinals_def windows_def posting_runs_def run_push_def saturating_add_def saturating_mul_def
        Let_def upt_rec)
  show ?thesis
    using posting_answers [OF built, of "[1, 4, 8, 9]" 2 True] built by (simp add: in_order_def)
qed

end
