(* ===== verification/Block_Index.thy ===== *)
theory Block_Index
  imports Trigram Postings
begin

text \<open>
  The exact index of one sealed block (\<^verbatim>\<open>BlockQueryIndex\<close> in
  \<^verbatim>\<open>src/query_index.rs\<close>): term and field postings and the trigram filter, built in one
  pass over the records with a cache of recent messages and a cache of recent terms. The
  development shows that the caches never change the result.
\<close>

section \<open>Normalized terms\<close>

definition normalize_term :: "ucd \<Rightarrow> rstr \<Rightarrow> rstr" where
  "normalize_term U t = (if list_ex (char_is_uppercase U) t then to_lowercase U t else t)"

definition term_matches_cached :: "ucd \<Rightarrow> rstr \<Rightarrow> rstr \<Rightarrow> bool" where
  "term_matches_cached U indexed observed =
     (if is_ascii observed then eq_ignore_ascii_case indexed observed
      else normalize_term U observed = indexed)"

section \<open>Cache slots\<close>

abbreviation MESSAGE_TERM_CACHE_ENTRIES :: nat where "MESSAGE_TERM_CACHE_ENTRIES \<equiv> 1024"
abbreviation TERM_CACHE_ENTRIES :: nat where "TERM_CACHE_ENTRIES \<equiv> 4096"

definition mix_bytes :: "u64 \<Rightarrow> bytes \<Rightarrow> u64" where
  "mix_bytes = foldl (\<lambda>h b. (h XOR ucast b) * 0x00000100000001b3)"

definition message_term_cache_slot :: "bytes \<Rightarrow> nat" where
  "message_term_cache_slot msg =
     (let h = of_nat (length msg) XOR 0x9e3779b97f4a7c15 :: u64;
          h = (if length msg \<ge> 16
               then h XOR (word_rotl 17 (le_word (take 8 msg)) XOR
                           word_rotl 41 (le_word (drop (length msg - 8) msg)))
               else mix_bytes h msg);
          h = h XOR drop_bit 33 h;
          h = h * 0xff51afd7ed558ccd
      in unat h mod MESSAGE_TERM_CACHE_ENTRIES)"

definition term_cache_slot :: "bytes \<Rightarrow> nat" where
  "term_cache_slot t =
     (let h = of_nat (length t) XOR 0x517cc1b727220a95 :: u64;
          h = (if t = [] then h else h XOR push_bit 8 (ucast (hd t)));
          h = (if t = [] then h else h XOR push_bit 24 (ucast (last t)));
          h = (if length t \<ge> 8 then h XOR le_word (take 8 t) else mix_bytes h t);
          h = h XOR drop_bit 32 h
      in unat h mod TERM_CACHE_ENTRIES)"

section \<open>Building\<close>

record block_build =
  bb_term_ids :: "rstr \<rightharpoonup> nat"
  bb_term_entries :: "(rstr \<times> u32 list) list"
  bb_message_cache :: "nat \<rightharpoonup> rstr \<times> nat list"
  bb_term_cache :: "nat \<rightharpoonup> nat"
  bb_trigrams :: trigram_filter
  bb_field_postings :: "(rstr \<times> (rstr \<times> u32 list) list) list"

definition build_init :: block_build where
  "build_init = \<lparr>bb_term_ids = Map.empty, bb_term_entries = [], bb_message_cache = Map.empty,
     bb_term_cache = Map.empty, bb_trigrams = trigram_filter_new, bb_field_postings = []\<rparr>"

definition push_ordinal :: "u32 \<Rightarrow> u32 list \<Rightarrow> u32 list" where
  "push_ordinal x xs = (if xs \<noteq> [] \<and> last xs = x then xs else xs @ [x])"

definition push_terms :: "u32 \<Rightarrow> (rstr \<times> u32 list) list \<Rightarrow> nat list \<Rightarrow> (rstr \<times> u32 list) list" where
  "push_terms x = foldl (\<lambda>es i. es[i := (fst (es ! i), push_ordinal x (snd (es ! i)))])"

definition intern_term :: "ucd \<Rightarrow> nat \<Rightarrow> block_build \<Rightarrow> rstr \<Rightarrow> block_build \<times> nat" where
  "intern_term U slot st t =
     (let n = normalize_term U t in
      case bb_term_ids st n of
        Some i \<Rightarrow> (st\<lparr>bb_term_cache := (bb_term_cache st)(slot \<mapsto> i)\<rparr>, i)
      | None \<Rightarrow>
          let i = length (bb_term_entries st) in
          (st\<lparr>bb_term_ids := (bb_term_ids st)(n \<mapsto> i),
              bb_term_entries := bb_term_entries st @ [(n, [])],
              bb_term_cache := (bb_term_cache st)(slot \<mapsto> i)\<rparr>, i))"

text \<open>The closure passed to \<^verbatim>\<open>analyze_message\<close>: the identifier of one observed term.\<close>

definition resolve_term :: "ucd \<Rightarrow> block_build \<Rightarrow> rstr \<Rightarrow> block_build \<times> nat" where
  "resolve_term U st t =
     (let slot = term_cache_slot (str_bytes t) in
      case bb_term_cache st slot of
        Some i \<Rightarrow>
          if term_matches_cached U (fst (bb_term_entries st ! i)) t then (st, i)
          else intern_term U slot st t
      | None \<Rightarrow> intern_term U slot st t)"

fun resolve_terms :: "ucd \<Rightarrow> block_build \<Rightarrow> rstr list \<Rightarrow> block_build \<times> nat list" where
  "resolve_terms U st [] = (st, [])"
| "resolve_terms U st (t # ts) =
     (let (st, i) = resolve_term U st t; (st, is) = resolve_terms U st ts in (st, i # is))"

definition index_message_miss :: "ucd \<Rightarrow> u32 \<Rightarrow> nat \<Rightarrow> block_build \<Rightarrow> rstr \<Rightarrow> block_build" where
  "index_message_miss U x slot st msg =
     (let st = st\<lparr>bb_trigrams := insert_message U (bb_trigrams st) msg\<rparr>;
          (st, ids) = resolve_terms U st (fst (analyze_message U msg []))
      in st\<lparr>bb_term_entries := push_terms x (bb_term_entries st) ids,
            bb_message_cache := (bb_message_cache st)(slot \<mapsto> (msg, ids))\<rparr>)"

definition index_message :: "ucd \<Rightarrow> u32 \<Rightarrow> block_build \<Rightarrow> rstr \<Rightarrow> block_build" where
  "index_message U x st msg =
     (let slot = message_term_cache_slot (str_bytes msg) in
      case bb_message_cache st slot of
        Some (m, ids) \<Rightarrow>
          if m = msg then st\<lparr>bb_term_entries := push_terms x (bb_term_entries st) ids\<rparr>
          else index_message_miss U x slot st msg
      | None \<Rightarrow> index_message_miss U x slot st msg)"

definition index_field ::
  "u32 \<Rightarrow> (rstr \<times> (rstr \<times> u32 list) list) list \<Rightarrow> rstr \<times> rstr \<Rightarrow> (rstr \<times> (rstr \<times> u32 list) list) list" where
  "index_field x fs = (\<lambda>(key, value).
     let values = (case map_of fs key of Some vs \<Rightarrow> vs | None \<Rightarrow> []);
         postings = (case map_of values value of Some ps \<Rightarrow> ps | None \<Rightarrow> [])
     in AList.update key (AList.update value (push_ordinal x postings) values) fs)"

definition index_record :: "ucd \<Rightarrow> u32 \<Rightarrow> block_build \<Rightarrow> record_view \<Rightarrow> block_build" where
  "index_record U x st r =
     (let st = index_message U x st (view_message r)
      in st\<lparr>bb_field_postings := foldl (index_field x) (bb_field_postings st) (view_fields r)\<rparr>)"

fun index_records :: "ucd \<Rightarrow> nat \<Rightarrow> block_build \<Rightarrow> record_view list \<Rightarrow> block_build log_db_result" where
  "index_records U n st [] = Inr st"
| "index_records U n st (r # rs) =
     and_then (ok_or (try_word n) RecordTooLarge) (\<lambda>x.
       index_records U (Suc n) (index_record U x st r) rs)"

fun collect_results :: "('a \<Rightarrow> 'e + 'b) \<Rightarrow> 'a list \<Rightarrow> 'e + 'b list" where
  "collect_results f [] = Inr []"
| "collect_results f (x # xs) =
     and_then (f x) (\<lambda>y. and_then (collect_results f xs) (\<lambda>ys. Inr (y # ys)))"

record block_query_index =
  bi_record_count :: u32
  bi_message_trigrams :: trigram_filter
  bi_term_postings :: "(rstr \<times> posting_list) list"
  bi_field_postings :: "(rstr \<times> (rstr \<times> posting_list) list) list"

definition seal_posting :: "'k \<times> u32 list \<Rightarrow> ('k \<times> posting_list) log_db_result" where
  "seal_posting = (\<lambda>(k, xs). and_then (from_ordinals xs) (\<lambda>p. Inr (k, p)))"

definition seal_values :: "'k \<times> ('v \<times> u32 list) list \<Rightarrow> ('k \<times> ('v \<times> posting_list) list) log_db_result" where
  "seal_values = (\<lambda>(key, values).
     and_then (collect_results seal_posting values) (\<lambda>vs. Inr (key, vs)))"

definition block_index_build :: "ucd \<Rightarrow> record_view list \<Rightarrow> block_query_index log_db_result" where
  "block_index_build U rs =
     and_then (ok_or (try_word (length rs)) RecordTooLarge) (\<lambda>record_count.
     and_then (index_records U 0 build_init rs) (\<lambda>st.
     and_then (collect_results seal_posting (bb_term_entries st)) (\<lambda>terms.
     and_then (collect_results seal_values (bb_field_postings st)) (\<lambda>fields.
     Inr \<lparr>bi_record_count = record_count, bi_message_trigrams = bb_trigrams st,
          bi_term_postings = terms, bi_field_postings = fields\<rparr>))))"

section \<open>Term normalization\<close>

text \<open>
  What is used of the Unicode Character Database: capital sigma is an uppercase letter, and no
  character outside ASCII has an ASCII capital in its lowercase mapping.
\<close>

definition ucd_sane :: "ucd \<Rightarrow> bool" where
  "ucd_sane U \<longleftrightarrow> ucd_uppercase U capital_sigma \<and>
     (\<forall>c d. 128 \<le> c \<longrightarrow> d \<in> set (ucd_lower U c) \<longrightarrow> \<not> (65 \<le> d \<and> d \<le> 90))"

text \<open>Text in which only uppercase letters change in lowercase: no titlecase letters.\<close>

definition lower_stable :: "ucd \<Rightarrow> rstr \<Rightarrow> bool" where
  "lower_stable U s \<longleftrightarrow> (\<forall>c\<in>set s. char_is_uppercase U c \<or> char_to_lower U c = [c])"

lemma ascii_lower_stable: "is_ascii s \<Longrightarrow> lower_stable U s"
  by (auto simp: lower_stable_def is_ascii_def list_all_iff char_is_uppercase_def char_to_lower_def
        to_ascii_lowercase_def)

lemma concat_singletons: "concat (map (\<lambda>c. [f c]) s) = map f s"
  by (induction s) simp_all

lemma normalize_lower:
  assumes "ucd_sane U" "lower_stable U s"
  shows "normalize_term U s = to_lowercase U s"
proof (cases "list_ex (char_is_uppercase U) s")
  case False
  then have "capital_sigma \<notin> set s"
    using assms(1) by (auto simp: ucd_sane_def list_ex_iff char_is_uppercase_def)
  moreover have "map (char_to_lower U) s = map (\<lambda>c. [c]) s"
    using False assms(2) by (auto simp: lower_stable_def list_ex_iff)
  then have "concat (map (char_to_lower U) s) = s" by (simp only: concat_singletons list.map_ident)
  ultimately have "to_lowercase U s = s" by (simp add: to_lowercase_no_sigma)
  then show ?thesis by (simp add: normalize_term_def)
qed (simp add: normalize_term_def)

lemma normalize_text_equal:
  assumes "ucd_sane U" "lower_stable U a" "lower_stable U b"
  shows "normalize_term U a = normalize_term U b \<longleftrightarrow> text_equal U a b Insensitive"
  using assms by (simp add: normalize_lower text_equal_lower)

definition no_capital :: "rstr \<Rightarrow> bool" where
  "no_capital s \<longleftrightarrow> (\<forall>c\<in>set s. \<not> (65 \<le> c \<and> c \<le> 90))"

lemma no_capital_lower_from: "ucd_sane U \<Longrightarrow> no_capital (lower_from U bef s)"
proof (induction s arbitrary: bef)
  case (Cons c s)
  have "\<not> (65 \<le> d \<and> d \<le> 90)" if "128 \<le> c" "d \<in> set (ucd_lower U c)" for d
    using that Cons.prems unfolding ucd_sane_def by blast
  then have "\<not> (65 \<le> d \<and> d \<le> 90)" if "d \<in> set (char_to_lower U c)" for d
    using that by (cases "c < 128") (auto simp: char_to_lower_def to_ascii_lowercase_def split: if_splits)
  then show ?case using Cons by (auto simp: no_capital_def)
qed (simp add: no_capital_def)

lemma no_capital_normalize: "ucd_sane U \<Longrightarrow> no_capital (normalize_term U s)"
  using no_capital_lower_from [of U "[]" s]
  by (auto simp: normalize_term_def to_lowercase_def list_ex_iff no_capital_def char_is_uppercase_def)

lemma no_capital_lower: "no_capital s \<Longrightarrow> map to_ascii_lowercase s = s"
  by (induction s) (auto simp: no_capital_def to_ascii_lowercase_def)

lemma term_matches_cached_iff:
  assumes "ucd_sane U" "no_capital indexed"
  shows "term_matches_cached U indexed observed \<longleftrightarrow> indexed = normalize_term U observed"
proof (cases "is_ascii observed")
  case True
  then have "normalize_term U observed = map to_ascii_lowercase observed"
    using normalize_lower [OF assms(1) ascii_lower_stable] by (simp add: to_lowercase_ascii)
  then show ?thesis
    using True no_capital_lower [OF assms(2)]
    by (auto simp: term_matches_cached_def eq_ignore_ascii_case_def)
qed (auto simp: term_matches_cached_def)

section \<open>Interning terms\<close>

text \<open>The terms indexed for a message.\<close>

definition message_terms :: "ucd \<Rightarrow> rstr \<Rightarrow> rstr list" where
  "message_terms U msg = map (normalize_term U) (scan_message_terms U msg)"

text \<open>
  The invariant of the term table and of both caches; \<open>msgs\<close> are the messages that were looked
  at by the trigram filter.
\<close>

definition table_ok :: "ucd \<Rightarrow> block_build \<Rightarrow> bool" where
  "table_ok U st \<longleftrightarrow>
     (\<forall>t i. bb_term_ids st t = Some i \<longleftrightarrow>
        i < length (bb_term_entries st) \<and> fst (bb_term_entries st ! i) = t) \<and>
     (\<forall>i<length (bb_term_entries st). no_capital (fst (bb_term_entries st ! i))) \<and>
     (\<forall>s i. bb_term_cache st s = Some i \<longrightarrow> i < length (bb_term_entries st))"

definition cache_ok :: "ucd \<Rightarrow> block_build \<Rightarrow> bool" where
  "cache_ok U st \<longleftrightarrow>
     (\<forall>s m ids. bb_message_cache st s = Some (m, ids) \<longrightarrow>
        (\<forall>i\<in>set ids. i < length (bb_term_entries st)) \<and>
        map (\<lambda>i. fst (bb_term_entries st ! i)) ids = message_terms U m \<and>
        (\<forall>t\<in>set (visit_normalized_trigrams U m). filter_get (bb_trigrams st) t))"

text \<open>The step from one state to another extends the term table.\<close>

definition extends :: "block_build \<Rightarrow> block_build \<Rightarrow> bool" where
  "extends st st' \<longleftrightarrow>
     (\<exists>new. bb_term_entries st' = bb_term_entries st @ map (\<lambda>t. (t, [])) new) \<and>
     bb_message_cache st' = bb_message_cache st \<and> bb_trigrams st' = bb_trigrams st \<and>
     bb_field_postings st' = bb_field_postings st"

lemma extends_refl: "extends st st"
  by (auto simp: extends_def intro: exI [of _ "[]"])

lemma extends_trans: "extends a b \<Longrightarrow> extends b c \<Longrightarrow> extends a c"
  unfolding extends_def by (metis append.assoc map_append)

lemma extends_nth:
  assumes "extends st st'" "i < length (bb_term_entries st)"
  shows "i < length (bb_term_entries st')" "bb_term_entries st' ! i = bb_term_entries st ! i"
  using assms by (auto simp: extends_def nth_append)

lemma extends_new:
  assumes "extends st st'" "i < length (bb_term_entries st')" "\<not> i < length (bb_term_entries st)"
  shows "snd (bb_term_entries st' ! i) = []"
  using assms by (auto simp: extends_def nth_append)

lemma intern_term_ok:
  assumes "ucd_sane U" "table_ok U st" "intern_term U slot st t = (st', i)"
  shows "table_ok U st' \<and> extends st st' \<and> i < length (bb_term_entries st') \<and>
    fst (bb_term_entries st' ! i) = normalize_term U t \<and>
    {length (bb_term_entries st) ..< length (bb_term_entries st')} \<subseteq> {i}"
proof (cases "bb_term_ids st (normalize_term U t)")
  case (Some j)
  then have "st' = st\<lparr>bb_term_cache := (bb_term_cache st)(slot \<mapsto> j)\<rparr>" "i = j"
    using assms(3) by (auto simp: intern_term_def)
  moreover have "j < length (bb_term_entries st)" "fst (bb_term_entries st ! j) = normalize_term U t"
    using assms(2) Some by (auto simp: table_ok_def)
  ultimately show ?thesis using assms(2)
    by (auto simp: table_ok_def extends_def intro: exI [of _ "[]"])
next
  case None
  let ?n = "length (bb_term_entries st)" and ?t = "normalize_term U t"
  have st': "st' = st\<lparr>bb_term_ids := (bb_term_ids st)(?t \<mapsto> ?n),
      bb_term_entries := bb_term_entries st @ [(?t, [])],
      bb_term_cache := (bb_term_cache st)(slot \<mapsto> ?n)\<rparr>" "i = ?n"
    using assms(3) None by (auto simp: intern_term_def Let_def)
  have fresh: "fst (bb_term_entries st ! j) \<noteq> ?t" if "j < ?n" for j
    using assms(2) None that unfolding table_ok_def by (metis option.distinct(1))
  have ids: "bb_term_ids st s = Some j \<longleftrightarrow> j < ?n \<and> fst (bb_term_entries st ! j) = s" for s j
    using assms(2) by (simp add: table_ok_def)
  have "table_ok U st'"
    using assms(2) fresh no_capital_normalize [OF assms(1), of t] unfolding st'
    by (auto simp: table_ok_def nth_append less_Suc_eq ids split: if_splits)
  moreover have "extends st st'" unfolding st' extends_def by (auto intro: exI [of _ "[?t]"])
  ultimately show ?thesis unfolding st' by simp
qed

lemma resolve_term_ok:
  assumes "ucd_sane U" "table_ok U st" "resolve_term U st t = (st', i)"
  shows "table_ok U st' \<and> extends st st' \<and> i < length (bb_term_entries st') \<and>
    fst (bb_term_entries st' ! i) = normalize_term U t \<and>
    {length (bb_term_entries st) ..< length (bb_term_entries st')} \<subseteq> {i}"
proof (cases "bb_term_cache st (term_cache_slot (str_bytes t))")
  case None
  then have "intern_term U (term_cache_slot (str_bytes t)) st t = (st', i)"
    using assms(3) by (simp add: resolve_term_def)
  with assms(1,2) show ?thesis by (rule intern_term_ok)
next
  case (Some j)
  then have j: "j < length (bb_term_entries st)" "no_capital (fst (bb_term_entries st ! j))"
    using assms(2) by (auto simp: table_ok_def)
  show ?thesis
  proof (cases "term_matches_cached U (fst (bb_term_entries st ! j)) t")
    case True
    then have "st' = st" "i = j" using assms(3) Some by (simp_all add: resolve_term_def)
    then show ?thesis
      using assms(1,2) True j term_matches_cached_iff [OF assms(1) j(2)] extends_refl by auto
  next
    case False
    then have "intern_term U (term_cache_slot (str_bytes t)) st t = (st', i)"
      using assms(3) Some by (simp add: resolve_term_def)
    with assms(1,2) show ?thesis by (rule intern_term_ok)
  qed
qed

lemma resolve_terms_ok:
  assumes "ucd_sane U" "table_ok U st" "resolve_terms U st ts = (st', ids)"
  shows "table_ok U st' \<and> extends st st' \<and> (\<forall>i\<in>set ids. i < length (bb_term_entries st')) \<and>
    map (\<lambda>i. fst (bb_term_entries st' ! i)) ids = map (normalize_term U) ts \<and>
    {length (bb_term_entries st) ..< length (bb_term_entries st')} \<subseteq> set ids"
  using assms(2,3)
proof (induction ts arbitrary: st st' ids)
  case Nil
  then show ?case by (simp add: extends_refl)
next
  case (Cons t ts)
  obtain s1 i where r: "resolve_term U st t = (s1, i)" by (cases "resolve_term U st t")
  obtain s2 js where rs: "resolve_terms U s1 ts = (s2, js)" by (cases "resolve_terms U s1 ts")
  note one = resolve_term_ok [OF assms(1) Cons.prems(1) r]
  note rest = Cons.IH [OF conjunct1 [OF one] rs]
  have "st' = s2" "ids = i # js" using Cons.prems(2) r rs by simp_all
  moreover have "j \<in> insert i (set js)"
    if "length (bb_term_entries st) \<le> j" "j < length (bb_term_entries s2)" for j
    using that one rest by (cases "j < length (bb_term_entries s1)") (auto simp: subset_iff)
  then have "{length (bb_term_entries st) ..< length (bb_term_entries s2)} \<subseteq> insert i (set js)"
    by (intro subsetI) simp
  ultimately show ?case
    using one rest extends_nth [of s1 s2 i] extends_trans [of st s1 s2] by simp
qed

section \<open>Ordinals of the records with a property\<close>

definition ordinals :: "(nat \<Rightarrow> bool) \<Rightarrow> nat \<Rightarrow> u32 list" where
  "ordinals P n = map of_nat (filter P [0 ..< n])"

lemma ordinals_Suc: "ordinals P (Suc n) = ordinals P n @ (if P n then [of_nat n] else [])"
  by (simp add: ordinals_def)

lemma ordinals_cong: "(\<And>k. k < n \<Longrightarrow> P k = Q k) \<Longrightarrow> ordinals P n = ordinals Q n"
  unfolding ordinals_def by (rule arg_cong [of _ _ "map of_nat"]) (auto intro: filter_cong)

lemma unat_u32: "k < n \<Longrightarrow> n \<le> 2 ^ 32 \<Longrightarrow> unat (of_nat k :: u32) = k"
  by (simp add: unat_of_nat)

lemma set_ordinals:
  assumes "n \<le> 2 ^ 32"
  shows "set (ordinals P n) = {x :: u32. unat x < n \<and> P (unat x)}"
proof (intro set_eqI iffI)
  fix x :: u32 assume "x \<in> set (ordinals P n)"
  then obtain k where "k < n" "P k" "x = of_nat k" by (auto simp: ordinals_def)
  with unat_u32 [OF _ assms, of k] show "x \<in> {x. unat x < n \<and> P (unat x)}" by simp
next
  fix x :: u32 assume "x \<in> {x. unat x < n \<and> P (unat x)}"
  then show "x \<in> set (ordinals P n)" by (auto simp: ordinals_def intro: image_eqI [of _ _ "unat x"])
qed

lemma ascending_ordinals: "n \<le> 2 ^ 32 \<Longrightarrow> ascending (ordinals P n)"
proof (induction n)
  case (Suc n)
  then have "x < of_nat n" if "x \<in> set (ordinals P n)" for x
    using that by (auto simp: set_ordinals word_less_nat_alt unat_u32 [of n "Suc n"])
  then show ?case using Suc by (auto simp: ordinals_Suc sorted_wrt_append)
qed (simp add: ordinals_def)

lemma push_ordinal_fresh: "x \<notin> set xs \<Longrightarrow> push_ordinal x xs = xs @ [x]"
  by (auto simp: push_ordinal_def)

lemma push_ordinal_idem [simp]: "push_ordinal x (push_ordinal x xs) = push_ordinal x xs"
  by (simp add: push_ordinal_def)

lemma push_ordinal_ordinals:
  "n < 2 ^ 32 \<Longrightarrow> push_ordinal (of_nat n) (ordinals P n) = ordinals P n @ [of_nat n]"
  by (rule push_ordinal_fresh) (simp add: set_ordinals unat_u32 [of n "Suc n"])

lemma push_terms_nth:
  assumes "\<forall>i\<in>set ids. i < length es"
  shows "length (push_terms x es ids) = length es" "j < length es \<Longrightarrow> push_terms x es ids ! j =
    (fst (es ! j), if j \<in> set ids then push_ordinal x (snd (es ! j)) else snd (es ! j))"
proof -
  have "length (push_terms x es ids) = length es \<and> (j < length es \<longrightarrow> push_terms x es ids ! j =
    (fst (es ! j), if j \<in> set ids then push_ordinal x (snd (es ! j)) else snd (es ! j)))"
    using assms
    by (induction ids arbitrary: es) (auto simp: push_terms_def nth_list_update)
  then show "length (push_terms x es ids) = length es" "j < length es \<Longrightarrow> push_terms x es ids ! j =
    (fst (es ! j), if j \<in> set ids then push_ordinal x (snd (es ! j)) else snd (es ! j))"
    by simp_all
qed

section \<open>Messages\<close>

abbreviation has_term_at :: "ucd \<Rightarrow> record_view list \<Rightarrow> rstr \<Rightarrow> nat \<Rightarrow> bool" where
  "has_term_at U rs t k \<equiv> t \<in> set (message_terms U (view_message (rs ! k)))"

definition filter_ok :: "ucd \<Rightarrow> record_view list \<Rightarrow> trigram_filter \<Rightarrow> bool" where
  "filter_ok U rs ws \<longleftrightarrow> length ws = MESSAGE_TRIGRAM_FILTER_WORDS \<and>
     (\<forall>t<MESSAGE_TRIGRAM_FILTER_BITS.
        filter_get ws t \<longleftrightarrow> (\<exists>r\<in>set rs. t \<in> set (visit_normalized_trigrams U (view_message r))))"

definition entry_ok :: "ucd \<Rightarrow> record_view list \<Rightarrow> rstr \<times> u32 list \<Rightarrow> bool" where
  "entry_ok U rs e \<longleftrightarrow> snd e = ordinals (has_term_at U rs (fst e)) (length rs) \<and> snd e \<noteq> []"

definition terms_ok :: "ucd \<Rightarrow> record_view list \<Rightarrow> block_build \<Rightarrow> bool" where
  "terms_ok U rs st \<longleftrightarrow>
     (\<forall>i<length (bb_term_entries st). entry_ok U rs (bb_term_entries st ! i)) \<and>
     (\<forall>r\<in>set rs. \<forall>t\<in>set (message_terms U (view_message r)). bb_term_ids st t \<noteq> None)"

definition messages_ok :: "ucd \<Rightarrow> record_view list \<Rightarrow> block_build \<Rightarrow> bool" where
  "messages_ok U rs st \<longleftrightarrow>
     table_ok U st \<and> cache_ok U st \<and> filter_ok U rs (bb_trigrams st) \<and> terms_ok U rs st"

lemma table_ok_entries:
  assumes "table_ok U st" "length es = length (bb_term_entries st)"
    and "\<And>i. i < length es \<Longrightarrow> fst (es ! i) = fst (bb_term_entries st ! i)"
  shows "table_ok U (st\<lparr>bb_term_entries := es\<rparr>)"
  using assms by (auto simp: table_ok_def)

lemma table_ok_other:
  "table_ok U (st\<lparr>bb_message_cache := c\<rparr>) = table_ok U st"
  "table_ok U (st\<lparr>bb_trigrams := ws\<rparr>) = table_ok U st"
  "table_ok U (st\<lparr>bb_field_postings := fs\<rparr>) = table_ok U st"
  by (simp_all add: table_ok_def)

lemma terms_ok_push:
  assumes n: "length rs < 2 ^ 32" and old: "terms_ok U rs st" and ext: "extends st st'"
    and tab: "table_ok U st" "table_ok U st'"
    and ids: "\<forall>i\<in>set ids. i < length (bb_term_entries st')"
      "map (\<lambda>i. fst (bb_term_entries st' ! i)) ids = message_terms U (view_message r)"
      "{length (bb_term_entries st) ..< length (bb_term_entries st')} \<subseteq> set ids"
  shows "terms_ok U (rs @ [r])
    (st'\<lparr>bb_term_entries := push_terms (of_nat (length rs)) (bb_term_entries st') ids\<rparr>)"
proof -
  let ?es = "bb_term_entries st'" and ?n = "length rs"
  let ?ps = "push_terms (of_nat ?n) ?es ids"
  have find: "bb_term_ids st' t = Some i \<longleftrightarrow> i < length ?es \<and> fst (?es ! i) = t" for t i
    using tab(2) by (simp add: table_ok_def)
  have keep: "bb_term_ids st' t \<noteq> None" if "bb_term_ids st t \<noteq> None" for t
  proof -
    from that obtain j where "j < length (bb_term_entries st)" "fst (bb_term_entries st ! j) = t"
      using tab(1) by (auto simp: table_ok_def)
    then show ?thesis using extends_nth [OF ext, of j] find [of t j] by auto
  qed
  have member: "fst (?es ! i) \<in> set (message_terms U (view_message r)) \<longleftrightarrow> i \<in> set ids"
    if i: "i < length ?es" for i
  proof
    assume "fst (?es ! i) \<in> set (message_terms U (view_message r))"
    then obtain j where "j \<in> set ids" "fst (?es ! j) = fst (?es ! i)"
      unfolding ids(2) [symmetric] by auto
    moreover from this have "bb_term_ids st' (fst (?es ! i)) = Some j"
      "bb_term_ids st' (fst (?es ! i)) = Some i"
      using ids(1) i unfolding find by blast+
    ultimately show "i \<in> set ids" by (metis option.inject)
  next
    assume "i \<in> set ids"
    then show "fst (?es ! i) \<in> set (message_terms U (view_message r))"
      unfolding ids(2) [symmetric] by auto
  qed
  have before: "snd (?es ! i) = ordinals (has_term_at U rs (fst (?es ! i))) ?n" if i: "i < length ?es" for i
  proof (cases "i < length (bb_term_entries st)")
    case True
    then show ?thesis using old extends_nth(2) [OF ext True] by (simp add: terms_ok_def entry_ok_def)
  next
    case False
    have "\<not> has_term_at U rs (fst (?es ! i)) k" if "k < ?n" for k
    proof
      assume "has_term_at U rs (fst (?es ! i)) k"
      moreover have "rs ! k \<in> set rs" using that by simp
      ultimately obtain j where "bb_term_ids st (fst (?es ! i)) = Some j"
        using old unfolding terms_ok_def by blast
      then have j: "j < length (bb_term_entries st)" "fst (bb_term_entries st ! j) = fst (?es ! i)"
        using tab(1) by (auto simp: table_ok_def)
      then have "bb_term_ids st' (fst (?es ! i)) = Some j"
        using extends_nth [OF ext j(1)] find by simp
      then have "j = i" using find [of "fst (?es ! i)" i] i by simp
      with j False show False by simp
    qed
    then show ?thesis using extends_new [OF ext i False] by (simp add: ordinals_def)
  qed
  have after: "entry_ok U (rs @ [r]) (?ps ! i)" if i: "i < length ?es" for i
  proof -
    have "ordinals (has_term_at U (rs @ [r]) t) ?n = ordinals (has_term_at U rs t) ?n" for t
      by (rule ordinals_cong) (simp add: nth_append)
    then have "snd (?ps ! i) = ordinals (has_term_at U (rs @ [r]) (fst (?ps ! i))) (length (rs @ [r]))"
      using before [OF i] member [OF i] n push_terms_nth(2) [OF ids(1) i]
      by (simp add: ordinals_Suc push_ordinal_ordinals)
    moreover have "snd (?ps ! i) \<noteq> []"
    proof (cases "i < length (bb_term_entries st)")
      case True
      then have "snd (bb_term_entries st ! i) \<noteq> []" using old unfolding terms_ok_def entry_ok_def by blast
      then have "snd (?es ! i) \<noteq> []" unfolding extends_nth(2) [OF ext True] .
      then show ?thesis using push_terms_nth(2) [OF ids(1) i] by (simp add: push_ordinal_def)
    next
      case False
      then have "i \<in> set ids" using ids(3) i by auto
      then show ?thesis using push_terms_nth(2) [OF ids(1) i] by (simp add: push_ordinal_def)
    qed
    ultimately show ?thesis unfolding entry_ok_def ..
  qed
  have "bb_term_ids st' t \<noteq> None" if t: "t \<in> set (message_terms U (view_message r))" for t
  proof -
    obtain i where "i \<in> set ids" "fst (?es ! i) = t" using t unfolding ids(2) [symmetric] by auto
    then have "bb_term_ids st' t = Some i" using ids(1) by (simp add: find)
    then show ?thesis by simp
  qed
  moreover have "bb_term_ids st' t \<noteq> None"
    if "q \<in> set rs" "t \<in> set (message_terms U (view_message q))" for q t
    using keep old that unfolding terms_ok_def by blast
  ultimately have "\<forall>q\<in>set (rs @ [r]). \<forall>t\<in>set (message_terms U (view_message q)). bb_term_ids st' t \<noteq> None"
    by auto
  then show ?thesis
    unfolding terms_ok_def using after push_terms_nth(1) [OF ids(1)] by simp
qed

lemma cache_ok_transfer:
  assumes "cache_ok U st" "bb_message_cache st' = bb_message_cache st"
    and "\<And>i. i < length (bb_term_entries st) \<Longrightarrow>
      i < length (bb_term_entries st') \<and> fst (bb_term_entries st' ! i) = fst (bb_term_entries st ! i)"
    and "\<And>t. filter_get (bb_trigrams st) t \<Longrightarrow> filter_get (bb_trigrams st') t"
  shows "cache_ok U st'"
  unfolding cache_ok_def
proof (intro allI impI)
  fix s m ids assume "bb_message_cache st' s = Some (m, ids)"
  then have "bb_message_cache st s = Some (m, ids)" using assms(2) by simp
  then have ids: "\<forall>i\<in>set ids. i < length (bb_term_entries st)"
    "map (\<lambda>i. fst (bb_term_entries st ! i)) ids = message_terms U m"
    "\<forall>t\<in>set (visit_normalized_trigrams U m). filter_get (bb_trigrams st) t"
    using assms(1) unfolding cache_ok_def by blast+
  have "map (\<lambda>i. fst (bb_term_entries st' ! i)) ids = map (\<lambda>i. fst (bb_term_entries st ! i)) ids"
    using ids(1) assms(3) by (intro map_cong refl) blast
  then show "(\<forall>i\<in>set ids. i < length (bb_term_entries st')) \<and>
      map (\<lambda>i. fst (bb_term_entries st' ! i)) ids = message_terms U m \<and>
      (\<forall>t\<in>set (visit_normalized_trigrams U m). filter_get (bb_trigrams st') t)"
    using ids assms(3,4) by metis
qed

lemma cache_ok_extends:
  assumes "cache_ok U st" "extends st st'"
  shows "cache_ok U st'"
  by (rule cache_ok_transfer [OF assms(1)])
     (use assms(2) extends_nth [OF assms(2)] in \<open>simp_all add: extends_def\<close>)

lemma cache_ok_push:
  assumes "cache_ok U st" "\<forall>i\<in>set ids. i < length (bb_term_entries st)"
  shows "cache_ok U (st\<lparr>bb_term_entries := push_terms x (bb_term_entries st) ids\<rparr>)"
  by (rule cache_ok_transfer [OF assms(1)]) (simp_all add: push_terms_nth [OF assms(2)])

lemma cache_ok_insert:
  assumes "cache_ok U st" "\<forall>i\<in>set ids. i < length (bb_term_entries st)"
    and "map (\<lambda>i. fst (bb_term_entries st ! i)) ids = message_terms U m"
    and "\<forall>t\<in>set (visit_normalized_trigrams U m). filter_get (bb_trigrams st) t"
  shows "cache_ok U (st\<lparr>bb_message_cache := (bb_message_cache st)(s \<mapsto> (m, ids))\<rparr>)"
  using assms by (simp add: cache_ok_def)

lemma cache_ok_filter:
  assumes "cache_ok U st" "\<And>t. filter_get (bb_trigrams st) t \<Longrightarrow> filter_get ws t"
  shows "cache_ok U (st\<lparr>bb_trigrams := ws\<rparr>)"
  by (rule cache_ok_transfer [OF assms(1)]) (simp_all add: assms(2))

lemma push_state_ok:
  assumes "table_ok U st" "\<forall>i\<in>set ids. i < length (bb_term_entries st)"
  shows "table_ok U (st\<lparr>bb_term_entries := push_terms x (bb_term_entries st) ids\<rparr>)"
  by (rule table_ok_entries [OF assms(1)]) (simp_all add: push_terms_nth [OF assms(2)])

lemma terms_ok_cache [simp]:
  "terms_ok U rs (st\<lparr>bb_message_cache := c\<rparr>) = terms_ok U rs st"
  "terms_ok U rs (st\<lparr>bb_trigrams := ws\<rparr>) = terms_ok U rs st"
  "terms_ok U rs (st\<lparr>bb_field_postings := fs\<rparr>) = terms_ok U rs st"
  by (simp_all add: terms_ok_def)

lemma index_message_miss_ok:
  assumes sane: "ucd_sane U" and n: "length rs < 2 ^ 32" and ok: "messages_ok U rs st"
  shows "messages_ok U (rs @ [r]) (index_message_miss U (of_nat (length rs)) slot st (view_message r)) \<and>
    bb_field_postings (index_message_miss U (of_nat (length rs)) slot st (view_message r)) =
      bb_field_postings st"
proof -
  let ?m = "view_message r" and ?x = "of_nat (length rs) :: u32"
  let ?s0 = "st\<lparr>bb_trigrams := insert_message U (bb_trigrams st) ?m\<rparr>"
  obtain s1 ids where res: "resolve_terms U ?s0 (fst (analyze_message U ?m [])) = (s1, ids)"
    by (cases "resolve_terms U ?s0 (fst (analyze_message U ?m []))")
  have ok': "table_ok U st" "cache_ok U st" "filter_ok U rs (bb_trigrams st)" "terms_ok U rs st"
    using ok by (simp_all add: messages_ok_def)
  have len: "length (bb_trigrams st) = MESSAGE_TRIGRAM_FILTER_WORDS" using ok'(3) by (simp add: filter_ok_def)
  have tab0: "table_ok U ?s0" using ok'(1) by (simp add: table_ok_other)
  note r1 = resolve_terms_ok [OF sane tab0 res]
  have terms: "map (\<lambda>i. fst (bb_term_entries s1 ! i)) ids = message_terms U ?m"
    using r1 by (simp add: message_terms_def analyze_message_terms scan_message_terms_tokens)
  have ext: "extends ?s0 s1" and tab1: "table_ok U s1" and valid: "\<forall>i\<in>set ids. i < length (bb_term_entries s1)"
    and new: "{length (bb_term_entries ?s0) ..< length (bb_term_entries s1)} \<subseteq> set ids"
    using r1 by blast+
  have filt: "bb_trigrams s1 = insert_message U (bb_trigrams st) ?m"
    "bb_field_postings s1 = bb_field_postings st"
    using ext by (simp_all add: extends_def)
  have seen: "\<forall>t\<in>set (visit_normalized_trigrams U ?m). filter_get (bb_trigrams s1) t"
    using insert_message_get(2) [OF len] by (simp add: filt)
  have cache1: "cache_ok U s1"
    by (rule cache_ok_extends [OF cache_ok_filter ext])
       (use ok'(2) insert_message_get(2) [OF len] in simp_all)
  let ?s2 = "s1\<lparr>bb_term_entries := push_terms ?x (bb_term_entries s1) ids\<rparr>"
  have tab2: "table_ok U ?s2" and cache2: "cache_ok U ?s2"
    using push_state_ok [OF tab1 valid] cache_ok_push [OF cache1 valid] by simp_all
  have terms2: "terms_ok U (rs @ [r]) ?s2"
    by (rule terms_ok_push [OF n _ ext tab0 tab1 valid terms new]) (use ok'(4) in simp)
  have fst2: "map (\<lambda>i. fst (bb_term_entries ?s2 ! i)) ids = message_terms U ?m"
    unfolding terms [symmetric] using valid push_terms_nth(2) [OF valid] by (intro map_cong refl) simp
  have cache3: "cache_ok U (?s2\<lparr>bb_message_cache := (bb_message_cache ?s2)(slot \<mapsto> (?m, ids))\<rparr>)"
    by (rule cache_ok_insert [OF cache2 _ fst2])
       (use seen valid push_terms_nth(1) [OF valid] in simp_all)
  have filter3: "filter_ok U (rs @ [r]) (bb_trigrams s1)"
    using ok'(3) insert_message_get [OF len] unfolding filt filter_ok_def by auto
  have eq: "index_message_miss U ?x slot st ?m =
      ?s2\<lparr>bb_message_cache := (bb_message_cache ?s2)(slot \<mapsto> (?m, ids))\<rparr>"
    using res by (simp add: index_message_miss_def Let_def)
  show ?thesis
    unfolding eq messages_ok_def
    using tab2 cache3 filter3 terms2 by (simp add: table_ok_other filt(2))
qed

lemma index_message_ok:
  assumes sane: "ucd_sane U" and n: "length rs < 2 ^ 32" and ok: "messages_ok U rs st"
  shows "messages_ok U (rs @ [r]) (index_message U (of_nat (length rs)) st (view_message r)) \<and>
    bb_field_postings (index_message U (of_nat (length rs)) st (view_message r)) = bb_field_postings st"
proof (cases "\<exists>ids. bb_message_cache st (message_term_cache_slot (str_bytes (view_message r))) =
    Some (view_message r, ids)")
  case False
  then have "index_message U (of_nat (length rs)) st (view_message r) =
      index_message_miss U (of_nat (length rs))
        (message_term_cache_slot (str_bytes (view_message r))) st (view_message r)"
    by (auto simp: index_message_def Let_def split: option.splits)
  then show ?thesis using index_message_miss_ok [OF assms] by simp
next
  case True
  let ?m = "view_message r"
  from True obtain ids where
    hit: "bb_message_cache st (message_term_cache_slot (str_bytes ?m)) = Some (?m, ids)" by blast
  have ok': "table_ok U st" "cache_ok U st" "filter_ok U rs (bb_trigrams st)" "terms_ok U rs st"
    using ok by (simp_all add: messages_ok_def)
  have valid: "\<forall>i\<in>set ids. i < length (bb_term_entries st)"
    and terms: "map (\<lambda>i. fst (bb_term_entries st ! i)) ids = message_terms U ?m"
    and seen: "\<forall>t\<in>set (visit_normalized_trigrams U ?m). filter_get (bb_trigrams st) t"
    using ok'(2) hit unfolding cache_ok_def by blast+
  have "filter_ok U (rs @ [r]) (bb_trigrams st)"
    using ok'(3) seen unfolding filter_ok_def by auto
  moreover have "terms_ok U (rs @ [r])
      (st\<lparr>bb_term_entries := push_terms (of_nat (length rs)) (bb_term_entries st) ids\<rparr>)"
    by (rule terms_ok_push [OF n ok'(4) extends_refl ok'(1) ok'(1) valid terms]) simp
  ultimately show ?thesis
    using hit push_state_ok [OF ok'(1) valid] cache_ok_push [OF ok'(2) valid]
    by (simp add: index_message_def messages_ok_def)
qed

section \<open>Fields\<close>

definition nested_lookup :: "('a \<times> ('b \<times> 'c) list) list \<Rightarrow> 'a \<Rightarrow> 'b \<Rightarrow> 'c option" where
  "nested_lookup fs k v = (case map_of fs k of None \<Rightarrow> None | Some vs \<Rightarrow> map_of vs v)"

definition nested_distinct :: "('a \<times> ('b \<times> 'c) list) list \<Rightarrow> bool" where
  "nested_distinct fs \<longleftrightarrow> distinct (map fst fs) \<and> (\<forall>kv\<in>set fs. distinct (map fst (snd kv)))"

abbreviation has_field_at :: "record_view list \<Rightarrow> rstr \<Rightarrow> rstr \<Rightarrow> nat \<Rightarrow> bool" where
  "has_field_at rs k v i \<equiv> (k, v) \<in> set (view_fields (rs ! i))"

definition some_unless_empty :: "'a list \<Rightarrow> 'a list option" where
  "some_unless_empty xs = (if xs = [] then None else Some xs)"

definition fields_ok :: "record_view list \<Rightarrow> (rstr \<times> (rstr \<times> u32 list) list) list \<Rightarrow> bool" where
  "fields_ok rs fs \<longleftrightarrow> nested_distinct fs \<and>
     (\<forall>k v. nested_lookup fs k v = some_unless_empty (ordinals (has_field_at rs k v) (length rs)))"

lemma nested_distinct_index:
  assumes "nested_distinct fs"
  shows "nested_distinct (index_field x fs kv)"
proof -
  obtain k v where kv: "kv = (k, v)" by (cases kv)
  let ?vs = "case map_of fs k of Some vs \<Rightarrow> vs | None \<Rightarrow> []"
  have "distinct (map fst ?vs)"
    using assms by (auto simp: nested_distinct_def dest: map_of_SomeD split: option.splits)
  then have vs: "distinct (map fst (AList.update v p ?vs))" for p by (rule distinct_update)
  have sub: "set (AList.update k w fs) \<subseteq> insert (k, w) (set fs)" for w
    by (induction fs) auto
  show ?thesis
    unfolding nested_distinct_def
  proof (intro conjI ballI)
    show "distinct (map fst (index_field x fs kv))"
      using assms by (simp add: index_field_def kv Let_def nested_distinct_def distinct_update)
    fix e assume "e \<in> set (index_field x fs kv)"
    then have "e \<in> set fs \<or> (\<exists>p. e = (k, AList.update v p ?vs))"
      using sub by (auto simp: index_field_def kv Let_def)
    then show "distinct (map fst (snd e))" using assms vs by (auto simp: nested_distinct_def)
  qed
qed

lemma nested_lookup_index:
  "nested_lookup (index_field x fs (k, v)) k' v' =
   (if (k', v') = (k, v)
    then Some (push_ordinal x (case nested_lookup fs k v of None \<Rightarrow> [] | Some ps \<Rightarrow> ps))
    else nested_lookup fs k' v')"
  by (auto simp: nested_lookup_def index_field_def Let_def update_conv' split: option.splits)

text \<open>Folding over the fields of one record pushes its ordinal once for every pair it has.\<close>

lemma index_fields_fold:
  assumes "nested_distinct fs" "\<And>k v. x \<notin> set (old k v)"
    and "\<And>k v. nested_lookup fs k v =
      some_unless_empty (old k v @ (if (k, v) \<in> seen then [x] else []))"
  shows "nested_distinct (foldl (index_field x) fs kvs) \<and>
    (\<forall>k v. nested_lookup (foldl (index_field x) fs kvs) k v =
      some_unless_empty (old k v @ (if (k, v) \<in> seen \<union> set kvs then [x] else [])))"
  using assms(1,3)
proof (induction kvs arbitrary: fs seen)
  case (Cons kv kvs)
  obtain k v where kv: "kv = (k, v)" by (cases kv)
  have "(case nested_lookup fs k v of None \<Rightarrow> [] | Some ps \<Rightarrow> ps) =
      old k v @ (if (k, v) \<in> seen then [x] else [])"
    using Cons.prems(2) [of k v] by (simp add: some_unless_empty_def)
  then have "push_ordinal x (case nested_lookup fs k v of None \<Rightarrow> [] | Some ps \<Rightarrow> ps) = old k v @ [x]"
    using assms(2) [of k v] by (auto simp: push_ordinal_def)
  then have "nested_lookup (index_field x fs kv) k' v' =
      some_unless_empty (old k' v' @ (if (k', v') \<in> insert kv seen then [x] else []))" for k' v'
    using Cons.prems(2) [of k' v'] unfolding kv nested_lookup_index
    by (auto simp: some_unless_empty_def)
  from Cons.IH [OF nested_distinct_index [OF Cons.prems(1)] this] show ?case by simp
qed simp

lemma index_fields_ok:
  assumes "length rs < 2 ^ 32" "fields_ok rs fs"
  shows "fields_ok (rs @ [r]) (foldl (index_field (of_nat (length rs))) fs (view_fields r))"
proof -
  let ?n = "length rs"
  let ?old = "\<lambda>k v. ordinals (has_field_at rs k v) ?n"
  have fresh: "of_nat ?n \<notin> set (?old k v)" for k v
    using assms(1) by (simp add: set_ordinals unat_u32 [of ?n "Suc ?n"])
  have "ordinals (has_field_at (rs @ [r]) k v) ?n = ?old k v" for k v
    by (rule ordinals_cong) (simp add: nth_append)
  then have new: "ordinals (has_field_at (rs @ [r]) k v) (Suc ?n) =
      ?old k v @ (if (k, v) \<in> set (view_fields r) then [of_nat ?n] else [])" for k v
    by (simp add: ordinals_Suc)
  from index_fields_fold [of fs "of_nat ?n" ?old "{}" "view_fields r"] fresh assms(2)
  show ?thesis by (simp add: fields_ok_def new)
qed

section \<open>All records\<close>

definition build_ok :: "ucd \<Rightarrow> record_view list \<Rightarrow> block_build \<Rightarrow> bool" where
  "build_ok U rs st \<longleftrightarrow> messages_ok U rs st \<and> fields_ok rs (bb_field_postings st)"

lemma messages_ok_fields [simp]:
  "messages_ok U rs (st\<lparr>bb_field_postings := fs\<rparr>) = messages_ok U rs st"
  by (simp add: messages_ok_def table_ok_other cache_ok_def)

lemma index_record_ok:
  assumes "ucd_sane U" "length rs < 2 ^ 32" "build_ok U rs st"
  shows "build_ok U (rs @ [r]) (index_record U (of_nat (length rs)) st r)"
  using assms index_message_ok [of U rs st r] index_fields_ok [of rs _ r]
  by (simp add: build_ok_def index_record_def Let_def)

lemma index_records_ok:
  assumes "ucd_sane U" "build_ok U done st" "length done + length rs < 2 ^ 32"
  shows "\<exists>st'. index_records U (length done) st rs = Inr st' \<and> build_ok U (done @ rs) st'"
  using assms(2,3)
proof (induction rs arbitrary: "done" st)
  case (Cons r rs)
  have "build_ok U (done @ [r]) (index_record U (of_nat (length done)) st r)"
    using Cons.prems by (intro index_record_ok [OF assms(1)]) simp_all
  from Cons.IH [OF this] Cons.prems show ?case by (simp add: try_word_def ok_or_def)
qed simp

lemma build_init_ok: "build_ok U [] build_init"
  using filter_new
  by (simp add: build_ok_def messages_ok_def table_ok_def cache_ok_def filter_ok_def terms_ok_def
        fields_ok_def build_init_def nested_distinct_def nested_lookup_def some_unless_empty_def
        ordinals_def)

section \<open>Sealing\<close>

lemma collect_results_rel:
  "collect_results f xs = Inr ys \<longleftrightarrow> list_all2 (\<lambda>x y. f x = Inr y) xs ys"
  by (induction xs arbitrary: ys) (auto simp: and_then_eq_Inr list_all2_Cons1)

lemma collect_results_total:
  "(\<And>x. x \<in> set xs \<Longrightarrow> \<exists>y. f x = Inr y) \<Longrightarrow> \<exists>ys. collect_results f xs = Inr ys"
  by (induction xs) fastforce+

lemma seal_posting_Inr:
  "seal_posting (k, xs) = Inr (k', p) \<longleftrightarrow> k' = k \<and> from_ordinals xs = Inr p"
  by (auto simp: seal_posting_def and_then_eq_Inr)

text \<open>The posting stored for the records with a property, if there are any.\<close>

definition posting_for :: "(nat \<Rightarrow> bool) \<Rightarrow> nat \<Rightarrow> posting_list option \<Rightarrow> bool" where
  "posting_for P n q = (case q of
      None \<Rightarrow> ordinals P n = []
    | Some p \<Rightarrow> posting_ok p \<and> to_vec p = ordinals P n \<and> to_vec p \<noteq> [])"

lemma posting_for_ordinals:
  assumes "n < 2 ^ 32" "from_ordinals (ordinals P n) = Inr p"
  shows "posting_for P n (Some p)"
proof -
  have "x < - 1" if "x \<in> set (ordinals P n)" for x
    using that assms(1) by (simp add: set_ordinals u32_less_max)
  then show ?thesis using from_ordinals_ok [OF assms(2)] by (simp add: posting_for_def)
qed

lemma map_of_keyed:
  assumes "list_all2 (\<lambda>e f. fst f = fst e \<and> R (snd e) (snd f)) es fs"
  shows "map fst fs = map fst es" "rel_option R (map_of es k) (map_of fs k)"
proof -
  have "map fst fs = map fst es \<and> rel_option R (map_of es k) (map_of fs k)"
    using assms
  proof (induction es arbitrary: fs)
    case (Cons e es)
    then obtain f gs where "fs = f # gs" "fst f = fst e" "R (snd e) (snd f)"
      "map fst gs = map fst es" "rel_option R (map_of es k) (map_of gs k)"
      by (auto simp: list_all2_Cons1)
    then show ?case by (cases e; cases f) auto
  qed simp
  then show "map fst fs = map fst es" "rel_option R (map_of es k) (map_of fs k)" by simp_all
qed

lemma seal_keyed:
  assumes "collect_results seal_posting es = Inr ps"
  shows "map fst ps = map fst es" "rel_option (\<lambda>xs p. from_ordinals xs = Inr p) (map_of es k) (map_of ps k)"
proof -
  have "list_all2 (\<lambda>e f. fst f = fst e \<and> from_ordinals (snd e) = Inr (snd f)) es ps"
    using assms unfolding collect_results_rel
    by (rule list_all2_mono) (auto simp: seal_posting_def and_then_eq_Inr split: prod.splits)
  from map_of_keyed [OF this] show "map fst ps = map fst es"
    "rel_option (\<lambda>xs p. from_ordinals xs = Inr p) (map_of es k) (map_of ps k)" by simp_all
qed

text \<open>What a block index promises about the records it was built from.\<close>

definition block_index_ok :: "ucd \<Rightarrow> record_view list \<Rightarrow> block_query_index \<Rightarrow> bool" where
  "block_index_ok U rs bi \<longleftrightarrow>
     unat (bi_record_count bi) = length rs \<and> filter_ok U rs (bi_message_trigrams bi) \<and>
     distinct (map fst (bi_term_postings bi)) \<and>
     (\<forall>t. posting_for (has_term_at U rs t) (length rs) (map_of (bi_term_postings bi) t)) \<and>
     nested_distinct (bi_field_postings bi) \<and>
     (\<forall>k v. posting_for (has_field_at rs k v) (length rs) (nested_lookup (bi_field_postings bi) k v))"

lemma sealed_total:
  assumes "n \<le> 2 ^ 32" "\<And>k xs. (k, xs) \<in> set es \<Longrightarrow> xs \<noteq> [] \<and> (\<exists>P. xs = ordinals P n)"
  shows "\<exists>ps. collect_results seal_posting es = Inr ps"
proof (rule collect_results_total)
  fix e assume "e \<in> set es"
  then obtain k xs P where "e = (k, xs)" "xs \<noteq> []" "xs = ordinals P n"
    using assms(2) by (metis surj_pair)
  then show "\<exists>y. seal_posting e = Inr y"
    using from_ordinals_total [of xs] ascending_ordinals [OF assms(1), of P]
    by (auto simp: seal_posting_def)
qed

lemma sealed_terms:
  assumes ok: "build_ok U rs st" and n: "length rs < 2 ^ 32"
  shows "\<exists>ps. collect_results seal_posting (bb_term_entries st) = Inr ps \<and> distinct (map fst ps) \<and>
    (\<forall>t. posting_for (has_term_at U rs t) (length rs) (map_of ps t))"
proof -
  let ?es = "bb_term_entries st"
  have tab: "table_ok U st" and terms: "terms_ok U rs st" using ok by (auto simp: build_ok_def messages_ok_def)
  have entry: "entry_ok U rs e" if "e \<in> set ?es" for e
    using that terms by (auto simp: terms_ok_def in_set_conv_nth)
  have find: "bb_term_ids st t = Some i \<longleftrightarrow> i < length ?es \<and> fst (?es ! i) = t" for t i
    using tab by (simp add: table_ok_def)
  have dist: "distinct (map fst ?es)"
    unfolding distinct_conv_nth length_map
  proof (intro allI impI)
    fix i j assume ij: "i < length ?es" "j < length ?es" "i \<noteq> j"
    have "bb_term_ids st (fst (?es ! i)) = Some i" "bb_term_ids st (fst (?es ! j)) = Some j"
      using ij unfolding find by simp_all
    then show "map fst ?es ! i \<noteq> map fst ?es ! j" using ij by auto
  qed
  obtain ps where ps: "collect_results seal_posting ?es = Inr ps"
    using sealed_total [of "length rs" ?es] entry n by (fastforce simp: entry_ok_def)
  note sealed = seal_keyed [OF ps]
  have "posting_for (has_term_at U rs t) (length rs) (map_of ps t)" for t
  proof (cases "map_of ?es t")
    case None
    then have no: "bb_term_ids st t = None"
      using find [of t] by (metis map_of_eq_None_iff nth_mem imageI not_None_eq)
    have "\<not> has_term_at U rs t k" if "k < length rs" for k
      using terms no nth_mem [OF that] unfolding terms_ok_def by blast
    then show ?thesis using None sealed(2) [of t] by (simp add: posting_for_def ordinals_def)
  next
    case (Some xs)
    then have "entry_ok U rs (t, xs)" by (intro entry map_of_SomeD)
    then have "xs = ordinals (has_term_at U rs t) (length rs)" by (simp add: entry_ok_def)
    then show ?thesis using Some sealed(2) [of t] posting_for_ordinals [OF n]
      by (auto simp: option_rel_Some1)
  qed
  then show ?thesis using ps sealed(1) dist by metis
qed

lemma sealed_fields:
  assumes ok: "fields_ok rs fs" and n: "length rs < 2 ^ 32"
  shows "\<exists>gs. collect_results seal_values fs = Inr gs \<and> nested_distinct gs \<and>
    (\<forall>k v. posting_for (has_field_at rs k v) (length rs) (nested_lookup gs k v))"
proof -
  have dist: "distinct (map fst fs)" "\<And>k vs. (k, vs) \<in> set fs \<Longrightarrow> distinct (map fst vs)"
    using ok by (auto simp: fields_ok_def nested_distinct_def)
  have look: "nested_lookup fs k v = some_unless_empty (ordinals (has_field_at rs k v) (length rs))" for k v
    using ok by (simp add: fields_ok_def)
  have leaf: "xs \<noteq> [] \<and> xs = ordinals (has_field_at rs k v) (length rs)"
    if "(k, vs) \<in> set fs" "(v, xs) \<in> set vs" for k vs v xs
  proof -
    have "map_of fs k = Some vs" "map_of vs v = Some xs" using that dist by simp_all
    then show ?thesis using look [of k v] by (simp add: nested_lookup_def some_unless_empty_def split: if_splits)
  qed
  have "\<exists>y. seal_values e = Inr y" if "e \<in> set fs" for e
  proof -
    obtain k vs where e: "e = (k, vs)" by (cases e)
    have "\<exists>ps. collect_results seal_posting vs = Inr ps"
    proof (rule sealed_total)
      show "xs \<noteq> [] \<and> (\<exists>P. xs = ordinals P (length rs))" if "(v, xs) \<in> set vs" for v xs
        using leaf [of k vs v xs] that \<open>e \<in> set fs\<close> e by blast
    qed (use n in simp)
    then show ?thesis by (auto simp: seal_values_def e)
  qed
  then obtain gs where gs: "collect_results seal_values fs = Inr gs" using collect_results_total by blast
  have "list_all2 (\<lambda>e f. fst f = fst e \<and> collect_results seal_posting (snd e) = Inr (snd f)) fs gs"
    using iffD1 [OF collect_results_rel gs]
    by (rule list_all2_mono) (auto simp: seal_values_def and_then_eq_Inr split: prod.splits)
  note keyed = map_of_keyed [OF this] and all2 = this
  have "nested_distinct gs"
    unfolding nested_distinct_def
  proof (intro conjI ballI)
    show "distinct (map fst gs)" using keyed(1) dist(1) by simp
    fix g assume "g \<in> set gs"
    then obtain i where "i < length gs" "g = gs ! i" by (auto simp: in_set_conv_nth)
    then obtain e where "e \<in> set fs" "collect_results seal_posting (snd e) = Inr (snd g)"
      using list_all2_nthD2 [OF all2] list_all2_lengthD [OF all2] by (metis nth_mem)
    then show "distinct (map fst (snd g))"
      using seal_keyed(1) [of "snd e" "snd g"] dist(2) [of "fst e" "snd e"] by simp
  qed
  moreover have "posting_for (has_field_at rs k v) (length rs) (nested_lookup gs k v)" for k v
  proof (cases "nested_lookup fs k v")
    case None
    then have "nested_lookup gs k v = None"
      using keyed(2) [of k] seal_keyed(2) [of _ _ v]
      by (auto simp: nested_lookup_def option_rel_Some1 split: option.splits) fastforce
    then show ?thesis using None look [of k v]
      by (simp add: posting_for_def some_unless_empty_def split: if_splits)
  next
    case (Some xs)
    then obtain vs where vs: "map_of fs k = Some vs" "map_of vs v = Some xs"
      by (auto simp: nested_lookup_def split: option.splits)
    obtain ws where ws: "map_of gs k = Some ws" "collect_results seal_posting vs = Inr ws"
      using keyed(2) [of k] vs(1) by (auto simp: option_rel_Some1)
    obtain p where "map_of ws v = Some p" "from_ordinals xs = Inr p"
      using seal_keyed(2) [OF ws(2), of v] vs(2) by (auto simp: option_rel_Some1)
    moreover have "xs = ordinals (has_field_at rs k v) (length rs)"
      using Some look [of k v] by (simp add: some_unless_empty_def split: if_splits)
    ultimately show ?thesis using ws(1) posting_for_ordinals [OF n] by (simp add: nested_lookup_def)
  qed
  ultimately show ?thesis using gs by blast
qed

lemma block_index_build_ok:
  assumes "ucd_sane U" "length rs < 2 ^ 32"
  shows "\<exists>bi. block_index_build U rs = Inr bi \<and> block_index_ok U rs bi"
proof -
  obtain st where st: "index_records U 0 build_init rs = Inr st" "build_ok U rs st"
    using index_records_ok [OF assms(1) build_init_ok, of rs] assms(2) by auto
  obtain ps where ps: "collect_results seal_posting (bb_term_entries st) = Inr ps"
    "distinct (map fst ps)" "\<forall>t. posting_for (has_term_at U rs t) (length rs) (map_of ps t)"
    using sealed_terms [OF st(2) assms(2)] by blast
  obtain gs where gs: "collect_results seal_values (bb_field_postings st) = Inr gs" "nested_distinct gs"
    "\<forall>k v. posting_for (has_field_at rs k v) (length rs) (nested_lookup gs k v)"
    using sealed_fields [of rs "bb_field_postings st"] st(2) assms(2) by (auto simp: build_ok_def)
  have "filter_ok U rs (bb_trigrams st)" using st(2) by (simp add: build_ok_def messages_ok_def)
  moreover have "unat (of_nat (length rs) :: u32) = length rs" using assms(2) by (simp add: unat_of_nat)
  ultimately show ?thesis
    using st(1) ps gs assms(2)
    by (simp add: block_index_build_def block_index_ok_def try_word_def ok_or_def seal_values_def)
qed

section \<open>Terms of a query\<close>

lemma tokens_lower_stable:
  assumes "lower_stable U msg" "t \<in> set (scan_message_terms U msg)"
  shows "lower_stable U t"
  using assms tokens_in [of t "char_is_alphanumeric U" msg] set_mono_sublist [of t msg]
  by (auto simp: lower_stable_def scan_message_terms_tokens)

lemma message_has_term_normalized:
  assumes "ucd_sane U" "lower_stable U msg" "lower_stable U t"
  shows "message_has_term U msg t \<longleftrightarrow> normalize_term U t \<in> set (message_terms U msg)"
proof -
  have "text_equal U w t Insensitive \<longleftrightarrow> normalize_term U t = normalize_term U w"
    if "w \<in> set (scan_message_terms U msg)" for w
    using normalize_text_equal [OF assms(1) tokens_lower_stable [OF assms(2) that] assms(3)] by auto
  then show ?thesis
    by (auto simp: message_has_term_def message_terms_def list_ex_iff analyze_message_terms
          scan_message_terms_tokens)
qed

text \<open>No titlecase letter in the required terms of a query.\<close>

definition stable_query :: "ucd \<Rightarrow> log_query \<Rightarrow> bool" where
  "stable_query U q \<longleftrightarrow> (\<forall>t\<in>set (rc_terms (required_index_constraints q)). lower_stable U t)"

section \<open>The built index is exact\<close>

text \<open>C6: Building the index of fewer than \<open>2 ^ 32\<close> records always succeeds, and the caches of messages
  and terms never show: for every term, the posting holds exactly the ordinals of the records
  whose message contains the normalized term, for every key and value exactly those with that
  field, there is no posting without records, and the trigram filter holds exactly the trigrams
  of the messages.\<close>

theorem block_index_exact:
  assumes "ucd_sane U" "length rs < 2 ^ 32"
  shows "\<exists>bi. block_index_build U rs = Inr bi \<and> unat (bi_record_count bi) = length rs \<and>
    (\<forall>t. posting_for (\<lambda>k. t \<in> set (message_terms U (view_message (rs ! k)))) (length rs)
       (map_of (bi_term_postings bi) t)) \<and>
    (\<forall>key v. posting_for (\<lambda>k. (key, v) \<in> set (view_fields (rs ! k))) (length rs)
       (nested_lookup (bi_field_postings bi) key v)) \<and>
    (\<forall>t<MESSAGE_TRIGRAM_FILTER_BITS. filter_get (bi_message_trigrams bi) t \<longleftrightarrow>
       (\<exists>r\<in>set rs. t \<in> set (visit_normalized_trigrams U (view_message r))))"
  using block_index_build_ok [OF assms] by (auto simp: block_index_ok_def filter_ok_def)

lemma sample_ucd_sane: "ucd_sane sample_ucd"
  by (auto simp: ucd_sane_def sample_ucd_def split: if_splits)

theorem block_index_exact_witness:
  "\<exists>bi p. block_index_build sample_ucd
      [\<lparr>view_offset = 5, view_timestamp = 7, view_message = [65, 66], view_fields = []\<rparr>,
       \<lparr>view_offset = 6, view_timestamp = 7, view_message = [], view_fields = []\<rparr>] = Inr bi \<and>
    map_of (bi_term_postings bi) [97, 98] = Some p \<and> to_vec p = [0]"
proof -
  let ?rs = "[\<lparr>view_offset = 5, view_timestamp = 7, view_message = [65, 66], view_fields = []\<rparr>,
       \<lparr>view_offset = 6, view_timestamp = 7, view_message = [], view_fields = []\<rparr>]"
  have len: "length ?rs < 2 ^ 32" by simp
  obtain bi where bi: "block_index_build sample_ucd ?rs = Inr bi" and
    post: "\<forall>t. posting_for (\<lambda>k. t \<in> set (message_terms sample_ucd (view_message (?rs ! k)))) (length ?rs)
       (map_of (bi_term_postings bi) t)"
    using block_index_exact [OF sample_ucd_sane len] by blast
  have terms: "message_terms sample_ucd [65, 66] = [[97, 98]]" "message_terms sample_ucd [] = []"
    by code_simp+
  have "ordinals (\<lambda>k. [97, 98] \<in> set (message_terms sample_ucd (view_message (?rs ! k)))) (length ?rs) = [0]"
    using terms by (simp add: ordinals_def upt_rec)
  with post [THEN spec, of "[97, 98]"] obtain p
    where "map_of (bi_term_postings bi) [97, 98] = Some p" "to_vec p = [0]"
    unfolding posting_for_def by (cases "map_of (bi_term_postings bi) [97, 98]") auto
  with bi show ?thesis by blast
qed

text \<open>
  The restriction of indexed queries to stable terms is needed: a titlecase letter is not uppercase but changes in lowercase, so that a term holding one is
  indexed unchanged while exact evaluation compares it in lowercase.
\<close>

lemma titlecase_term_unindexed:
  "message_has_term sample_ucd [0x1C5] [0x1C6] \<and>
   normalize_term sample_ucd [0x1C6] \<notin> set (message_terms sample_ucd [0x1C5])"
  by code_simp

end
