(* ===== verification/Query_Index.thy ===== *)
theory Query_Index
  imports Block_Index
begin

text \<open>
  The immutable directory over sealed blocks (\<^verbatim>\<open>PersistentQueryIndex\<close> in
  \<^verbatim>\<open>src/query_index.rs\<close>): assembly from block indexes and the planning of candidate
  records and blocks for a query. Hash maps are association lists; no result depends on their
  order.
\<close>

section \<open>Entries of hash maps\<close>

text \<open>\<^verbatim>\<open>map.get(k)\<close> read as an empty vector when absent, \<^verbatim>\<open>entry(k).or_default()\<close>
  followed by a change of the vector or map.\<close>

definition lookup_list :: "('k \<times> 'v list) list \<Rightarrow> 'k \<Rightarrow> 'v list" where
  "lookup_list al k = (case map_of al k of None \<Rightarrow> [] | Some vs \<Rightarrow> vs)"

definition entry_or_default :: "'k \<Rightarrow> ('v list \<Rightarrow> 'v list) \<Rightarrow> ('k \<times> 'v list) list \<Rightarrow> ('k \<times> 'v list) list" where
  "entry_or_default k f al = AList.update k (f (lookup_list al k)) al"

abbreviation push_entry :: "'k \<Rightarrow> 'v \<Rightarrow> ('k \<times> 'v list) list \<Rightarrow> ('k \<times> 'v list) list" where
  "push_entry k x \<equiv> entry_or_default k (\<lambda>vs. vs @ [x])"

section \<open>The directory\<close>

record query_block_metadata =
  qb_block_ordinal :: u32
  qb_topic_partition :: topic_partition
  qb_first_offset :: logical_offset
  qb_last_offset :: logical_offset
  qb_min_timestamp :: u64
  qb_max_timestamp :: u64
  qb_record_count :: u32

record query_hit =
  hit_block_ordinal :: u32
  hit_record_ordinal :: u32

type_synonym term_block_postings = "(topic_partition \<times> (rstr \<times> block_posting list) list) list"
type_synonym field_block_postings =
  "(topic_partition \<times> (rstr \<times> (rstr \<times> block_posting list) list) list) list"

record persistent_query_index =
  pq_blocks :: "query_block_metadata list"
  pq_message_trigram_words :: "u64 list"
  pq_message_trigram_union :: trigram_filter
  pq_message_trigram_intersection :: trigram_filter
  pq_partition_blocks :: "(topic_partition \<times> u32 list) list"
  pq_term_postings :: term_block_postings
  pq_field_postings :: field_block_postings

definition metadata_valid :: "query_block_metadata \<Rightarrow> block_query_index \<Rightarrow> bool" where
  "metadata_valid m bi \<longleftrightarrow>
     \<not> (qb_record_count m \<noteq> bi_record_count bi \<or> qb_first_offset m > qb_last_offset m \<or>
        qb_min_timestamp m > qb_max_timestamp m)"

definition block_posting_at :: "query_block_metadata \<Rightarrow> posting_list \<Rightarrow> block_posting" where
  "block_posting_at m p = \<lparr>bp_block_ordinal = qb_block_ordinal m, bp_record_ordinals = p\<rparr>"

definition add_terms ::
  "query_block_metadata \<Rightarrow> (rstr \<times> posting_list) list \<Rightarrow> (rstr \<times> block_posting list) list \<Rightarrow>
   (rstr \<times> block_posting list) list" where
  "add_terms m ps terms = foldl (\<lambda>al (t, p). push_entry t (block_posting_at m p) al) terms ps"

definition add_fields ::
  "query_block_metadata \<Rightarrow> (rstr \<times> (rstr \<times> posting_list) list) list \<Rightarrow>
   (rstr \<times> (rstr \<times> block_posting list) list) list \<Rightarrow> (rstr \<times> (rstr \<times> block_posting list) list) list" where
  "add_fields m fs keys = foldl (\<lambda>al (k, vs). entry_or_default k (add_terms m vs) al) keys fs"

text \<open>One turn of the loop over the blocks.\<close>

definition add_block ::
  "persistent_query_index \<Rightarrow> query_block_metadata \<times> block_query_index \<Rightarrow> persistent_query_index log_db_result" where
  "add_block pq = (\<lambda>(m, bi).
     if \<not> metadata_valid m bi then Inl (InvalidBlockEncoding ''invalid query block metadata'')
     else Inr (pq\<lparr>
       pq_blocks := pq_blocks pq @ [m],
       pq_message_trigram_words := pq_message_trigram_words pq @ bi_message_trigrams bi,
       pq_partition_blocks :=
         push_entry (qb_topic_partition m) (qb_block_ordinal m) (pq_partition_blocks pq),
       pq_term_postings :=
         entry_or_default (qb_topic_partition m) (add_terms m (bi_term_postings bi)) (pq_term_postings pq),
       pq_field_postings :=
         entry_or_default (qb_topic_partition m) (add_fields m (bi_field_postings bi)) (pq_field_postings pq)\<rparr>))"

fun add_blocks ::
  "persistent_query_index \<Rightarrow> (query_block_metadata \<times> block_query_index) list \<Rightarrow> persistent_query_index log_db_result" where
  "add_blocks pq [] = Inr pq"
| "add_blocks pq (b # bs) = and_then (add_block pq b) (\<lambda>pq. add_blocks pq bs)"

definition empty_directory :: persistent_query_index where
  "empty_directory = \<lparr>pq_blocks = [], pq_message_trigram_words = [], pq_message_trigram_union = [],
     pq_message_trigram_intersection = [], pq_partition_blocks = [], pq_term_postings = [],
     pq_field_postings = []\<rparr>"

definition from_blocks ::
  "(query_block_metadata \<times> block_query_index) list \<Rightarrow> persistent_query_index log_db_result" where
  "from_blocks blocks =
     (let blocks = sort_by (\<lambda>a b. cmp (qb_block_ordinal (fst a)) (qb_block_ordinal (fst b))) blocks in
      if list_ex (\<lambda>p. qb_block_ordinal (fst (p ! 0)) = qb_block_ordinal (fst (p ! 1))) (windows 2 blocks)
      then Inl (InvalidBlockEncoding ''duplicate query block ordinal'')
      else and_then (add_blocks empty_directory blocks) (\<lambda>pq.
        let (u, i) = aggregate_message_trigrams (pq_message_trigram_words pq) in
        Inr (pq\<lparr>pq_message_trigram_union := u, pq_message_trigram_intersection := i\<rparr>)))"

section \<open>Pruning\<close>

definition pq_block :: "persistent_query_index \<Rightarrow> u32 \<Rightarrow> query_block_metadata option" where
  "pq_block pq b = find_by_key qb_block_ordinal b (pq_blocks pq)"

definition message_might_match :: "persistent_query_index \<Rightarrow> u32 \<Rightarrow> nat list \<Rightarrow> bool" where
  "message_might_match pq b slots =
     (case binary_search_by_key qb_block_ordinal b (pq_blocks pq) of
        Inl _ \<Rightarrow> False
      | Inr index \<Rightarrow>
          let start = saturating_mul index MESSAGE_TRIGRAM_FILTER_WORDS in
          list_all (\<lambda>slot. pq_message_trigram_words pq ! (start + slot div 64) AND push_bit (slot mod 64) 1 \<noteq> 0)
            slots)"

definition prepare_required_message_trigrams ::
  "ucd \<Rightarrow> persistent_query_index \<Rightarrow> rstr list \<Rightarrow> nat list option" where
  "prepare_required_message_trigrams U pq literals =
     (let slots = required_message_trigram_slots U literals in
      if \<not> might_contain_all (pq_message_trigram_union pq) slots then None
      else Some (filter (\<lambda>s. \<not> might_contain_all (pq_message_trigram_intersection pq) [s]) slots))"

definition block_overlaps :: "query_block_metadata \<Rightarrow> log_query \<Rightarrow> bool" where
  "block_overlaps m q \<longleftrightarrow>
     is_none_or (q_start_offset q) (\<lambda>s. qb_last_offset m \<ge> s) \<and>
     is_none_or (q_end_offset q) (\<lambda>e. qb_first_offset m < e) \<and>
     is_none_or (q_start_timestamp q) (\<lambda>s. qb_max_timestamp m \<ge> s) \<and>
     is_none_or (q_end_timestamp q) (\<lambda>e. qb_min_timestamp m < e)"

section \<open>Planning\<close>

text \<open>
  The posting vectors of all required terms and fields, or nothing when one of them is absent
  from the partition.
\<close>

definition term_blocks :: "ucd \<Rightarrow> persistent_query_index \<Rightarrow> topic_partition \<Rightarrow> rstr \<Rightarrow> block_posting list option" where
  "term_blocks U pq tp t = nested_lookup (pq_term_postings pq) tp (normalize_term U t)"

definition field_blocks :: "persistent_query_index \<Rightarrow> topic_partition \<Rightarrow> rstr \<times> rstr \<Rightarrow> block_posting list option" where
  "field_blocks pq tp = (\<lambda>(k, v).
     case map_of (pq_field_postings pq) tp of None \<Rightarrow> None | Some keys \<Rightarrow> nested_lookup keys k v)"

definition gather_constraints ::
  "ucd \<Rightarrow> persistent_query_index \<Rightarrow> log_query \<Rightarrow> block_posting list list option" where
  "gather_constraints U pq q =
     (let required = required_index_constraints q; tp = q_topic_partition q in
      those (map (term_blocks U pq tp) (rc_terms required) @ map (field_blocks pq tp) (rc_fields required)))"

abbreviation intersect_all_blocks :: "u32 list \<Rightarrow> block_posting list list \<Rightarrow> u32 list" where
  "intersect_all_blocks \<equiv> intersect_all intersect_block_ordinals"

definition sort_by_length :: "'a list list \<Rightarrow> 'a list list" where
  "sort_by_length = sort_by (\<lambda>a b. cmp (length a) (length b))"

text \<open>The surviving blocks, ascending by ordinal, before they are put in result order.\<close>

definition surviving_blocks ::
  "persistent_query_index \<Rightarrow> log_query \<Rightarrow> nat list \<Rightarrow> block_posting list list \<Rightarrow> u32 list" where
  "surviving_blocks pq q slots constraints =
     filter (\<lambda>b. (case pq_block pq b of None \<Rightarrow> False | Some m \<Rightarrow> block_overlaps m q) \<and>
         message_might_match pq b slots)
       (case sort_by_length constraints of
          [] \<Rightarrow> lookup_list (pq_partition_blocks pq) (q_topic_partition q)
        | first # rest \<Rightarrow> intersect_all_blocks (map bp_block_ordinal first) rest)"

text \<open>\<^verbatim>\<open>intersect_posting\<close> over the remaining postings, stopping at an empty vector.\<close>

abbreviation intersect_all_postings :: "u32 list \<Rightarrow> posting_list list \<Rightarrow> u32 list" where
  "intersect_all_postings \<equiv> intersect_all intersect_posting"

definition sort_by_cardinality :: "posting_list list \<Rightarrow> posting_list list" where
  "sort_by_cardinality = sort_by (\<lambda>a b. cmp (cardinality a) (cardinality b))"

text \<open>The ordinals taken from one block by \<^verbatim>\<open>candidate_hits\<close>.\<close>

definition block_ordinals :: "bool \<Rightarrow> nat \<Rightarrow> u32 \<Rightarrow> posting_list list \<Rightarrow> u32 list" where
  "block_ordinals newest remaining record_count constraints =
     (case constraints of
        [] \<Rightarrow> take remaining (in_order newest (word_range 0 record_count))
      | [p] \<Rightarrow> take_ordered p newest remaining
      | _ \<Rightarrow> (case sort_by_cardinality constraints of
          [] \<Rightarrow> []
        | first # rest \<Rightarrow>
            if saturating_mul remaining 8 < cardinality first
            then intersect_postings_limited first rest newest remaining
            else take remaining (in_order newest (intersect_all_postings (to_vec first) rest))))"

fun hits_loop ::
  "persistent_query_index \<Rightarrow> bool \<Rightarrow> nat \<Rightarrow> block_posting list list \<Rightarrow> query_hit list \<Rightarrow> u32 list \<Rightarrow> query_hit list" where
  "hits_loop pq newest safe_limit constraints hits [] = hits"
| "hits_loop pq newest safe_limit constraints hits (b # bs) =
     (case pq_block pq b of
        None \<Rightarrow> hits_loop pq newest safe_limit constraints hits bs
      | Some m \<Rightarrow>
          (case those (map (\<lambda>c. posting_for_block c b) constraints) of
             None \<Rightarrow> hits_loop pq newest safe_limit constraints hits bs
           | Some ps \<Rightarrow>
               let remaining = safe_limit - length hits;
                   ords = block_ordinals newest remaining (qb_record_count m) ps;
                   hits = hits @ map (\<lambda>r. \<lparr>hit_block_ordinal = b, hit_record_ordinal = r\<rparr>) (take remaining ords)
               in if length hits \<ge> safe_limit then hits
                  else hits_loop pq newest safe_limit constraints hits bs))"

definition candidate_hits :: "ucd \<Rightarrow> persistent_query_index \<Rightarrow> log_query \<Rightarrow> query_hit list" where
  "candidate_hits U pq q =
     (if q_limit q = Some 0 \<or> has_invalid_range q then []
      else let required = required_index_constraints q in
        if rc_impossible required then []
        else case prepare_required_message_trigrams U pq (rc_message_literals required) of
          None \<Rightarrow> []
        | Some slots \<Rightarrow>
            (case gather_constraints U pq q of
               None \<Rightarrow> []
             | Some constraints \<Rightarrow>
                 let newest = (q_order q = NewestFirst);
                     blocks = in_order newest (surviving_blocks pq q slots constraints);
                     safe_limit = (case (if can_apply_index_limit q then q_limit q else None) of
                         None \<Rightarrow> usize_max | Some l \<Rightarrow> l)
                 in hits_loop pq newest safe_limit (sort_by_length constraints) [] blocks))"

definition cmp_option :: "'a::linorder option \<Rightarrow> 'a option \<Rightarrow> ordering" where
  "cmp_option a b = (case (a, b) of (None, None) \<Rightarrow> Equal | (None, Some _) \<Rightarrow> Less
     | (Some _, None) \<Rightarrow> Greater | (Some x, Some y) \<Rightarrow> cmp x y)"

definition candidate_blocks :: "ucd \<Rightarrow> persistent_query_index \<Rightarrow> log_query \<Rightarrow> u32 list" where
  "candidate_blocks U pq q =
     (if q_limit q = Some 0 \<or> has_invalid_range q then []
      else let required = required_index_constraints q in
        if rc_impossible required then []
        else case prepare_required_message_trigrams U pq (rc_message_literals required) of
          None \<Rightarrow> []
        | Some slots \<Rightarrow>
            (case gather_constraints U pq q of
               None \<Rightarrow> []
             | Some constraints \<Rightarrow>
                 in_order (q_order q = NewestFirst)
                   (sort_by (\<lambda>a b. cmp_option (map_option qb_first_offset (pq_block pq a))
                        (map_option qb_first_offset (pq_block pq b)))
                     (surviving_blocks pq q slots constraints))))"

definition candidate_hits_in_block :: "ucd \<Rightarrow> persistent_query_index \<Rightarrow> log_query \<Rightarrow> u32 \<Rightarrow> query_hit list" where
  "candidate_hits_in_block U pq q b =
     (if q_limit q = Some 0 \<or> has_invalid_range q then []
      else case pq_block pq b of
        None \<Rightarrow> []
      | Some m \<Rightarrow>
          if qb_topic_partition m \<noteq> q_topic_partition q \<or> \<not> block_overlaps m q then []
          else let required = required_index_constraints q in
            if rc_impossible required then []
            else case prepare_required_message_trigrams U pq (rc_message_literals required) of
              None \<Rightarrow> []
            | Some slots \<Rightarrow>
                if \<not> message_might_match pq b slots then []
                else case those
                    (map (\<lambda>t. Option.bind (term_blocks U pq (q_topic_partition q) t) (\<lambda>ps. posting_for_block ps b))
                       (rc_terms required) @
                     map (\<lambda>f. Option.bind (field_blocks pq (q_topic_partition q) f) (\<lambda>ps. posting_for_block ps b))
                       (rc_fields required)) of
                  None \<Rightarrow> []
                | Some constraints \<Rightarrow>
                    map (\<lambda>r. \<lparr>hit_block_ordinal = b, hit_record_ordinal = r\<rparr>)
                      (in_order (q_order q = NewestFirst)
                        (case sort_by_cardinality constraints of
                           [] \<Rightarrow> word_range 0 (qb_record_count m)
                         | first # rest \<Rightarrow> intersect_all_postings (to_vec first) rest)))"

end
