(* ===== verification/Query_Plan.thy ===== *)
theory Query_Plan
  imports Query_Index
begin

text \<open>
  Correctness of the sealed directory of \<^verbatim>\<open>src/query_index.rs\<close>: the directory
  assembled from block indexes represents exactly the records of its blocks, planning returns
  every record that can match, and a query answered from the planned candidates gives the same
  result as a scan of all records of the partition.
\<close>

section \<open>Hash map entries\<close>

lemma map_of_entry:
  "map_of (entry_or_default k f al) k' = (if k' = k then Some (f (lookup_list al k)) else map_of al k')"
  by (simp add: entry_or_default_def update_conv')

lemma lookup_entry:
  "lookup_list (entry_or_default k f al) k' = (if k' = k then f (lookup_list al k) else lookup_list al k')"
  by (simp add: lookup_list_def map_of_entry)

lemma lookup_empty [simp]: "lookup_list [] k = []"
  by (simp add: lookup_list_def)

lemma nested_lookup_list:
  "nested_lookup al k v = Some x \<Longrightarrow> lookup_list (lookup_list al k) v = x"
  "nested_lookup al k v = None \<Longrightarrow> lookup_list (lookup_list al k) v = []"
  by (auto simp: nested_lookup_def lookup_list_def split: option.splits)

section \<open>Sealed blocks and the postings they contribute\<close>

text \<open>A sealed block: its metadata, the records it holds, and the index built from them.\<close>

record sealed_block =
  sb_meta :: query_block_metadata
  sb_records :: "record_view list"
  sb_index :: block_query_index

abbreviation sb_ordinal :: "sealed_block \<Rightarrow> u32" where
  "sb_ordinal b \<equiv> qb_block_ordinal (sb_meta b)"

abbreviation sb_partition :: "sealed_block \<Rightarrow> topic_partition" where
  "sb_partition b \<equiv> qb_topic_partition (sb_meta b)"

definition contributed ::
  "topic_partition \<Rightarrow> (sealed_block \<Rightarrow> posting_list option) \<Rightarrow> sealed_block \<Rightarrow> block_posting list" where
  "contributed tp f b =
     (if sb_partition b = tp
      then case f b of None \<Rightarrow> [] | Some p \<Rightarrow> [block_posting_at (sb_meta b) p] else [])"

abbreviation postings_of ::
  "topic_partition \<Rightarrow> (sealed_block \<Rightarrow> posting_list option) \<Rightarrow> sealed_block list \<Rightarrow> block_posting list" where
  "postings_of tp f bs \<equiv> concat (map (contributed tp f) bs)"

lemma block_posting_at_eq:
  "bp = block_posting_at m p \<longleftrightarrow> bp_block_ordinal bp = qb_block_ordinal m \<and> bp_record_ordinals bp = p"
  by (auto simp: block_posting_at_def)

lemma set_contributed:
  "bp \<in> set (contributed tp f b) \<longleftrightarrow>
   sb_partition b = tp \<and> f b = Some (bp_record_ordinals bp) \<and> bp_block_ordinal bp = sb_ordinal b"
proof (cases "f b")
  case None
  then show ?thesis unfolding contributed_def by (cases "sb_partition b = tp") simp_all
next
  case (Some p)
  then show ?thesis
    unfolding contributed_def
    by (cases "sb_partition b = tp")
       (simp_all only: block_posting_at_eq list.set if_True if_False option.case option.inject
          singleton_iff empty_iff simp_thms, auto)
qed

lemma set_postings_of:
  "bp \<in> set (postings_of tp f bs) \<longleftrightarrow>
   (\<exists>b\<in>set bs. sb_partition b = tp \<and> f b = Some (bp_record_ordinals bp) \<and> bp_block_ordinal bp = sb_ordinal b)"
  unfolding set_concat set_map set_contributed [symmetric] by blast

lemma contributed_ordinals: "map bp_block_ordinal (contributed tp f b) \<in> {[], [sb_ordinal b]}"
  by (auto simp: contributed_def block_posting_at_def split: option.splits)

lemma ascending_postings_of:
  "ascending (map sb_ordinal bs) \<Longrightarrow> ascending (map bp_block_ordinal (postings_of tp f bs))"
proof (induction bs)
  case (Cons b bs)
  have "sb_ordinal b < bp_block_ordinal bp" if "bp \<in> set (postings_of tp f bs)" for bp
    using that Cons.prems unfolding set_postings_of by auto
  then have less: "\<forall>k\<in>set (map bp_block_ordinal (postings_of tp f bs)). sb_ordinal b < k" by auto
  have "map bp_block_ordinal (postings_of tp f (b # bs)) =
      map bp_block_ordinal (contributed tp f b) @ map bp_block_ordinal (postings_of tp f bs)" by simp
  then show ?case
    using Cons less contributed_ordinals [of tp f b] unfolding sorted_wrt_append by fastforce
qed simp

lemma posting_for_postings_of:
  assumes "ascending (map sb_ordinal bs)" "b \<in> set bs" "sb_partition b = tp"
  shows "posting_for_block (postings_of tp f bs) (sb_ordinal b) = f b"
proof -
  note asc = ascending_postings_of [OF assms(1), of tp f]
  have uniq: "b' = b" if "b' \<in> set bs" "sb_ordinal b' = sb_ordinal b" for b'
  proof -
    have "distinct (map sb_ordinal bs)" using assms(1) by (simp add: strict_sorted_iff)
    then show ?thesis using that assms(2) by (auto simp: distinct_map inj_on_def)
  qed
  show ?thesis
  proof (cases "f b")
    case None
    have "bp_block_ordinal bp \<noteq> sb_ordinal b" if "bp \<in> set (postings_of tp f bs)" for bp
      using that None uniq unfolding set_postings_of by fastforce
    then have "posting_for_block (postings_of tp f bs) (sb_ordinal b) = None"
      unfolding posting_for_block_None [OF asc] by (metis imageE)
    then show ?thesis using None by simp
  next
    case (Some p)
    have "block_posting_at (sb_meta b) p \<in> set (postings_of tp f bs)"
      using Some assms(2,3) unfolding set_postings_of by (auto simp: block_posting_at_def)
    then have "posting_for_block (postings_of tp f bs) (sb_ordinal b) = Some p"
      unfolding posting_for_block_Some [OF asc]
      by (rule bexI [rotated]) (simp add: block_posting_at_def)
    then show ?thesis using Some by simp
  qed
qed

section \<open>Assembly\<close>

lemma add_terms_lookup:
  "distinct (map fst ps) \<Longrightarrow> lookup_list (add_terms m ps al) t =
   lookup_list al t @ (case map_of ps t of None \<Rightarrow> [] | Some p \<Rightarrow> [block_posting_at m p])"
proof (induction ps arbitrary: al)
  case (Cons e ps)
  obtain t' p where e: "e = (t', p)" by (cases e)
  have "add_terms m (e # ps) al = add_terms m ps (push_entry t' (block_posting_at m p) al)"
    by (simp add: add_terms_def e)
  moreover have "map_of ps t' = None" using Cons.prems by (simp add: e map_of_eq_None_iff)
  ultimately show ?case using Cons by (auto simp: e lookup_entry)
qed (simp add: add_terms_def)

lemma add_fields_lookup:
  "distinct (map fst fs) \<Longrightarrow> lookup_list (add_fields m fs al) k =
   (case map_of fs k of None \<Rightarrow> lookup_list al k | Some vs \<Rightarrow> add_terms m vs (lookup_list al k))"
proof (induction fs arbitrary: al)
  case (Cons e fs)
  obtain k' vs where e: "e = (k', vs)" by (cases e)
  have "add_fields m (e # fs) al = add_fields m fs (entry_or_default k' (add_terms m vs) al)"
    by (simp add: add_fields_def e)
  moreover have "map_of fs k' = None" using Cons.prems by (simp add: e map_of_eq_None_iff)
  ultimately show ?case using Cons by (auto simp: e lookup_entry split: option.splits)
qed (simp add: add_fields_def)

lemma add_fields_nested:
  assumes "nested_distinct fs"
  shows "lookup_list (lookup_list (add_fields m fs al) k) v =
    lookup_list (lookup_list al k) v @
    (case nested_lookup fs k v of None \<Rightarrow> [] | Some p \<Rightarrow> [block_posting_at m p])"
proof (cases "map_of fs k")
  case None
  then show ?thesis using assms by (simp add: add_fields_lookup nested_distinct_def nested_lookup_def)
next
  case (Some vs)
  then have "distinct (map fst vs)"
    using assms map_of_SomeD [OF Some] by (auto simp: nested_distinct_def)
  then show ?thesis using assms Some
    by (simp add: add_fields_lookup add_terms_lookup nested_distinct_def nested_lookup_def)
qed

text \<open>The directory holds exactly what the blocks contribute.\<close>

abbreviation term_of :: "rstr \<Rightarrow> sealed_block \<Rightarrow> posting_list option" where
  "term_of t b \<equiv> map_of (bi_term_postings (sb_index b)) t"

abbreviation field_of :: "rstr \<Rightarrow> rstr \<Rightarrow> sealed_block \<Rightarrow> posting_list option" where
  "field_of k v b \<equiv> nested_lookup (bi_field_postings (sb_index b)) k v"

definition holds_blocks :: "persistent_query_index \<Rightarrow> sealed_block list \<Rightarrow> bool" where
  "holds_blocks pq bs \<longleftrightarrow>
     pq_blocks pq = map sb_meta bs \<and>
     pq_message_trigram_words pq = concat (map (bi_message_trigrams \<circ> sb_index) bs) \<and>
     (\<forall>tp. lookup_list (pq_partition_blocks pq) tp =
        map sb_ordinal (filter (\<lambda>b. sb_partition b = tp) bs)) \<and>
     (\<forall>tp t. lookup_list (lookup_list (pq_term_postings pq) tp) t = postings_of tp (term_of t) bs) \<and>
     (\<forall>tp k v. lookup_list (lookup_list (lookup_list (pq_field_postings pq) tp) k) v =
        postings_of tp (field_of k v) bs)"

definition sealed_ok :: "ucd \<Rightarrow> sealed_block \<Rightarrow> bool" where
  "sealed_ok U b \<longleftrightarrow>
     block_index_ok U (sb_records b) (sb_index b) \<and> unat (qb_record_count (sb_meta b)) = length (sb_records b) \<and>
     (\<forall>r\<in>set (sb_records b).
        qb_first_offset (sb_meta b) \<le> view_offset r \<and> view_offset r \<le> qb_last_offset (sb_meta b) \<and>
        qb_min_timestamp (sb_meta b) \<le> view_timestamp r \<and> view_timestamp r \<le> qb_max_timestamp (sb_meta b))"

lemma add_block_holds:
  assumes "holds_blocks pq bs" "sealed_ok U b" "add_block pq (sb_meta b, sb_index b) = Inr pq'"
  shows "holds_blocks pq' (bs @ [b])"
proof -
  have dist: "distinct (map fst (bi_term_postings (sb_index b)))"
    "nested_distinct (bi_field_postings (sb_index b))"
    using assms(2) by (simp_all add: sealed_ok_def block_index_ok_def)
  have pq': "pq' = pq\<lparr>
       pq_blocks := pq_blocks pq @ [sb_meta b],
       pq_message_trigram_words := pq_message_trigram_words pq @ bi_message_trigrams (sb_index b),
       pq_partition_blocks := push_entry (sb_partition b) (sb_ordinal b) (pq_partition_blocks pq),
       pq_term_postings := entry_or_default (sb_partition b)
         (add_terms (sb_meta b) (bi_term_postings (sb_index b))) (pq_term_postings pq),
       pq_field_postings := entry_or_default (sb_partition b)
         (add_fields (sb_meta b) (bi_field_postings (sb_index b))) (pq_field_postings pq)\<rparr>"
    using assms(3) by (auto simp: add_block_def split: if_splits)
  show ?thesis
    using assms(1) dist unfolding holds_blocks_def pq'
    by (simp add: lookup_entry add_terms_lookup add_fields_nested contributed_def del: split_paired_All)
qed

lemma add_blocks_holds:
  assumes "holds_blocks pq done" "\<forall>b\<in>set bs. sealed_ok U b"
    and "add_blocks pq (map (\<lambda>b. (sb_meta b, sb_index b)) bs) = Inr pq'"
  shows "holds_blocks pq' (done @ bs)"
  using assms
proof (induction bs arbitrary: pq "done")
  case (Cons b bs)
  then obtain q where q: "add_block pq (sb_meta b, sb_index b) = Inr q"
    "add_blocks q (map (\<lambda>b. (sb_meta b, sb_index b)) bs) = Inr pq'"
    by (auto simp: and_then_eq_Inr)
  have "holds_blocks q (done @ [b])"
    by (rule add_block_holds [OF Cons.prems(1) _ q(1), of U]) (use Cons.prems(2) in simp)
  from Cons.IH [OF this _ q(2)] Cons.prems(2) show ?case by simp
qed simp

definition directory :: "ucd \<Rightarrow> sealed_block list \<Rightarrow> persistent_query_index \<Rightarrow> bool" where
  "directory U bs pq \<longleftrightarrow>
     ascending (map sb_ordinal bs) \<and> (\<forall>b\<in>set bs. sealed_ok U b) \<and> holds_blocks pq bs \<and>
     (pq_message_trigram_union pq, pq_message_trigram_intersection pq) =
       aggregate_message_trigrams (pq_message_trigram_words pq)"

lemma holds_blocks_aggregate [simp]:
  "holds_blocks (pq\<lparr>pq_message_trigram_union := u, pq_message_trigram_intersection := i\<rparr>) bs =
   holds_blocks pq bs"
  by (simp add: holds_blocks_def)

lemma from_blocks_directory:
  assumes "from_blocks (map (\<lambda>b. (sb_meta b, sb_index b)) bs) = Inr pq" "\<forall>b\<in>set bs. sealed_ok U b"
  shows "directory U (sort_by (\<lambda>a b. cmp (sb_ordinal a) (sb_ordinal b)) bs) pq"
proof -
  let ?f = "\<lambda>b. (sb_meta b, sb_index b)"
  let ?c = "\<lambda>a b :: query_block_metadata \<times> block_query_index. cmp (qb_block_ordinal (fst a)) (qb_block_ordinal (fst b))"
  let ?ds = "sort_by (\<lambda>a b. cmp (sb_ordinal a) (sb_ordinal b)) bs"
  have sorted: "sort_by ?c (map ?f bs) = map ?f ?ds"
    using sort_by_map [of ?f ?c bs] by simp
  obtain q where nodup: "\<not> list_ex (\<lambda>p. qb_block_ordinal (fst (p ! 0)) = qb_block_ordinal (fst (p ! 1))) (windows 2 (map ?f ?ds))"
    and q: "add_blocks empty_directory (map ?f ?ds) = Inr q"
    and pq: "pq = (let (u, i) = aggregate_message_trigrams (pq_message_trigram_words q) in
      q\<lparr>pq_message_trigram_union := u, pq_message_trigram_intersection := i\<rparr>)"
    using assms(1) unfolding from_blocks_def sorted Let_def
    by (auto simp: and_then_eq_Inr split_beta split: if_splits)
  have le: "sorted_wrt (\<lambda>a b. sb_ordinal a \<le> sb_ordinal b) ?ds" by (rule sorted_by_key)
  have "sb_ordinal (?ds ! i) < sb_ordinal (?ds ! Suc i)" if "Suc i < length ?ds" for i
  proof -
    have "sb_ordinal (?ds ! i) \<noteq> sb_ordinal (?ds ! Suc i)"
      using nodup that unfolding windows_adjacent by auto
    moreover have "sb_ordinal (?ds ! i) \<le> sb_ordinal (?ds ! Suc i)"
      using le that by (simp add: sorted_wrt_iff_nth_less)
    ultimately show ?thesis by simp
  qed
  then have asc: "ascending (map sb_ordinal ?ds)"
    by (simp add: sorted_wrt_iff_nth_Suc_transp transp_on_less)
  have "holds_blocks empty_directory []"
    by (simp add: holds_blocks_def empty_directory_def)
  from add_blocks_holds [OF this _ q] assms(2) have "holds_blocks q ?ds" by simp
  then show ?thesis
    unfolding directory_def pq using asc assms(2) by (simp add: split_beta)
qed

section \<open>Constraints as properties of records\<close>

type_synonym record_prop = "sealed_block \<Rightarrow> nat \<Rightarrow> bool"

definition term_prop :: "ucd \<Rightarrow> rstr \<Rightarrow> record_prop" where
  "term_prop U t b k \<longleftrightarrow> has_term_at U (sb_records b) (normalize_term U t) k"

definition field_prop :: "rstr \<times> rstr \<Rightarrow> record_prop" where
  "field_prop kv b k \<longleftrightarrow> kv \<in> set (view_fields (sb_records b ! k))"

definition required_props :: "ucd \<Rightarrow> log_query \<Rightarrow> record_prop list" where
  "required_props U q =
     map (term_prop U) (rc_terms (required_index_constraints q)) @
     map field_prop (rc_fields (required_index_constraints q))"

text \<open>A posting vector represents a property when every block contributes its posting.\<close>

definition represents ::
  "topic_partition \<Rightarrow> sealed_block list \<Rightarrow> record_prop \<Rightarrow> block_posting list \<Rightarrow> bool" where
  "represents tp bs P c \<longleftrightarrow>
     (\<exists>f. c = postings_of tp f bs \<and> (\<forall>b\<in>set bs. posting_for (P b) (length (sb_records b)) (f b)))"

lemma directory_simps:
  assumes "directory U bs pq"
  shows "ascending (map sb_ordinal bs)" "b \<in> set bs \<Longrightarrow> sealed_ok U b"
    "pq_blocks pq = map sb_meta bs"
    "lookup_list (pq_partition_blocks pq) tp = map sb_ordinal (filter (\<lambda>b. sb_partition b = tp) bs)"
    "lookup_list (lookup_list (pq_term_postings pq) tp) t = postings_of tp (term_of t) bs"
    "lookup_list (lookup_list (lookup_list (pq_field_postings pq) tp) k) v = postings_of tp (field_of k v) bs"
  using assms unfolding directory_def holds_blocks_def by blast+

lemma sealed_ok_count:
  assumes "sealed_ok U b"
  shows "unat (qb_record_count (sb_meta b)) = length (sb_records b)" "length (sb_records b) < 2 ^ 32"
proof -
  show "unat (qb_record_count (sb_meta b)) = length (sb_records b)" using assms by (simp add: sealed_ok_def)
  then show "length (sb_records b) < 2 ^ 32" using unat_bound [of "qb_record_count (sb_meta b)"] by simp
qed

lemma term_represented:
  assumes "directory U bs pq"
  shows "represents tp bs (term_prop U t) (case term_blocks U pq tp t of None \<Rightarrow> [] | Some c \<Rightarrow> c)"
proof -
  have "(case term_blocks U pq tp t of None \<Rightarrow> [] | Some c \<Rightarrow> c) =
      postings_of tp (term_of (normalize_term U t)) bs"
    unfolding term_blocks_def directory_simps(5) [OF assms, symmetric]
    by (cases "nested_lookup (pq_term_postings pq) tp (normalize_term U t)")
       (simp_all add: nested_lookup_list)
  moreover have "posting_for (term_prop U t b) (length (sb_records b)) (term_of (normalize_term U t) b)"
    if "b \<in> set bs" for b
    using directory_simps(2) [OF assms that]
    by (simp add: sealed_ok_def block_index_ok_def term_prop_def [abs_def])
  ultimately show ?thesis unfolding represents_def by blast
qed

lemma field_represented:
  assumes "directory U bs pq"
  shows "represents tp bs (field_prop kv) (case field_blocks pq tp kv of None \<Rightarrow> [] | Some c \<Rightarrow> c)"
proof -
  obtain k v where kv: "kv = (k, v)" by (cases kv)
  have "(case field_blocks pq tp kv of None \<Rightarrow> [] | Some c \<Rightarrow> c) =
      lookup_list (lookup_list (lookup_list (pq_field_postings pq) tp) k) v"
  proof (cases "map_of (pq_field_postings pq) tp")
    case None
    then show ?thesis by (simp add: field_blocks_def kv lookup_list_def)
  next
    case (Some keys)
    then have "lookup_list (pq_field_postings pq) tp = keys" by (simp add: lookup_list_def)
    then show ?thesis using Some
      by (cases "nested_lookup keys k v") (simp_all add: field_blocks_def kv nested_lookup_list)
  qed
  then have "(case field_blocks pq tp kv of None \<Rightarrow> [] | Some c \<Rightarrow> c) = postings_of tp (field_of k v) bs"
    unfolding directory_simps(6) [OF assms] .
  moreover have "posting_for (field_prop kv b) (length (sb_records b)) (field_of k v b)"
    if "b \<in> set bs" for b
    using directory_simps(2) [OF assms that]
    by (simp add: sealed_ok_def block_index_ok_def field_prop_def [abs_def] kv)
  ultimately show ?thesis unfolding represents_def by blast
qed

lemma those_Some: "those xs = Some ys \<longleftrightarrow> xs = map Some ys"
proof (induction xs arbitrary: ys)
  case (Cons x xs)
  then show ?case by (cases x; cases ys) auto
qed auto

lemma those_None: "those xs = None \<longleftrightarrow> None \<in> set xs"
  by (induction xs) (auto split: option.splits)

lemma gather_Some:
  assumes "directory U bs pq" "gather_constraints U pq q = Some cs"
  shows "list_all2 (represents (q_topic_partition q) bs) (required_props U q) cs"
proof -
  let ?tp = "q_topic_partition q" and ?r = "required_index_constraints q"
  have eq: "map (term_blocks U pq ?tp) (rc_terms ?r) @ map (field_blocks pq ?tp) (rc_fields ?r) = map Some cs"
    using assms(2) by (simp add: gather_constraints_def Let_def those_Some)
  have "cs = map (\<lambda>q. case q of None \<Rightarrow> [] | Some c \<Rightarrow> c)
      (map (term_blocks U pq ?tp) (rc_terms ?r) @ map (field_blocks pq ?tp) (rc_fields ?r))"
    unfolding eq by (simp add: comp_def)
  then show ?thesis
    using term_represented [OF assms(1)] field_represented [OF assms(1)]
    by (auto simp: required_props_def list_all2_append list_all2_map1 list_all2_map2 list.rel_refl)
qed

lemma gather_None:
  assumes "directory U bs pq" "gather_constraints U pq q = None"
  shows "\<exists>P\<in>set (required_props U q). represents (q_topic_partition q) bs P []"
proof -
  let ?tp = "q_topic_partition q" and ?r = "required_index_constraints q"
  from assms(2) consider t where "t \<in> set (rc_terms ?r)" "term_blocks U pq ?tp t = None"
    | f where "f \<in> set (rc_fields ?r)" "field_blocks pq ?tp f = None"
    by (auto simp: gather_constraints_def Let_def those_None)
  then show ?thesis
  proof cases
    case 1
    then show ?thesis using term_represented [OF assms(1), of ?tp t] by (auto simp: required_props_def)
  next
    case 2
    then show ?thesis using field_represented [OF assms(1), of ?tp f] by (auto simp: required_props_def)
  qed
qed

lemma represents_block:
  assumes "represents tp bs P c" "ascending (map sb_ordinal bs)" "b \<in> set bs" "sb_partition b = tp"
  shows "posting_for (P b) (length (sb_records b)) (posting_for_block c (sb_ordinal b))"
  using assms posting_for_postings_of [OF assms(2-4)] by (auto simp: represents_def)

lemma posting_for_None: "posting_for P n None \<longleftrightarrow> (\<forall>k<n. \<not> P k)"
  by (auto simp: posting_for_def ordinals_def filter_empty_conv)

lemma represents_ordinals:
  assumes "represents tp bs P c"
  shows "\<exists>g. map bp_block_ordinal c = map sb_ordinal (filter (\<lambda>b. sb_partition b = tp \<and> g b) bs) \<and>
    (\<forall>b\<in>set bs. \<not> g b \<longrightarrow> (\<forall>k<length (sb_records b). \<not> P b k))"
proof -
  obtain f where f: "c = postings_of tp f bs"
    "\<forall>b\<in>set bs. posting_for (P b) (length (sb_records b)) (f b)"
    using assms by (auto simp: represents_def)
  have "map bp_block_ordinal (postings_of tp f bs) =
      map sb_ordinal (filter (\<lambda>b. sb_partition b = tp \<and> f b \<noteq> None) bs)"
    by (induction bs) (auto simp: contributed_def block_posting_at_def split: option.splits)
  then show ?thesis
    using f posting_for_None by (intro exI [of _ "\<lambda>b. f b \<noteq> None"]) auto
qed

section \<open>Ordinals of one block\<close>

text \<open>Whatever posting comes first, the common ordinals are those with all properties.\<close>

lemma common_ordinals:
  assumes "n \<le> 2 ^ 32" "list_all2 (\<lambda>P p. posting_for P n (Some p)) Ps (first # rest)"
  shows "filter (\<lambda>x. \<forall>p\<in>set rest. x \<in> set (to_vec p)) (to_vec first) =
    ordinals (\<lambda>k. \<forall>P\<in>set Ps. P k) n"
proof (rule ascending_unique)
  from assms(2) obtain P Qs where Ps: "Ps = P # Qs" "posting_for P n (Some first)"
    "list_all2 (\<lambda>P p. posting_for P n (Some p)) Qs rest"
    by (auto simp: list_all2_Cons2)
  have vec: "to_vec first = ordinals P n" using Ps(2) by (simp add: posting_for_def)
  show "ascending (filter (\<lambda>x. \<forall>p\<in>set rest. x \<in> set (to_vec p)) (to_vec first))"
    unfolding vec by (rule sorted_wrt_filter [OF ascending_ordinals [OF assms(1)]])
  show "ascending (ordinals (\<lambda>k. \<forall>P\<in>set Ps. P k) n)" by (rule ascending_ordinals [OF assms(1)])
  have rest: "(\<forall>p\<in>set rest. x \<in> set (to_vec p)) \<longleftrightarrow> (\<forall>Q\<in>set Qs. Q (unat x))" if "unat x < n" for x
    using Ps(3)
  proof (induction Qs rest rule: list_all2_induct)
    case (Cons Q Qs p ps)
    then have "x \<in> set (to_vec p) \<longleftrightarrow> Q (unat x)"
      using that set_ordinals [OF assms(1), of Q] by (simp add: posting_for_def)
    with Cons.IH show ?case by simp
  qed simp
  show "set (filter (\<lambda>x. \<forall>p\<in>set rest. x \<in> set (to_vec p)) (to_vec first)) =
      set (ordinals (\<lambda>k. \<forall>P\<in>set Ps. P k) n)"
    unfolding vec Ps(1) using rest by (auto simp: set_ordinals [OF assms(1)])
qed

lemma word_range_ordinals: "word_range 0 c = ordinals (\<lambda>_. True) (unat c)"
  by (simp add: word_range_def ordinals_def)

lemma posting_for_ok:
  assumes "list_all2 (\<lambda>P p. posting_for P n (Some p)) Ps ps"
  shows "\<forall>p\<in>set ps. posting_ok p"
  using assms by (induction Ps ps rule: list_all2_induct) (auto simp: posting_for_def)

lemma list_all2_permute:
  assumes "list_all2 R Ps cs" "mset ds = mset cs"
  shows "\<exists>Qs. list_all2 R Qs ds \<and> set Qs = set Ps"
proof -
  have "list_all2 (\<lambda>p P. R P p) cs Ps" using assms(1) by (auto simp: list_all2_conv_all_nth)
  with assms(2) obtain Qs where "list_all2 (\<lambda>p P. R P p) ds Qs" "mset Qs = mset Ps"
    using list_all2_reorder_left_invariance by blast
  then show ?thesis
    by (intro exI [of _ Qs]) (auto simp: list_all2_conv_all_nth dest: mset_eq_setD)
qed

text \<open>The postings in order of cardinality, intersected in full.\<close>

lemma full_ordinals:
  assumes n: "n < 2 ^ 32" "unat record_count = n"
    and ps: "list_all2 (\<lambda>P p. posting_for P n (Some p)) Ps ps"
  shows "(case sort_by_cardinality ps of [] \<Rightarrow> word_range 0 record_count
      | first # rest \<Rightarrow> intersect_all_postings (to_vec first) rest) =
    ordinals (\<lambda>k. \<forall>P\<in>set Ps. P k) n"
proof -
  obtain Qs where Qs: "list_all2 (\<lambda>P p. posting_for P n (Some p)) Qs (sort_by_cardinality ps)"
    "set Qs = set Ps"
    using list_all2_permute [OF ps, of "sort_by_cardinality ps"] by (auto simp: sort_by_cardinality_def)
  show ?thesis
  proof (cases "sort_by_cardinality ps")
    case Nil
    then have "Ps = []" using Qs by simp
    then show ?thesis using Nil n by (simp add: word_range_ordinals)
  next
    case (Cons first rest)
    have ok: "\<forall>p\<in>set (first # rest). posting_ok p" using posting_for_ok [OF Qs(1)] Cons by simp
    then have "intersect_all_postings (to_vec first) rest =
        filter (\<lambda>x. \<forall>p\<in>set rest. x \<in> set (to_vec p)) (to_vec first)"
      by (intro record_sets.all_filter ascending_to_vec) simp_all
    then show ?thesis using Cons common_ordinals [of n Qs first rest] Qs n(1) by simp
  qed
qed

lemma block_ordinals_take:
  assumes n: "n < 2 ^ 32" "unat record_count = n" and "0 < remaining"
    and ps: "list_all2 (\<lambda>P p. posting_for P n (Some p)) Ps ps"
  shows "block_ordinals newest remaining record_count ps =
    take remaining (in_order newest (ordinals (\<lambda>k. \<forall>P\<in>set Ps. P k) n))"
proof (cases "length ps \<le> 1")
  case True
  then consider "ps = []" | p where "ps = [p]" by (cases ps) auto
  then show ?thesis
  proof cases
    case 1
    then show ?thesis using ps n by (simp add: block_ordinals_def word_range_ordinals)
  next
    case 2
    then obtain P where "Ps = [P]" "to_vec p = ordinals P n"
      using ps by (auto simp: list_all2_Cons2 posting_for_def)
    then show ?thesis using 2 assms(3) by (simp add: block_ordinals_def take_ordered_take)
  qed
next
  case False
  then obtain p1 p2 pr where "ps = p1 # p2 # pr" by (cases ps; cases "tl ps") auto
  then have many: "block_ordinals newest remaining record_count ps =
      (case sort_by_cardinality ps of [] \<Rightarrow> []
        | first # rest \<Rightarrow>
            if saturating_mul remaining 8 < cardinality first
            then intersect_postings_limited first rest newest remaining
            else take remaining (in_order newest (intersect_all_postings (to_vec first) rest)))"
    by (simp add: block_ordinals_def)
  obtain Qs where Qs: "list_all2 (\<lambda>P p. posting_for P n (Some p)) Qs (sort_by_cardinality ps)"
    "set Qs = set Ps"
    using list_all2_permute [OF ps, of "sort_by_cardinality ps"] by (auto simp: sort_by_cardinality_def)
  obtain first rest where fr: "sort_by_cardinality ps = first # rest"
    using False by (cases "sort_by_cardinality ps") (auto simp: sort_by_cardinality_def dest: arg_cong [of _ _ length])
  have ok: "list_all posting_ok rest" using posting_for_ok [OF Qs(1)] fr by (simp add: list_all_iff)
  have "filter (\<lambda>x. list_all (\<lambda>p. x \<in> set (to_vec p)) rest) (to_vec first) =
      ordinals (\<lambda>k. \<forall>P\<in>set Ps. P k) n"
    using common_ordinals [of n Qs first rest] Qs fr n(1) by (simp add: list_all_iff)
  then show ?thesis
    using many fr full_ordinals [OF n ps] intersect_postings_limited_take [OF assms(3) ok, of first newest]
    by simp
qed

section \<open>Hits of several blocks\<close>

definition block_hits :: "bool \<Rightarrow> record_prop list \<Rightarrow> sealed_block \<Rightarrow> query_hit list" where
  "block_hits newest Ps b =
     map (\<lambda>r. \<lparr>hit_block_ordinal = sb_ordinal b, hit_record_ordinal = r\<rparr>)
       (in_order newest (ordinals (\<lambda>k. \<forall>P\<in>set Ps. P b k) (length (sb_records b))))"

lemma pq_block_Some:
  assumes "directory U bs pq" "b \<in> set bs"
  shows "pq_block pq (sb_ordinal b) = Some (sb_meta b)"
  using find_by_key_Some [of qb_block_ordinal "pq_blocks pq" "sb_ordinal b" "sb_meta b"]
    directory_simps(1,3) [OF assms(1)] assms(2)
  by (simp add: pq_block_def comp_def)

lemma block_constraints:
  assumes dir: "directory U bs pq" and b: "b \<in> set bs" "sb_partition b = tp"
    and cs: "list_all2 (represents tp bs) Ps cs"
  shows "case those (map (\<lambda>c. posting_for_block c (sb_ordinal b)) cs) of
      None \<Rightarrow> block_hits newest Ps b = []
    | Some ps \<Rightarrow> list_all2 (\<lambda>P p. posting_for P (length (sb_records b)) (Some p)) (map (\<lambda>P. P b) Ps) ps"
proof -
  have all: "list_all2 (\<lambda>P c. posting_for (P b) (length (sb_records b)) (posting_for_block c (sb_ordinal b))) Ps cs"
    using cs by (rule list_all2_mono) (rule represents_block [OF _ directory_simps(1) [OF dir] b])
  show ?thesis
  proof (cases "those (map (\<lambda>c. posting_for_block c (sb_ordinal b)) cs)")
    case None
    then obtain c where c: "c \<in> set cs" "posting_for_block c (sb_ordinal b) = None"
      by (auto simp: those_None)
    then obtain i where i: "i < length cs" "cs ! i = c" by (auto simp: in_set_conv_nth)
    then have "posting_for ((Ps ! i) b) (length (sb_records b)) None" "Ps ! i \<in> set Ps"
      using all c list_all2_nthD2 [OF all i(1)] list_all2_lengthD [OF all] by simp_all
    then have "\<forall>k<length (sb_records b). \<not> (\<forall>P\<in>set Ps. P b k)" by (auto simp: posting_for_None)
    then have "ordinals (\<lambda>k. \<forall>P\<in>set Ps. P b k) (length (sb_records b)) = []"
      by (auto simp: ordinals_def filter_empty_conv)
    then show ?thesis using None by (simp add: block_hits_def in_order_def)
  next
    case (Some ps)
    then have eq: "map (\<lambda>c. posting_for_block c (sb_ordinal b)) cs = map Some ps" by (simp add: those_Some)
    have len: "length cs = length ps" using arg_cong [OF eq, of length] by simp
    have "posting_for_block (cs ! i) (sb_ordinal b) = Some (ps ! i)" if "i < length cs" for i
      using arg_cong [OF eq, of "\<lambda>xs. xs ! i"] that len by simp
    then have "list_all2 (\<lambda>P p. posting_for (P b) (length (sb_records b)) (Some p)) Ps ps"
      using all len unfolding list_all2_conv_all_nth by metis
    then show ?thesis using Some by (simp add: list_all2_map1)
  qed
qed

lemma hits_loop_take:
  assumes dir: "directory U bs pq" and cs: "list_all2 (represents tp bs) Ps cs"
    and xs: "\<forall>b\<in>set xs. b \<in> set bs \<and> sb_partition b = tp" and "length hits < limit"
  shows "hits_loop pq newest limit cs hits (map sb_ordinal xs) =
    take limit (hits @ concat (map (block_hits newest Ps) xs))"
  using xs assms(4)
proof (induction xs arbitrary: hits)
  case (Cons b xs)
  have b: "b \<in> set bs" "sb_partition b = tp" using Cons.prems(1) by simp_all
  note meta = pq_block_Some [OF dir b(1)]
  note con = block_constraints [OF dir b cs, of newest]
  show ?case
  proof (cases "those (map (\<lambda>c. posting_for_block c (sb_ordinal b)) cs)")
    case None
    then show ?thesis using con Cons meta by simp
  next
    case (Some ps)
    let ?rem = "limit - length hits" and ?n = "length (sb_records b)"
    have count: "unat (qb_record_count (sb_meta b)) = ?n" "?n < 2 ^ 32"
      using sealed_ok_count [OF directory_simps(2) [OF dir b(1)]] by simp_all
    have "block_ordinals newest ?rem (qb_record_count (sb_meta b)) ps =
        take ?rem (in_order newest (ordinals (\<lambda>k. \<forall>P\<in>set (map (\<lambda>P. P b) Ps). P k) ?n))"
      by (rule block_ordinals_take) (use count Cons.prems(2) con Some in simp_all)
    then have hits': "map (\<lambda>r. \<lparr>hit_block_ordinal = sb_ordinal b, hit_record_ordinal = r\<rparr>)
        (take ?rem (block_ordinals newest ?rem (qb_record_count (sb_meta b)) ps)) =
      take ?rem (block_hits newest Ps b)"
      by (simp add: block_hits_def take_map)
    let ?hits = "hits @ take ?rem (block_hits newest Ps b)"
    have step: "hits_loop pq newest limit cs hits (map sb_ordinal (b # xs)) =
        (if length ?hits \<ge> limit then ?hits else hits_loop pq newest limit cs ?hits (map sb_ordinal xs))"
      by (simp only: list.map hits_loop.simps meta Some option.case Let_def hits')
    show ?thesis
    proof (cases "length ?hits \<ge> limit")
      case True
      then show ?thesis unfolding step using Cons.prems(2) by simp
    next
      case False
      then have "take ?rem (block_hits newest Ps b) = block_hits newest Ps b"
        using Cons.prems(2) by (simp add: min_def split: if_splits)
      then show ?thesis unfolding step using False Cons.IH [of ?hits] Cons.prems(1) by simp
    qed
  qed
qed simp

section \<open>Surviving blocks\<close>

lemma represented_ascending:
  "represents tp bs P c \<Longrightarrow> ascending (map sb_ordinal bs) \<Longrightarrow> ascending (map bp_block_ordinal c)"
  by (auto simp: represents_def ascending_postings_of simp del: map_concat)

text \<open>The blocks in every posting vector, as a filter of the block list.\<close>

definition in_all :: "block_posting list list \<Rightarrow> sealed_block \<Rightarrow> bool" where
  "in_all cs b \<longleftrightarrow> (\<forall>c\<in>set cs. sb_ordinal b \<in> bp_block_ordinal ` set c)"

lemma base_blocks:
  assumes dir: "directory U bs pq" and cs: "\<forall>c\<in>set cs. \<exists>P. represents tp bs P c"
  shows "(case cs of [] \<Rightarrow> lookup_list (pq_partition_blocks pq) tp
      | first # rest \<Rightarrow> intersect_all_blocks (map bp_block_ordinal first) rest) =
    map sb_ordinal (filter (\<lambda>b. sb_partition b = tp \<and> in_all cs b) bs)"
proof (cases cs)
  case Nil
  then show ?thesis by (simp add: directory_simps(4) [OF dir] in_all_def)
next
  case (Cons first rest)
  note asc = directory_simps(1) [OF dir]
  have sorted: "ascending (map bp_block_ordinal c)" if "c \<in> set cs" for c
    using cs that represented_ascending [OF _ asc] by blast
  obtain P where "represents tp bs P first" using cs Cons by auto
  then obtain g where
    g: "map bp_block_ordinal first = map sb_ordinal (filter (\<lambda>b. sb_partition b = tp \<and> g b) bs)"
    using represents_ordinals by blast
  have dist: "distinct (map sb_ordinal bs)" using asc by (simp add: strict_sorted_iff)
  have "bp_block_ordinal ` set first = sb_ordinal ` {b \<in> set bs. sb_partition b = tp \<and> g b}"
    using arg_cong [OF g, of set] by simp
  then have first: "sb_ordinal b \<in> bp_block_ordinal ` set first \<longleftrightarrow> sb_partition b = tp \<and> g b" if "b \<in> set bs" for b
    using that dist by (auto simp: distinct_map inj_on_def)
  have "intersect_all_blocks (map bp_block_ordinal first) rest =
      filter (\<lambda>x. \<forall>c\<in>set rest. x \<in> bp_block_ordinal ` set c) (map bp_block_ordinal first)"
    by (rule block_sets.all_filter) (use sorted Cons in simp_all)
  also have "\<dots> = map sb_ordinal (filter (in_all rest) (filter (\<lambda>b. sb_partition b = tp \<and> g b) bs))"
    unfolding g by (simp add: filter_map comp_def in_all_def)
  also have "filter (in_all rest) (filter (\<lambda>b. sb_partition b = tp \<and> g b) bs) =
      filter (\<lambda>b. sb_partition b = tp \<and> in_all cs b) bs"
    unfolding filter_filter using first Cons by (intro filter_cong refl) (auto simp: in_all_def)
  finally show ?thesis using Cons by simp
qed

end
