(* ===== verification/Sealed_Query.thy ===== *)
theory Sealed_Query
  imports Query_Plan
begin

text \<open>
  Queries over sealed blocks end to end: the candidates planned from the directory of
  \<^verbatim>\<open>src/query_index.rs\<close> contain every matching record, and selecting from the decoded
  candidates with \<^verbatim>\<open>LogQuery::select\<close> equals selecting from all records of the
  partition.
\<close>

section \<open>The trigram filter never rejects a match\<close>

lemma directory_filters:
  assumes "directory U bs pq"
  shows "pq_message_trigram_words pq = concat (map (bi_message_trigrams \<circ> sb_index) bs)"
    "\<forall>f\<in>set (map (bi_message_trigrams \<circ> sb_index) bs). length f = MESSAGE_TRIGRAM_FILTER_WORDS"
    "(pq_message_trigram_union pq, pq_message_trigram_intersection pq) =
      aggregate_message_trigrams (concat (map (bi_message_trigrams \<circ> sb_index) bs))"
  using assms
  by (auto simp: directory_def holds_blocks_def sealed_ok_def block_index_ok_def filter_ok_def)

lemma few_blocks:
  assumes "directory U bs pq"
  shows "length bs \<le> 2 ^ 32"
proof -
  have "distinct (map sb_ordinal bs)" using directory_simps(1) [OF assms] by (simp add: strict_sorted_iff)
  then have "inj_on sb_ordinal (set bs)" "distinct bs" by (auto simp: distinct_map)
  then have "distinct (map (unat \<circ> sb_ordinal) bs)"
    by (auto simp: distinct_map inj_on_def word_unat_eq_iff)
  moreover have "set (map (unat \<circ> sb_ordinal) bs) \<subseteq> {..<2 ^ 32}"
    using unat_bound [where 'a = 32] by auto
  ultimately show ?thesis
    by (metis card_lessThan card_mono distinct_card finite_lessThan length_map)
qed

lemma message_might_match_iff:
  assumes dir: "directory U bs pq" and b: "b \<in> set bs"
    and slots: "\<forall>s\<in>set slots. s < MESSAGE_TRIGRAM_FILTER_BITS"
  shows "message_might_match pq (sb_ordinal b) slots \<longleftrightarrow>
    (\<forall>s\<in>set slots. filter_get (bi_message_trigrams (sb_index b)) s)"
proof -
  obtain i where i: "i < length bs" "bs ! i = b" using b by (auto simp: in_set_conv_nth)
  have "ascending (map qb_block_ordinal (pq_blocks pq))"
    using directory_simps(1,3) [OF dir] by (simp add: comp_def)
  from binary_search_by_key_Inr [OF this, of "sb_ordinal b" i]
  have search: "binary_search_by_key qb_block_ordinal (sb_ordinal b) (pq_blocks pq) = Inr i"
    using i directory_simps(3) [OF dir] by simp
  have "i < 2 ^ 32" using i(1) few_blocks [OF dir] by simp
  then have start: "saturating_mul i MESSAGE_TRIGRAM_FILTER_WORDS = i * MESSAGE_TRIGRAM_FILTER_WORDS"
    by (simp add: saturating_mul_def)
  have "pq_message_trigram_words pq ! (i * MESSAGE_TRIGRAM_FILTER_WORDS + s div 64) =
      bi_message_trigrams (sb_index b) ! (s div 64)" if "s \<in> set slots" for s
  proof -
    have "s div 64 < MESSAGE_TRIGRAM_FILTER_WORDS" using slots that by auto
    with nth_concat_equal [OF directory_filters(2) [OF dir], of i "s div 64"] i
    show ?thesis by (simp add: directory_filters(1) [OF dir])
  qed
  then show ?thesis
    unfolding message_might_match_def search filter_get_def by (simp add: start list_all_iff)
qed

lemma block_filter:
  assumes "directory U bs pq" "b \<in> set bs" "r \<in> set (sb_records b)"
    and "s \<in> set (visit_normalized_trigrams U (view_message r))"
  shows "filter_get (bi_message_trigrams (sb_index b)) s"
  using directory_simps(2) [OF assms(1,2)] assms(3,4) visit_less [OF assms(4)]
  by (auto simp: sealed_ok_def block_index_ok_def filter_ok_def)

lemma trigrams_keep_match:
  assumes dir: "directory U bs pq" and b: "b \<in> set bs" and r: "r \<in> set (sb_records b)"
    and match: "query_matches U rx q r" "predicate_trigram_safe (q_predicate q)"
  shows "\<exists>slots. prepare_required_message_trigrams U pq
      (rc_message_literals (required_index_constraints q)) = Some slots \<and>
    message_might_match pq (sb_ordinal b) slots"
proof -
  let ?ls = "rc_message_literals (required_index_constraints q)"
  let ?slots = "required_message_trigram_slots U ?ls"
  let ?fs = "map (bi_message_trigrams \<circ> sb_index) bs"
  have slot: "s < MESSAGE_TRIGRAM_FILTER_BITS \<and> filter_get (bi_message_trigrams (sb_index b)) s"
    if "s \<in> set ?slots" for s
  proof -
    obtain l where l: "l \<in> set ?ls" "s \<in> set (visit_normalized_trigrams U l)"
      using \<open>s \<in> set ?slots\<close> by (auto simp: set_required_slots)
    then obtain m where "matcher_value m = l" "text_matches U (view_message r) m" "trigram_safe m"
      using matches_required_literals [OF match] by (auto simp: literals_matched_def literal_matched_def)
    then have "s \<in> set (visit_normalized_trigrams U (view_message r))" using matched_slots l(2) by blast
    then show ?thesis using block_filter [OF dir b r] visit_less by blast
  qed
  have "filter_get (pq_message_trigram_union pq) s" if "s \<in> set ?slots" for s
    using aggregate_get [OF directory_filters(2) [OF dir] _ directory_filters(3) [OF dir], of s]
      slot [OF that] b by auto
  then have "might_contain_all (pq_message_trigram_union pq) ?slots"
    by (simp add: might_contain_all_def list_all_iff)
  moreover have "message_might_match pq (sb_ordinal b)
      (filter (\<lambda>s. \<not> might_contain_all (pq_message_trigram_intersection pq) [s]) ?slots)"
    by (subst message_might_match_iff [OF dir b]) (use slot in auto)
  ultimately show ?thesis by (simp add: prepare_required_message_trigrams_def Let_def)
qed

section \<open>Pruned blocks hold no match\<close>

lemma overlaps_keep_match:
  assumes "sealed_ok U b" "r \<in> set (sb_records b)" "query_matches U rx q r"
  shows "block_overlaps (sb_meta b) q"
  using assms
  by (auto simp: sealed_ok_def query_matches_def block_overlaps_def offset_matches_def
        timestamp_matches_def is_none_or_def split: option.splits)

text \<open>No titlecase letter in the messages of a block.\<close>

definition stable_blocks :: "ucd \<Rightarrow> sealed_block list \<Rightarrow> bool" where
  "stable_blocks U bs \<longleftrightarrow> (\<forall>b\<in>set bs. \<forall>r\<in>set (sb_records b). lower_stable U (view_message r))"

lemma required_props_iff:
  assumes "ucd_sane U" "stable_query U q" "lower_stable U (view_message (sb_records b ! k))"
    and "\<not> rc_impossible (required_index_constraints q)"
  shows "(\<forall>P\<in>set (required_props U q). P b k) \<longleftrightarrow>
    satisfies_constraints U (required_index_constraints q) (sb_records b ! k)"
proof -
  let ?r = "required_index_constraints q" and ?v = "sb_records b ! k"
  have "(\<forall>t\<in>set (rc_terms ?r). term_prop U t b k) \<longleftrightarrow>
      (\<forall>t\<in>set (rc_terms ?r). message_has_term U (view_message ?v) t)"
    by (intro ball_cong refl, subst message_has_term_normalized [OF assms(1,3)])
       (use assms(2) in \<open>auto simp: stable_query_def term_prop_def\<close>)
  moreover have "(\<forall>f\<in>set (rc_fields ?r). field_prop f b k) \<longleftrightarrow> set (rc_fields ?r) \<subseteq> set (view_fields ?v)"
    by (auto simp: field_prop_def)
  ultimately show ?thesis
    using assms(4) by (simp add: required_props_def satisfies_constraints_def ball_Un)
qed

section \<open>The planned hits\<close>

definition survives ::
  "persistent_query_index \<Rightarrow> log_query \<Rightarrow> nat list \<Rightarrow> block_posting list list \<Rightarrow> sealed_block \<Rightarrow> bool" where
  "survives pq q slots cs b \<longleftrightarrow>
     sb_partition b = q_topic_partition q \<and> in_all cs b \<and> block_overlaps (sb_meta b) q \<and>
     message_might_match pq (sb_ordinal b) slots"

lemma surviving_blocks_filter:
  assumes dir: "directory U bs pq"
    and cs: "list_all2 (represents (q_topic_partition q) bs) Ps cs"
  shows "surviving_blocks pq q slots cs = map sb_ordinal (filter (survives pq q slots cs) bs)"
proof -
  let ?tp = "q_topic_partition q"
  have "\<forall>c\<in>set (sort_by_length cs). \<exists>P. represents ?tp bs P c"
    using cs list_all2_nthD2 [OF cs] by (simp add: sort_by_length_def) (metis in_set_conv_nth)
  note base = base_blocks [OF dir this]
  have "in_all (sort_by_length cs) = in_all cs" by (auto simp: in_all_def sort_by_length_def)
  then have "surviving_blocks pq q slots cs =
      filter (\<lambda>b. (case pq_block pq b of None \<Rightarrow> False | Some m \<Rightarrow> block_overlaps m q) \<and>
         message_might_match pq b slots)
       (map sb_ordinal (filter (\<lambda>b. sb_partition b = ?tp \<and> in_all cs b) bs))"
    unfolding surviving_blocks_def base by simp
  also have "\<dots> = map sb_ordinal (filter (survives pq q slots cs) bs)"
    unfolding filter_map filter_filter
    by (intro arg_cong [of _ _ "map sb_ordinal"] filter_cong refl)
       (auto simp: survives_def pq_block_Some [OF dir])
  finally show ?thesis .
qed

definition index_limit :: "log_query \<Rightarrow> nat" where
  "index_limit q = (case (if can_apply_index_limit q then q_limit q else None) of
     None \<Rightarrow> usize_max | Some l \<Rightarrow> l)"

lemma in_order_map: "in_order newest (map f xs) = map f (in_order newest xs)"
  by (simp add: in_order_def rev_map)

lemma distinct_in_order: "distinct (map f (in_order newest xs)) = distinct (map f xs)"
  unfolding in_order_def by (cases newest) (simp_all only: rev_map [symmetric] distinct_rev if_True if_False)

lemma set_in_order [simp]: "set (in_order newest xs) = set xs"
  by (simp add: in_order_def)

lemma candidate_hits_take:
  assumes dir: "directory U bs pq" and "q_limit q \<noteq> Some 0" "\<not> has_invalid_range q"
    and "\<not> rc_impossible (required_index_constraints q)"
    and slots: "prepare_required_message_trigrams U pq
      (rc_message_literals (required_index_constraints q)) = Some slots"
    and cs: "gather_constraints U pq q = Some cs"
  shows "candidate_hits U pq q = take (index_limit q)
    (concat (map (block_hits (q_order q = NewestFirst) (required_props U q))
      (in_order (q_order q = NewestFirst) (filter (survives pq q slots cs) bs))))"
proof -
  let ?newest = "q_order q = NewestFirst" and ?Ps = "required_props U q"
  let ?xs = "in_order ?newest (filter (survives pq q slots cs) bs)"
  note all = gather_Some [OF dir cs]
  obtain Qs where Qs: "list_all2 (represents (q_topic_partition q) bs) Qs (sort_by_length cs)"
    "set Qs = set ?Ps"
    using list_all2_permute [OF all, of "sort_by_length cs"] by (auto simp: sort_by_length_def)
  have pos: "0 < index_limit q" using assms(2) by (auto simp: index_limit_def split: option.splits)
  have "candidate_hits U pq q =
      hits_loop pq ?newest (index_limit q) (sort_by_length cs) [] (map sb_ordinal ?xs)"
    using assms(2-4) slots cs
    by (simp add: candidate_hits_def Let_def index_limit_def surviving_blocks_filter [OF dir all] in_order_map)
  also have "\<dots> = take (index_limit q) ([] @ concat (map (block_hits ?newest Qs) ?xs))"
    by (rule hits_loop_take [OF dir Qs(1)]) (use pos in \<open>auto simp: survives_def\<close>)
  also have "block_hits ?newest Qs = block_hits ?newest ?Ps"
    by (auto simp: block_hits_def fun_eq_iff Qs(2))
  finally show ?thesis by simp
qed

section \<open>Reading hits\<close>

text \<open>The record a hit points at, and all records of a partition in block order.\<close>

definition read_hit :: "sealed_block list \<Rightarrow> query_hit \<Rightarrow> record_view" where
  "read_hit bs h =
     sb_records (the (find (\<lambda>b. sb_ordinal b = hit_block_ordinal h) bs)) ! unat (hit_record_ordinal h)"

definition partition_records :: "topic_partition \<Rightarrow> sealed_block list \<Rightarrow> record_view list" where
  "partition_records tp bs = concat (map sb_records (filter (\<lambda>b. sb_partition b = tp) bs))"

definition selected :: "(nat \<Rightarrow> bool) \<Rightarrow> 'a list \<Rightarrow> 'a list" where
  "selected Q xs = map ((!) xs) (filter Q [0 ..< length xs])"

lemma set_selected: "set (selected Q xs) = {xs ! k | k. k < length xs \<and> Q k}"
  by (auto simp: selected_def)

lemma sorted_selected: "sorted_wrt R xs \<Longrightarrow> sorted_wrt R (selected Q xs)"
proof -
  assume "sorted_wrt R xs"
  then have "sorted_wrt (\<lambda>i j. R (xs ! i) (xs ! j)) [0 ..< length xs]"
    by (auto simp: sorted_wrt_iff_nth_less)
  then show ?thesis unfolding selected_def by (simp add: sorted_wrt_map sorted_wrt_filter)
qed

lemma length_selected: "length (selected Q xs) \<le> length xs"
  using length_filter_le [of Q "[0 ..< length xs]"] by (simp add: selected_def)

lemma sorted_selected_blocks:
  assumes "sorted_wrt R (concat (map g (filter p bs)))" "\<And>b. p' b \<Longrightarrow> p b"
  shows "sorted_wrt R (concat (map (\<lambda>b. selected (Q b) (g b)) (filter p' bs)))"
  using assms
proof (induction bs)
  case (Cons b bs)
  have sub: "set (selected (Q b) (g b)) \<subseteq> set (g b)" for b by (auto simp: set_selected)
  then have rest: "set (concat (map (\<lambda>b. selected (Q b) (g b)) (filter p' bs))) \<subseteq>
      set (concat (map g (filter p bs)))"
    using Cons.prems(2) by fastforce
  show ?case
  proof (cases "p b")
    case True
    then have "sorted_wrt R (g b)" "sorted_wrt R (concat (map g (filter p bs)))"
      "\<forall>x\<in>set (g b). \<forall>y\<in>set (concat (map g (filter p bs))). R x y"
      using Cons.prems(1) by (simp_all add: sorted_wrt_append)
    then show ?thesis using Cons.IH Cons.prems(2) sub [of b] rest sorted_selected [of R "g b" "Q b"]
      by (auto simp: sorted_wrt_append simp del: set_concat) (blast dest: subsetD)+
  next
    case False
    then have "\<not> p' b" using Cons.prems(2) by blast
    then show ?thesis using Cons False by simp
  qed
qed simp

lemma find_block:
  assumes "ascending (map sb_ordinal bs)" "b \<in> set bs"
  shows "find (\<lambda>x. sb_ordinal x = sb_ordinal b) bs = Some b"
  using assms
proof (induction bs)
  case (Cons a bs)
  then show ?case by (cases "a = b") auto
qed simp

lemma read_block_hits:
  assumes "ascending (map sb_ordinal bs)" "b \<in> set bs" "length (sb_records b) \<le> 2 ^ 32"
  shows "map (read_hit bs) (block_hits newest Ps b) =
    in_order newest (selected (\<lambda>k. \<forall>P\<in>set Ps. P b k) (sb_records b))"
proof -
  have "map (\<lambda>x. sb_records b ! unat x) (ordinals Q (length (sb_records b))) = selected Q (sb_records b)" for Q
    unfolding ordinals_def selected_def map_map
    by (rule map_cong [OF refl]) (use unat_u32 [OF _ assms(3)] in simp)
  then show ?thesis
    by (simp add: block_hits_def read_hit_def find_block [OF assms(1,2)] in_order_map [symmetric] comp_def)
qed

lemma in_order_concat: "concat (map (\<lambda>b. in_order newest (f b)) (in_order newest xs)) =
    in_order newest (concat (map f xs))"
  by (simp add: in_order_def rev_concat_map)

definition hit_records :: "bool \<Rightarrow> record_prop list \<Rightarrow> sealed_block list \<Rightarrow> record_view list" where
  "hit_records newest Ps xs =
     in_order newest (concat (map (\<lambda>b. selected (\<lambda>k. \<forall>P\<in>set Ps. P b k) (sb_records b)) xs))"

lemma read_hits:
  assumes "directory U bs pq" "set xs \<subseteq> set bs"
  shows "map (read_hit bs) (concat (map (block_hits newest Ps) (in_order newest xs))) = hit_records newest Ps xs"
proof -
  have "map (read_hit bs) (block_hits newest Ps b) =
      in_order newest (selected (\<lambda>k. \<forall>P\<in>set Ps. P b k) (sb_records b))" if "b \<in> set xs" for b
    using that assms(2) sealed_ok_count(2) [OF directory_simps(2) [OF assms(1)], of b]
    by (intro read_block_hits [OF directory_simps(1) [OF assms(1)]]) auto
  then have "map (map (read_hit bs) \<circ> block_hits newest Ps) (in_order newest xs) =
      map (\<lambda>b. in_order newest (selected (\<lambda>k. \<forall>P\<in>set Ps. P b k) (sb_records b))) (in_order newest xs)"
    by (intro map_cong refl) simp
  then show ?thesis by (simp only: map_concat map_map hit_records_def in_order_concat)
qed

lemma length_hit_records:
  assumes "directory U bs pq"
  shows "length (hit_records newest Ps (filter p bs)) \<le> usize_max"
proof -
  have "length (sb_records b) \<le> 2 ^ 32 - 1" if "b \<in> set bs" for b
    using sealed_ok_count(2) [OF directory_simps(2) [OF assms that]] by simp
  then have "length (concat (map (\<lambda>b. selected (\<lambda>k. \<forall>P\<in>set Ps. P b k) (sb_records b)) (filter p bs))) \<le>
      length bs * (2 ^ 32 - 1)"
  proof (induction bs)
    case (Cons b bs)
    then have "length (selected (\<lambda>k. \<forall>P\<in>set Ps. P b k) (sb_records b)) \<le> 2 ^ 32 - 1"
      using length_selected [of _ "sb_records b"] by (meson le_trans list.set_intros(1))
    then show ?case using Cons by fastforce
  qed simp
  moreover have "length bs * (2 ^ 32 - 1) \<le> 2 ^ 32 * (2 ^ 32 - 1)"
    using few_blocks [OF assms] by (rule mult_le_mono1)
  ultimately show ?thesis by (simp add: hit_records_def in_order_def)
qed

section \<open>Selecting from candidates\<close>

lemma distinct_sorted_wrt: "distinct xs \<longleftrightarrow> sorted_wrt (\<noteq>) xs"
  by (induction xs) auto

lemma select_cong_matches:
  assumes "distinct (map (view_offset \<circ> view) rs)" "distinct (map (view_offset \<circ> view) ms)"
    and "{r \<in> set ms. query_matches U rx q (view r)} = {r \<in> set rs. query_matches U rx q (view r)}"
  shows "select U rx view q ms = select U rx view q rs"
proof -
  have "select_all U rx view q ms = select_all U rx view q rs"
    by (rule select_all_unique [OF assms(2) sorted_select_all])
       (use assms in \<open>auto simp: set_select_all distinct_map intro: distinct_select_all\<close>)
  then show ?thesis by (metis select_truncate)
qed

lemma select_sorted:
  assumes "sorted_wrt (\<lambda>a b. query_compare q (view a) (view b) = Less) ms"
    and "\<forall>r\<in>set ms. query_matches U rx q (view r)" "distinct (map (view_offset \<circ> view) ms)"
  shows "select U rx view q ms = truncate_opt (q_limit q) ms"
proof -
  have "select_all U rx view q ms = ms"
    by (rule select_all_unique [OF assms(3) sorted_wrt_mono_rel [OF _ assms(1)]])
       (use assms(2,3) in \<open>auto simp: distinct_map\<close>)
  then show ?thesis by (metis select_truncate)
qed

lemma select_none:
  assumes "\<forall>r\<in>set rs. \<not> query_matches U rx q (view r)"
  shows "select U rx view q rs = []"
proof -
  have "set (select_all U rx view q rs) = {}" using assms unfolding set_select_all by blast
  then show ?thesis
    unfolding select_truncate [of U rx view q rs] by (simp add: truncate_opt_def split: option.splits)
qed

lemma offset_compare:
  assumes "q_sort q = SortOffset"
  shows "query_compare q a b = Less \<longleftrightarrow>
    (if q_order q = NewestFirst then view_offset b < view_offset a else view_offset a < view_offset b)"
  using assms by (cases "q_order q") (auto simp: query_compare_def position_cmp_def cmp_def)

lemma in_order_sorted:
  assumes "q_sort q = SortOffset" "sorted_wrt (<) (map view_offset rs)"
  shows "sorted_wrt (\<lambda>a b. query_compare q a b = Less) (in_order (q_order q = NewestFirst) rs)"
  using assms by (simp add: in_order_def offset_compare sorted_wrt_rev sorted_wrt_map)

lemma partition_matches:
  assumes "r \<in> set (partition_records tp bs)"
  obtains b k where "b \<in> set bs" "sb_partition b = tp" "k < length (sb_records b)" "r = sb_records b ! k"
  using assms by (auto simp: partition_records_def in_set_conv_nth)

lemma gather_keeps_match:
  assumes sane: "ucd_sane U" and dir: "directory U bs pq"
    and stable: "stable_blocks U bs" "stable_query U q"
    and b: "b \<in> set bs" "sb_partition b = q_topic_partition q" "k < length (sb_records b)"
    and match: "query_matches U rx q (sb_records b ! k)"
  shows "(\<forall>P\<in>set (required_props U q). P b k) \<and> (\<exists>cs. gather_constraints U pq q = Some cs \<and> in_all cs b)"
proof -
  have sat: "satisfies_constraints U (required_index_constraints q) (sb_records b ! k)"
    using match by (rule matches_satisfies_required)
  moreover have "lower_stable U (view_message (sb_records b ! k))"
    using stable(1) b by (auto simp: stable_blocks_def)
  ultimately have props: "\<forall>P\<in>set (required_props U q). P b k"
    using required_props_iff [OF sane stable(2)] by (simp add: satisfies_constraints_def)
  note asc = directory_simps(1) [OF dir]
  show ?thesis
  proof (cases "gather_constraints U pq q")
    case None
    then obtain P where P: "P \<in> set (required_props U q)" "represents (q_topic_partition q) bs P []"
      using gather_None [OF dir] by blast
    have "posting_for_block [] (sb_ordinal b) = None" using posting_for_block_None [of "[]"] by simp
    then have "posting_for (P b) (length (sb_records b)) None"
      using represents_block [OF P(2) asc b(1,2)] by simp
    then show ?thesis using props P(1) b(3) by (auto simp: posting_for_None)
  next
    case (Some cs)
    note all = gather_Some [OF dir Some]
    have "sb_ordinal b \<in> bp_block_ordinal ` set c" if "c \<in> set cs" for c
    proof (rule ccontr)
      assume no: "sb_ordinal b \<notin> bp_block_ordinal ` set c"
      obtain i where "i < length cs" "c = cs ! i" using \<open>c \<in> set cs\<close> by (auto simp: in_set_conv_nth)
      then obtain P where P: "P \<in> set (required_props U q)" "represents (q_topic_partition q) bs P c"
        using list_all2_nthD2 [OF all] list_all2_lengthD [OF all] by (metis nth_mem)
      have "posting_for_block c (sb_ordinal b) = None"
        using posting_for_block_None [OF represented_ascending [OF P(2) asc]] no by blast
      then have "posting_for (P b) (length (sb_records b)) None"
        using represents_block [OF P(2) asc b(1,2)] by simp
      then show False using props P(1) b(3) by (auto simp: posting_for_None)
    qed
    then show ?thesis using Some props by (simp add: in_all_def)
  qed
qed

lemma invalid_range_no_match: "has_invalid_range q \<Longrightarrow> \<not> query_matches U rx q v"
  by (auto simp: has_invalid_range_def query_matches_def offset_matches_def timestamp_matches_def
        split: option.splits)

text \<open>The records read for a plan: what they contain and how they are ordered.\<close>

lemma hit_records_subset:
  assumes "\<And>b. p b \<Longrightarrow> sb_partition b = tp"
  shows "set (hit_records newest Ps (filter p bs)) \<subseteq> set (partition_records tp bs)"
  using assms by (auto simp: hit_records_def partition_records_def set_selected)

lemma hit_records_sorted:
  assumes "\<And>b. p b \<Longrightarrow> sb_partition b = tp" "sorted_wrt R (map f (partition_records tp bs))"
  shows "sorted_wrt R (map f
    (concat (map (\<lambda>b. selected (\<lambda>k. \<forall>P\<in>set Ps. P b k) (sb_records b)) (filter p bs))))"
  using assms(2) unfolding sorted_wrt_map partition_records_def
  by (rule sorted_selected_blocks) (rule assms(1))

lemma hit_records_distinct:
  assumes "\<And>b. p b \<Longrightarrow> sb_partition b = tp" "distinct (map view_offset (partition_records tp bs))"
  shows "distinct (map view_offset (hit_records newest Ps (filter p bs)))"
proof -
  have "distinct (map view_offset
      (concat (map (\<lambda>b. selected (\<lambda>k. \<forall>P\<in>set Ps. P b k) (sb_records b)) (filter p bs))))"
    using assms unfolding distinct_sorted_wrt by (intro hit_records_sorted [of p tp])
  then show ?thesis
    unfolding hit_records_def distinct_in_order .
qed

definition planned_records ::
  "ucd \<Rightarrow> sealed_block list \<Rightarrow> persistent_query_index \<Rightarrow> log_query \<Rightarrow> nat list \<Rightarrow> block_posting list list \<Rightarrow>
   record_view list" where
  "planned_records U bs pq q slots cs =
     hit_records (q_order q = NewestFirst) (required_props U q) (filter (survives pq q slots cs) bs)"

lemma survives_partition: "survives pq q slots cs b \<Longrightarrow> sb_partition b = q_topic_partition q"
  by (simp add: survives_def)

lemma candidate_records:
  assumes "directory U bs pq" "q_limit q \<noteq> Some 0" "\<not> has_invalid_range q"
    and "\<not> rc_impossible (required_index_constraints q)"
    and "prepare_required_message_trigrams U pq
      (rc_message_literals (required_index_constraints q)) = Some slots"
    and "gather_constraints U pq q = Some cs"
  shows "map (read_hit bs) (candidate_hits U pq q) = take (index_limit q) (planned_records U bs pq q slots cs)"
  unfolding candidate_hits_take [OF assms] planned_records_def
  by (subst take_map [symmetric], subst read_hits [OF assms(1)]) auto

lemma planned_keep:
  assumes sane: "ucd_sane U" and dir: "directory U bs pq"
    and stable: "stable_blocks U bs" "stable_query U q" and safe: "predicate_trigram_safe (q_predicate q)"
    and r: "r \<in> set (partition_records (q_topic_partition q) bs)" "query_matches U rx q r"
  shows "\<exists>slots cs. prepare_required_message_trigrams U pq
      (rc_message_literals (required_index_constraints q)) = Some slots \<and>
    gather_constraints U pq q = Some cs \<and> r \<in> set (planned_records U bs pq q slots cs)"
proof -
  obtain b k where b: "b \<in> set bs" "sb_partition b = q_topic_partition q"
    "k < length (sb_records b)" "r = sb_records b ! k"
    using r(1) by (rule partition_matches)
  have in_b: "r \<in> set (sb_records b)" using b(3,4) by simp
  obtain slots where slots: "prepare_required_message_trigrams U pq
      (rc_message_literals (required_index_constraints q)) = Some slots"
    "message_might_match pq (sb_ordinal b) slots"
    using trigrams_keep_match [OF dir b(1) in_b r(2) safe] by blast
  obtain cs where cs: "gather_constraints U pq q = Some cs" "in_all cs b"
    "\<forall>P\<in>set (required_props U q). P b k"
    using gather_keeps_match [OF sane dir stable b(1-3)] r(2) b(4) by blast
  have "block_overlaps (sb_meta b) q"
    by (rule overlaps_keep_match [OF directory_simps(2) [OF dir b(1)] in_b r(2)])
  then have "survives pq q slots cs b"
    "r \<in> set (selected (\<lambda>k. \<forall>P\<in>set (required_props U q). P b k) (sb_records b))"
    using b cs slots by (auto simp: survives_def set_selected)
  then have "r \<in> set (planned_records U bs pq q slots cs)"
    using b(1) by (auto simp: planned_records_def hit_records_def)
  with slots(1) cs(1) show ?thesis by blast
qed

lemma planned_subset:
  "set (planned_records U bs pq q slots cs) \<subseteq> set (partition_records (q_topic_partition q) bs)"
  unfolding planned_records_def by (rule hit_records_subset) (rule survives_partition)

lemma planned_distinct:
  "distinct (map view_offset (partition_records (q_topic_partition q) bs)) \<Longrightarrow>
   distinct (map view_offset (planned_records U bs pq q slots cs))"
  unfolding planned_records_def by (rule hit_records_distinct [OF survives_partition])

lemma planned_sorted:
  assumes "q_sort q = SortOffset" "sorted_wrt (<) (map view_offset (partition_records (q_topic_partition q) bs))"
  shows "sorted_wrt (\<lambda>a b. query_compare q a b = Less) (planned_records U bs pq q slots cs)"
  unfolding planned_records_def hit_records_def
  by (rule in_order_sorted [OF assms(1) hit_records_sorted [OF survives_partition assms(2)]])

lemma planned_exact:
  assumes "ucd_sane U" "stable_blocks U bs" "stable_query U q"
    and "\<not> rc_impossible (required_index_constraints q)" "can_apply_index_limit q"
    and "r \<in> set (planned_records U bs pq q slots cs)"
  shows "query_matches U rx q r"
proof -
  obtain b k where b: "b \<in> set bs" "k < length (sb_records b)" "r = sb_records b ! k"
    "\<forall>P\<in>set (required_props U q). P b k"
    using assms(6) by (auto simp: planned_records_def hit_records_def set_selected)
  then have "satisfies_constraints U (required_index_constraints q) r"
    using required_props_iff [OF assms(1,3) _ assms(4), of b k] assms(2) by (auto simp: stable_blocks_def)
  then show ?thesis
    using assms(5) index_only_matches_iff [of q U rx r]
    by (auto simp: can_apply_index_limit_def offset_matches_def timestamp_matches_def cursor_matches_def)
qed

lemma candidates_in_partition:
  assumes "directory U bs pq"
  shows "set (map (read_hit bs) (candidate_hits U pq q)) \<subseteq> set (partition_records (q_topic_partition q) bs)"
proof (cases "candidate_hits U pq q = []")
  case False
  then obtain slots cs where "map (read_hit bs) (candidate_hits U pq q) =
      take (index_limit q) (planned_records U bs pq q slots cs)"
    using candidate_records [OF assms, of q]
    by (fastforce simp: candidate_hits_def Let_def split: if_splits option.splits)
  then show ?thesis using planned_subset by (metis set_take_subset subset_trans)
qed simp

lemma sealed_query_exact:
  assumes sane: "ucd_sane U" and dir: "directory U bs pq"
    and stable: "stable_blocks U bs" "stable_query U q" and safe: "predicate_trigram_safe (q_predicate q)"
    and dist: "distinct (map view_offset (partition_records (q_topic_partition q) bs))"
    and ord: "can_apply_index_limit q \<and> q_limit q \<noteq> None \<longrightarrow>
      sorted_wrt (<) (map view_offset (partition_records (q_topic_partition q) bs))"
  shows "select U rx id q (map (read_hit bs) (candidate_hits U pq q)) =
    select U rx id q (partition_records (q_topic_partition q) bs)"
proof (cases "q_limit q \<noteq> Some 0 \<and> (\<exists>r\<in>set (partition_records (q_topic_partition q) bs). query_matches U rx q r)")
  let ?all = "partition_records (q_topic_partition q) bs"
  case True
  then obtain r0 where r0: "r0 \<in> set ?all" "query_matches U rx q r0" by blast
  have ok: "\<not> has_invalid_range q" "\<not> rc_impossible (required_index_constraints q)"
    using r0(2) invalid_range_no_match matches_satisfies_required by (auto simp: satisfies_constraints_def)
  note keep = planned_keep [OF sane dir stable safe]
  obtain slots cs where plan: "prepare_required_message_trigrams U pq
        (rc_message_literals (required_index_constraints q)) = Some slots" "gather_constraints U pq q = Some cs"
    using keep [OF r0] by blast
  let ?L = "planned_records U bs pq q slots cs"
  have hits: "map (read_hit bs) (candidate_hits U pq q) = take (index_limit q) ?L"
    using True by (intro candidate_records [OF dir _ ok plan]) simp
  have distL: "distinct (map view_offset ?L)" using dist by (rule planned_distinct)
  have "{r \<in> set ?L. query_matches U rx q r} = {r \<in> set ?all. query_matches U rx q r}"
    using keep plan planned_subset by fastforce
  then have same: "select U rx id q ?L = select U rx id q ?all"
    using select_cong_matches [of id ?all ?L U rx q] dist distL by simp
  show ?thesis
  proof (cases "can_apply_index_limit q \<and> q_limit q \<noteq> None")
    case False
    then have "index_limit q = usize_max" by (auto simp: index_limit_def split: option.splits)
    then have "map (read_hit bs) (candidate_hits U pq q) = ?L"
      using length_hit_records [OF dir] unfolding hits planned_records_def by simp
    then show ?thesis using same by simp
  next
    case limited: True
    then obtain l where l: "q_limit q = Some l" "index_limit q = l" by (auto simp: index_limit_def)
    have sorted: "sorted_wrt (\<lambda>a b. query_compare q a b = Less) ?L"
      by (rule planned_sorted) (use limited ord in \<open>auto simp: can_apply_index_limit_def\<close>)
    have match: "\<forall>r\<in>set ?L. query_matches U rx q r"
      using planned_exact [OF sane stable ok(2)] limited by blast
    have "select U rx id q (take n ?L) = truncate_opt (q_limit q) (take n ?L)" for n
      using sorted match distL
      by (intro select_sorted) (auto simp: sorted_wrt_take distinct_take take_map [symmetric] dest: in_set_takeD)
    from this [of l] this [of "length ?L"] show ?thesis
      using same l unfolding hits by (simp add: truncate_opt_def)
  qed
next
  case False
  then show ?thesis
  proof (cases "q_limit q = Some 0")
    case True
    then show ?thesis by (simp add: select_def truncate_opt_def)
  next
    case nonzero: False
    then have none: "\<forall>r\<in>set (partition_records (q_topic_partition q) bs). \<not> query_matches U rx q r"
      using False by blast
    then have "select U rx id q (map (read_hit bs) (candidate_hits U pq q)) = []"
      using candidates_in_partition [OF dir, of q] by (intro select_none) auto
    then show ?thesis using none by (simp add: select_none)
  qed
qed

end
