(* ===== verification/Pack_Query.thy ===== *)
theory Pack_Query
  imports Sealed_Query
begin

text \<open>
  Execution of a query over a sealed pack (\<^verbatim>\<open>src/bin/shard-log-pack-query-bench.rs\<close>):
  planned records are read block by block and selected, and a page ordered by offset stops at
  the first block that completes it. Opening pack files, decompression and the structural
  decoder are the parameter \<open>fetch\<close>; what is assumed of it is \<open>reads_blocks\<close>.
\<close>

section \<open>Reading planned records\<close>

type_synonym fetch = "u32 \<Rightarrow> u32 list \<Rightarrow> string + record_view list"
type_synonym record_table = "u32 \<times> u32 \<Rightarrow> record_view option"

abbreviation hit_key :: "query_hit \<Rightarrow> u32 \<times> u32" where
  "hit_key h \<equiv> (hit_block_ordinal h, hit_record_ordinal h)"

definition group_hits :: "query_hit list \<Rightarrow> (u32 \<times> u32 list) list" where
  "group_hits hits =
     map (\<lambda>(b, os). (b, remdups_adj (sort os)))
       (sort_by (\<lambda>x y. cmp (fst x) (fst y))
         (foldl (\<lambda>al h. push_entry (hit_block_ordinal h) (hit_record_ordinal h) al) [] hits))"

fun read_groups :: "fetch \<Rightarrow> (u32 \<times> u32 list) list \<Rightarrow> record_table \<Rightarrow> string + record_table" where
  "read_groups fetch [] m = Inr m"
| "read_groups fetch ((b, os) # gs) m =
     and_then (fetch b os) (\<lambda>rs. read_groups fetch gs (m(map (Pair b) os [\<mapsto>] rs)))"

fun order_materialized :: "query_hit list \<Rightarrow> record_table \<Rightarrow> string + record_view list" where
  "order_materialized [] m = Inr []"
| "order_materialized (h # hs) m =
     (case m (hit_key h) of
        None \<Rightarrow> Inl ''selective decode missed a planned record''
      | Some r \<Rightarrow> and_then (order_materialized hs (m(hit_key h := None))) (\<lambda>rs. Inr (r # rs)))"

definition materialize :: "fetch \<Rightarrow> query_hit list \<Rightarrow> string + record_view list" where
  "materialize fetch hits =
     and_then (read_groups fetch (group_hits hits) Map.empty) (order_materialized hits)"

section \<open>Executing a query\<close>

record query_execution =
  ex_records :: "record_view list"
  ex_candidate_hits :: nat
  ex_candidate_blocks :: nat

definition usize_saturating_add :: "nat \<Rightarrow> nat \<Rightarrow> nat" where
  "usize_saturating_add a b = min (a + b) usize_max"

definition page_is_complete :: "log_query \<Rightarrow> nat \<Rightarrow> bool" where
  "page_is_complete q n \<longleftrightarrow>
     q_sort q = SortOffset \<and> (case q_limit q of None \<Rightarrow> False | Some limit \<Rightarrow> n \<ge> limit)"

definition execute_block ::
  "ucd \<Rightarrow> regex_match \<Rightarrow> fetch \<Rightarrow> persistent_query_index \<Rightarrow> log_query \<Rightarrow> u32 \<Rightarrow> string + record_view list \<times> nat" where
  "execute_block U rx fetch pq q b =
     (let hits = candidate_hits_in_block U pq q b in
      if hits = [] then Inr ([], 0)
      else and_then (materialize fetch hits) (\<lambda>rs. Inr (select U rx id q rs, length hits)))"

text \<open>The loop over the remaining blocks with one worker.\<close>

fun execute_sequential ::
  "(u32 \<Rightarrow> string + record_view list \<times> nat) \<Rightarrow> log_query \<Rightarrow> query_execution \<Rightarrow> u32 list \<Rightarrow> string + query_execution" where
  "execute_sequential run q ex [] = Inr ex"
| "execute_sequential run q ex (b # bs) =
     and_then (run b) (\<lambda>(rs, n).
       let ex = ex\<lparr>ex_records := ex_records ex @ rs,
             ex_candidate_hits := usize_saturating_add (ex_candidate_hits ex) n,
             ex_candidate_blocks := usize_saturating_add (ex_candidate_blocks ex) 1\<rparr>
       in if page_is_complete q (length (ex_records ex)) then Inr ex
          else execute_sequential run q ex bs)"

text \<open>The fold over the results of all remaining blocks, computed by several workers.\<close>

fun collect_parallel ::
  "log_query \<Rightarrow> query_execution \<Rightarrow> (string + record_view list \<times> nat) list \<Rightarrow> string + query_execution" where
  "collect_parallel q ex [] = Inr ex"
| "collect_parallel q ex (result # results) =
     and_then result (\<lambda>(rs, n).
       collect_parallel q
         (ex\<lparr>ex_candidate_hits := usize_saturating_add (ex_candidate_hits ex) n,
            ex_records := (if page_is_complete q (length (ex_records ex)) then ex_records ex
              else ex_records ex @ rs)\<rparr>) results)"

definition execute_query ::
  "ucd \<Rightarrow> regex_match \<Rightarrow> fetch \<Rightarrow> persistent_query_index \<Rightarrow> log_query \<Rightarrow> nat \<Rightarrow> string + query_execution" where
  "execute_query U rx fetch pq q workers =
     (let finish = (\<lambda>ex. Inr (ex\<lparr>ex_records := select U rx id q (ex_records ex)\<rparr>));
          run = execute_block U rx fetch pq q in
      if \<not> requires_post_decode q
      then let hits = candidate_hits U pq q in
        and_then (materialize fetch hits) (\<lambda>rs. finish
          \<lparr>ex_records = rs, ex_candidate_hits = length hits,
           ex_candidate_blocks = length (remdups (map hit_block_ordinal hits))\<rparr>)
      else case candidate_blocks U pq q of
        [] \<Rightarrow> Inr \<lparr>ex_records = [], ex_candidate_hits = 0, ex_candidate_blocks = 0\<rparr>
      | first # rest \<Rightarrow>
          and_then (run first) (\<lambda>(rs, n).
            let ex = \<lparr>ex_records = rs, ex_candidate_hits = usize_saturating_add 0 n, ex_candidate_blocks = 1\<rparr> in
            if page_is_complete q (length rs) then finish ex
            else if workers = 1 then and_then (execute_sequential run q ex rest) finish
            else let results = map run rest;
                     ex = ex\<lparr>ex_candidate_blocks := usize_saturating_add (ex_candidate_blocks ex) (length results)\<rparr>
                 in and_then (collect_parallel q ex results) finish))"

section \<open>Planned records are read in plan order\<close>

definition reads_blocks :: "sealed_block list \<Rightarrow> fetch \<Rightarrow> bool" where
  "reads_blocks bs fetch \<longleftrightarrow>
     (\<forall>b\<in>set bs. \<forall>os. ascending os \<longrightarrow> (\<forall>x\<in>set os. unat x < length (sb_records b)) \<longrightarrow>
        fetch (sb_ordinal b) os = Inr (map (\<lambda>x. sb_records b ! unat x) os))"

lemma ascending_remdups_sort: "ascending (remdups_adj (sort (xs :: u32 list)))"
proof -
  have "sorted ys \<Longrightarrow> ascending (remdups_adj ys)" for ys :: "u32 list"
    by (induction ys rule: remdups_adj.induct) (auto simp: order.strict_iff_order)
  then show ?thesis by simp
qed

definition grouped :: "query_hit list \<Rightarrow> (u32 \<times> u32 list) list \<Rightarrow> bool" where
  "grouped hits gs \<longleftrightarrow> (\<forall>b x. (\<exists>os. (b, os) \<in> set gs \<and> x \<in> set os) \<longleftrightarrow> (b, x) \<in> hit_key ` set hits)"

lemma lookup_groups:
  "lookup_list (foldl (\<lambda>al h. push_entry (hit_block_ordinal h) (hit_record_ordinal h) al) al hits) b =
   lookup_list al b @ map hit_record_ordinal (filter (\<lambda>h. hit_block_ordinal h = b) hits)"
  by (induction hits arbitrary: al) (simp_all add: lookup_entry)

lemma distinct_groups:
  "distinct (map fst al) \<Longrightarrow>
   distinct (map fst (foldl (\<lambda>al h. push_entry (hit_block_ordinal h) (hit_record_ordinal h) al) al hits))"
  by (induction hits arbitrary: al) (simp_all add: entry_or_default_def distinct_update)

lemma lookup_distinct:
  assumes "distinct (map fst al)"
  shows "(\<exists>vs. (k, vs) \<in> set al \<and> v \<in> set vs) \<longleftrightarrow> v \<in> set (lookup_list al k)"
  using assms by (auto simp: lookup_list_def split: option.splits dest: map_of_SomeD)

lemma groups_nonempty:
  "[] \<notin> snd ` set al \<Longrightarrow>
   [] \<notin> snd ` set (foldl (\<lambda>al h. push_entry (hit_block_ordinal h) (hit_record_ordinal h) al) al hits)"
proof (induction hits arbitrary: al)
  case (Cons h hits)
  have "[] \<notin> snd ` set (AList.update k (vs @ [v]) al)" for k vs v
    using Cons.prems by (induction al) (auto split: if_splits)
  then show ?case using Cons.IH by (simp add: entry_or_default_def)
qed simp

lemma group_hits_grouped: "grouped hits (group_hits hits)"
proof -
  define al where "al = foldl (\<lambda>al h. push_entry (hit_block_ordinal h) (hit_record_ordinal h) al) [] hits"
  have "(b, os) \<in> set (group_hits hits) \<longleftrightarrow> (\<exists>vs. (b, vs) \<in> set al \<and> os = remdups_adj (sort vs))" for b os
    by (force simp: group_hits_def al_def [symmetric])
  then have "(\<exists>os. (b, os) \<in> set (group_hits hits) \<and> x \<in> set os) \<longleftrightarrow>
      (\<exists>os. (b, os) \<in> set al \<and> x \<in> set os)" for b x
    by auto
  moreover have "(\<exists>os. (b, os) \<in> set al \<and> x \<in> set os) \<longleftrightarrow> (b, x) \<in> hit_key ` set hits" for b x
    unfolding al_def lookup_distinct [OF distinct_groups [of "[]" hits, simplified]] lookup_groups by auto
  ultimately show ?thesis unfolding grouped_def by blast
qed

lemma group_hits_nonempty:
  assumes "(b, os) \<in> set (group_hits hits)"
  shows "os \<noteq> []"
proof -
  obtain vs where "(b, vs) \<in> set (foldl (\<lambda>al h. push_entry (hit_block_ordinal h) (hit_record_ordinal h) al) [] hits)"
    "os = remdups_adj (sort vs)"
    using assms by (auto simp: group_hits_def)
  moreover have "vs \<noteq> []" using calculation(1) groups_nonempty [of "[]" hits] by force
  ultimately show ?thesis by (metis remdups_adj_set set_empty set_sort)
qed

lemma read_groups_all:
  assumes "\<forall>(b, os)\<in>set gs. fetch b os = Inr (map (f b) os)"
  shows "\<exists>m'. read_groups fetch gs m = Inr m' \<and>
    (\<forall>b x. m' (b, x) = (if \<exists>os. (b, os) \<in> set gs \<and> x \<in> set os then Some (f b x) else m (b, x)))"
  using assms
proof (induction gs arbitrary: m)
  case (Cons g gs)
  obtain b os where g: "g = (b, os)" by (cases g)
  have upd: "(m(map (Pair b) os [\<mapsto>] map (f b) os)) (c, x) =
      (if c = b \<and> x \<in> set os then Some (f b x) else m (c, x))" for c x
    by (induction os arbitrary: m) auto
  have "fetch b os = Inr (map (f b) os)" "\<forall>(b, os)\<in>set gs. fetch b os = Inr (map (f b) os)"
    using Cons.prems g by auto
  with Cons.IH [of "m(map (Pair b) os [\<mapsto>] map (f b) os)"] show ?case
    by (auto simp: g upd)
qed simp

lemma order_materialized_all:
  assumes "distinct (map hit_key hits)" "\<forall>h\<in>set hits. m (hit_key h) = Some (f h)"
  shows "order_materialized hits m = Inr (map f hits)"
  using assms
proof (induction hits arbitrary: m)
  case (Cons h hits)
  then have "order_materialized hits (m(hit_key h := None)) = Inr (map f hits)"
    by (intro Cons.IH) (auto simp: image_iff)
  then show ?case using Cons.prems by simp
qed simp

lemma materialize_hits:
  assumes bs: "ascending (map sb_ordinal bs)" "reads_blocks bs fetch" and hits: "distinct hits"
    and valid: "\<forall>h\<in>set hits. \<exists>b\<in>set bs. hit_block_ordinal h = sb_ordinal b \<and>
      unat (hit_record_ordinal h) < length (sb_records b)"
  shows "materialize fetch hits = Inr (map (read_hit bs) hits)"
proof -
  let ?f = "\<lambda>b x. read_hit bs \<lparr>hit_block_ordinal = b, hit_record_ordinal = x\<rparr>"
  have group: "fetch b os = Inr (map (?f b) os)" if "(b, os) \<in> set (group_hits hits)" for b os
  proof (cases os)
    case (Cons x xs)
    have in_hits: "(b, y) \<in> hit_key ` set hits" if "y \<in> set os" for y
      using group_hits_grouped [of hits] that \<open>(b, os) \<in> set (group_hits hits)\<close> unfolding grouped_def by blast
    then have "(b, x) \<in> hit_key ` set hits" using Cons by simp
    then obtain B where B: "B \<in> set bs" "b = sb_ordinal B" using valid by fastforce
    have "B' = B" if "B' \<in> set bs" "sb_ordinal B' = sb_ordinal B" for B'
      using find_block [OF bs(1) B(1)] find_block [OF bs(1) that(1)] that(2) by simp
    then have "\<forall>y\<in>set os. unat y < length (sb_records B)" using valid in_hits B by fastforce
    moreover have "ascending os"
      using that by (auto simp: group_hits_def ascending_remdups_sort)
    ultimately show ?thesis
      using bs(2) B by (simp add: reads_blocks_def read_hit_def find_block [OF bs(1) B(1)])
  next
    case Nil
    then show ?thesis using group_hits_nonempty [OF that] by simp
  qed
  then obtain m where m: "read_groups fetch (group_hits hits) Map.empty = Inr m"
    "\<forall>b x. m (b, x) = (if \<exists>os. (b, os) \<in> set (group_hits hits) \<and> x \<in> set os then Some (?f b x) else None)"
    using read_groups_all [of "group_hits hits" fetch ?f Map.empty] by auto
  have "m (hit_key h) = Some (read_hit bs h)" if "h \<in> set hits" for h
  proof -
    have "\<exists>os. (hit_block_ordinal h, os) \<in> set (group_hits hits) \<and> hit_record_ordinal h \<in> set os"
      using group_hits_grouped [of hits] that by (simp add: grouped_def)
    then show ?thesis using m(2) by (simp add: read_hit_def)
  qed
  moreover have "distinct (map hit_key hits)"
    using hits by (auto simp: distinct_map inj_on_def)
  ultimately show ?thesis
    using m(1) order_materialized_all [of hits m "read_hit bs"] by (simp add: materialize_def)
qed

section \<open>Selecting part by part\<close>

lemma take_filter_all: "\<forall>x\<in>set (take n xs). P x \<Longrightarrow> take n (filter P xs) = take n xs"
proof (induction xs arbitrary: n)
  case (Cons x xs)
  then show ?case by (cases n) simp_all
qed simp

lemma take_filter_mem: "x \<in> set (take n xs) \<Longrightarrow> P x \<Longrightarrow> x \<in> set (take n (filter P xs))"
proof (induction xs arbitrary: n)
  case (Cons y xs)
  then show ?case
    by (cases n; cases "P y") (auto dest!: Cons.IH intro: set_take_subset_set_take [THEN subsetD, rotated])
qed simp

lemma select_all_filter:
  assumes "distinct (map (view_offset \<circ> view) rs)" "set ms \<subseteq> set rs" "distinct (map (view_offset \<circ> view) ms)"
  shows "select_all U rx view q ms = filter (\<lambda>r. r \<in> set ms) (select_all U rx view q rs)"
proof (rule select_all_unique [OF assms(3)])
  show "distinct (filter (\<lambda>r. r \<in> set ms) (select_all U rx view q rs))"
    using assms(1) by (intro distinct_filter distinct_select_all) (simp add: distinct_map)
qed (use assms(2) in \<open>auto simp: sorted_wrt_filter sorted_select_all set_select_all\<close>)

lemma set_select: "set (select U rx view q rs) \<subseteq> {r \<in> set rs. query_matches U rx q (view r)}"
  unfolding select_truncate [of U rx view q rs] truncate_opt_def
  using set_select_all [of U rx view q rs] by (auto split: option.splits dest: in_set_takeD)

lemma distinct_select: "distinct rs \<Longrightarrow> distinct (select U rx view q rs)"
  unfolding select_truncate [of U rx view q rs] truncate_opt_def
  using distinct_select_all [of rs U rx view q] by (auto split: option.splits)

lemma distinct_map_select: "distinct (map f rs) \<Longrightarrow> distinct (map f (select U rx view q rs))"
  unfolding distinct_map
  by (blast intro: distinct_select inj_on_subset [of f] dest: set_select [THEN subsetD])

lemma distinct_map_select_part:
  assumes "distinct (map f (xs @ ys @ zs))"
  shows "distinct (map f (xs @ select U rx view q ys @ zs))"
proof -
  have "f ` set (select U rx view q ys) \<subseteq> f ` set ys" using set_select [of U rx view q ys] by blast
  moreover have "distinct (map f (select U rx view q ys))"
    using assms by (intro distinct_map_select) simp
  moreover have "distinct (map f xs)" "distinct (map f zs)" "f ` set xs \<inter> (f ` set ys \<union> f ` set zs) = {}"
    "f ` set ys \<inter> f ` set zs = {}"
    using assms by (simp_all add: image_Un)
  ultimately show ?thesis by (simp add: image_Un) blast
qed

text \<open>Replacing a part of the input by its own selection changes nothing.\<close>

lemma select_part:
  assumes "distinct (map (view_offset \<circ> view) (xs @ ys @ zs))"
  shows "select U rx view q (xs @ select U rx view q ys @ zs) = select U rx view q (xs @ ys @ zs)"
proof -
  let ?F = "select_all U rx view q (xs @ ys @ zs)" and ?ms = "xs @ select U rx view q ys @ zs"
  have sub: "set (select U rx view q ys) \<subseteq> set ys" using set_select [of U rx view q ys] by blast
  have dist: "distinct (map (view_offset \<circ> view) ?ms)" using assms by (rule distinct_map_select_part)
  have keep: "x \<in> set ?ms" if "l = q_limit q" "x \<in> set (truncate_opt l ?F)" for x l
  proof -
    have "x \<in> set ?F" using that(2) by (auto simp: truncate_opt_def split: option.splits dest: in_set_takeD)
    then have "x \<in> set xs \<union> set ys \<union> set zs" unfolding set_select_all by auto
    moreover have "x \<in> set (select U rx view q ys)" if "x \<in> set ys"
    proof -
      have "select_all U rx view q ys = filter (\<lambda>r. r \<in> set ys) ?F"
        using assms by (intro select_all_filter) auto
      then show ?thesis
        using take_filter_mem [of x _ ?F "\<lambda>r. r \<in> set ys"] \<open>x \<in> set (truncate_opt l ?F)\<close> \<open>l = q_limit q\<close> that
        unfolding select_truncate [of U rx view q ys] by (auto simp: truncate_opt_def split: option.splits)
    qed
    ultimately show ?thesis by auto
  qed
  have "select_all U rx view q ?ms = filter (\<lambda>r. r \<in> set ?ms) ?F"
    using assms sub dist by (intro select_all_filter) auto
  then show ?thesis
    using keep unfolding select_truncate [of U rx view q ?ms] select_truncate [of U rx view q "xs @ ys @ zs"]
    by (cases "q_limit q") (auto simp: truncate_opt_def filter_id_conv take_filter_all)
qed

lemma select_complete:
  assumes "distinct (map (view_offset \<circ> view) (xs @ ys))" "\<forall>r\<in>set xs. query_matches U rx q (view r)"
    and "\<forall>a\<in>set xs. \<forall>b\<in>set ys. query_compare q (view a) (view b) = Less"
    and "q_limit q = Some l" "l \<le> length xs"
  shows "select U rx view q (xs @ ys) = select U rx view q xs"
proof -
  have "select_all U rx view q (xs @ ys) = select_all U rx view q xs @ select_all U rx view q ys"
  proof (rule select_all_unique [OF assms(1)])
    show "distinct (select_all U rx view q xs @ select_all U rx view q ys)"
      using assms(1) distinct_select_all [of xs U rx view q] distinct_select_all [of ys U rx view q]
      by (auto simp: distinct_map set_select_all)
  qed (use assms(3) in \<open>auto simp: sorted_wrt_append sorted_select_all set_select_all\<close>)
  moreover have "length (select_all U rx view q xs) = length xs"
    using assms(2) by (simp add: select_def truncate_opt_def filter_id_conv)
  ultimately show ?thesis
    using assms(4,5) unfolding select_truncate [of U rx view q "xs @ ys"] select_truncate [of U rx view q xs]
    by (simp add: truncate_opt_def)
qed

text \<open>The records gathered from a sequence of parts, stopping once a page is complete.\<close>

fun gather_page :: "log_query \<Rightarrow> record_view list \<Rightarrow> record_view list list \<Rightarrow> record_view list" where
  "gather_page q acc [] = acc"
| "gather_page q acc (c # cs) =
     (if page_is_complete q (length (acc @ c)) then acc @ c else gather_page q (acc @ c) cs)"

lemma select_gather_page:
  assumes "distinct (map view_offset (acc @ concat ds))" "\<forall>r\<in>set acc. query_matches U rx q r"
    and "q_sort q = SortOffset \<Longrightarrow>
      sorted_wrt (\<lambda>xs ys. \<forall>a\<in>set xs. \<forall>b\<in>set ys. query_compare q a b = Less) (acc # ds)"
  shows "select U rx id q (gather_page q acc (map (select U rx id q) ds)) = select U rx id q (acc @ concat ds)"
  using assms
proof (induction ds arbitrary: acc)
  case (Cons d ds)
  let ?s = "select U rx id q"
  have s: "set (?s d) \<subseteq> {r \<in> set d. query_matches U rx q r}" using set_select [of U rx id q d] by simp
  have part: "?s (acc @ ?s d @ concat ds) = ?s (acc @ d @ concat ds)"
    by (rule select_part) (use Cons.prems(1) in simp)
  have match: "\<forall>r\<in>set (acc @ ?s d). query_matches U rx q r" using Cons.prems(2) s by auto
  have dist: "distinct (map view_offset ((acc @ ?s d) @ concat ds))"
    using distinct_map_select_part [of view_offset acc d "concat ds"] Cons.prems(1) by simp
  have sorted: "sorted_wrt (\<lambda>xs ys. \<forall>a\<in>set xs. \<forall>b\<in>set ys. query_compare q a b = Less) ((acc @ ?s d) # ds)"
    if "q_sort q = SortOffset"
    using Cons.prems(3) [OF that] s by auto
  show ?case
  proof (cases "page_is_complete q (length (acc @ ?s d))")
    case True
    then obtain l where "q_sort q = SortOffset" "q_limit q = Some l" "l \<le> length (acc @ ?s d)"
      by (auto simp: page_is_complete_def split: option.splits)
    then have "?s ((acc @ ?s d) @ concat ds) = ?s (acc @ ?s d)"
      using dist match sorted by (intro select_complete) auto
    then show ?thesis using True part by (simp add: id_def)
  next
    case False
    then show ?thesis using Cons.IH [OF dist match sorted] part by (simp add: id_def)
  qed
qed simp

section \<open>Executing the surviving blocks\<close>

definition planned :: "ucd \<Rightarrow> persistent_query_index \<Rightarrow> log_query \<Rightarrow> nat list \<Rightarrow> block_posting list list \<Rightarrow> bool" where
  "planned U pq q slots cs \<longleftrightarrow>
     q_limit q \<noteq> Some 0 \<and> \<not> has_invalid_range q \<and> \<not> rc_impossible (required_index_constraints q) \<and>
     prepare_required_message_trigrams U pq (rc_message_literals (required_index_constraints q)) = Some slots \<and>
     gather_constraints U pq q = Some cs"

lemma those_bind:
  assumes "those (map g xs @ map h ys) = Some cs"
  shows "map (\<lambda>x. Option.bind (g x) f) xs @ map (\<lambda>y. Option.bind (h y) f) ys = map f cs"
proof -
  have "map g xs @ map h ys = map Some cs" using assms by (simp add: those_Some)
  then have "map (\<lambda>v. Option.bind v f) (map g xs @ map h ys) = map f cs" by (simp add: comp_def)
  then show ?thesis by (simp add: comp_def)
qed

lemma hits_in_block:
  assumes dir: "directory U bs pq" and plan: "planned U pq q slots cs"
    and b: "b \<in> set bs" "survives pq q slots cs b"
  shows "candidate_hits_in_block U pq q (sb_ordinal b) =
    block_hits (q_order q = NewestFirst) (required_props U q) b"
proof -
  let ?newest = "q_order q = NewestFirst"
  note sv = b(2) [unfolded survives_def]
  have g: "those (map (term_blocks U pq (q_topic_partition q)) (rc_terms (required_index_constraints q)) @
      map (field_blocks pq (q_topic_partition q)) (rc_fields (required_index_constraints q))) = Some cs"
    using plan by (simp add: planned_def gather_constraints_def Let_def)
  note constraints = block_constraints [OF dir b(1) _ gather_Some [OF dir], of q cs ?newest]
  have count: "length (sb_records b) < 2 ^ 32" "unat (qb_record_count (sb_meta b)) = length (sb_records b)"
    using sealed_ok_count [OF directory_simps(2) [OF dir b(1)]] by simp_all
  show ?thesis
  proof (cases "those (map (\<lambda>c. posting_for_block c (sb_ordinal b)) cs)")
    case None
    then show ?thesis
      using plan sv constraints
      by (simp add: candidate_hits_in_block_def planned_def pq_block_Some [OF dir b(1)] Let_def those_bind [OF g])
  next
    case (Some ps)
    then have "list_all2 (\<lambda>P p. posting_for P (length (sb_records b)) (Some p)) (map (\<lambda>P. P b) (required_props U q)) ps"
      using plan sv constraints by (simp add: planned_def)
    note full = full_ordinals [OF count this]
    show ?thesis
      using plan sv Some full
      by (simp add: candidate_hits_in_block_def planned_def pq_block_Some [OF dir b(1)] Let_def those_bind [OF g]
          block_hits_def)
  qed
qed

lemma block_hits_valid:
  assumes "directory U bs pq" "b \<in> set bs"
  shows "distinct (block_hits newest Ps b)"
    "h \<in> set (block_hits newest Ps b) \<Longrightarrow>
      hit_block_ordinal h = sb_ordinal b \<and> unat (hit_record_ordinal h) < length (sb_records b)"
proof -
  have n: "length (sb_records b) \<le> 2 ^ 32"
    using sealed_ok_count(2) [OF directory_simps(2) [OF assms]] by simp
  have "distinct (ordinals Q (length (sb_records b)))" for Q
    using ascending_ordinals [OF n] by (simp add: strict_sorted_iff)
  then show "distinct (block_hits newest Ps b)"
    by (auto simp: block_hits_def distinct_map inj_on_def in_order_def)
  show "h \<in> set (block_hits newest Ps b) \<Longrightarrow>
      hit_block_ordinal h = sb_ordinal b \<and> unat (hit_record_ordinal h) < length (sb_records b)"
    by (auto simp: block_hits_def set_ordinals [OF n])
qed

lemma execute_survivor:
  assumes sane: "ucd_sane U" and dir: "directory U bs pq"
    and stable: "stable_blocks U bs" "stable_query U q"
    and reads: "reads_blocks bs fetch" and plan: "planned U pq q slots cs"
    and b: "b \<in> set bs" "survives pq q slots cs b" "distinct (map view_offset (sb_records b))"
  shows "\<exists>n. execute_block U rx fetch pq q (sb_ordinal b) = Inr (select U rx id q (sb_records b), n)"
proof -
  let ?hits = "block_hits (q_order q = NewestFirst) (required_props U q) b"
  let ?rs = "selected (\<lambda>k. \<forall>P\<in>set (required_props U q). P b k) (sb_records b)"
  have read: "map (read_hit bs) ?hits = in_order (q_order q = NewestFirst) ?rs"
    using sealed_ok_count(2) [OF directory_simps(2) [OF dir b(1)]]
    by (intro read_block_hits [OF directory_simps(1) [OF dir] b(1)]) simp
  have mat: "materialize fetch ?hits = Inr (map (read_hit bs) ?hits)"
    by (rule materialize_hits [OF directory_simps(1) [OF dir] reads])
       (use block_hits_valid [OF dir b(1)] b(1) in blast)+
  have "query_matches U rx q (sb_records b ! k) \<Longrightarrow> k < length (sb_records b) \<Longrightarrow>
      \<forall>P\<in>set (required_props U q). P b k" for k
    using gather_keeps_match [OF sane dir stable b(1) _ _, of k rx] b(2) by (auto simp: survives_def)
  then have "{r \<in> set (map (read_hit bs) ?hits). query_matches U rx q r} =
      {r \<in> set (sb_records b). query_matches U rx q r}"
    unfolding read by (auto simp: set_selected in_set_conv_nth)
  moreover have "distinct (map view_offset (map (read_hit bs) ?hits))"
    using sorted_selected [of "\<lambda>r s. view_offset r \<noteq> view_offset s" "sb_records b"] b(3)
    unfolding read distinct_in_order by (simp add: distinct_sorted_wrt sorted_wrt_map)
  ultimately have sel: "select U rx id q (map (read_hit bs) ?hits) = select U rx id q (sb_records b)"
    using b(3) by (intro select_cong_matches) simp_all
  show ?thesis
  proof (cases "?hits = []")
    case True
    then have "select U rx id q (sb_records b) = []" using sel by (simp add: select_none)
    then show ?thesis using True by (simp add: execute_block_def hits_in_block [OF dir plan b(1,2)])
  next
    case False
    then show ?thesis using sel by (simp add: execute_block_def hits_in_block [OF dir plan b(1,2)] mat Let_def)
  qed
qed

section \<open>Blocks in offset order\<close>

text \<open>Blocks of a partition with disjoint, ascending offset ranges, as sealing produces them.\<close>

definition ordered_blocks :: "topic_partition \<Rightarrow> sealed_block list \<Rightarrow> bool" where
  "ordered_blocks tp bs \<longleftrightarrow>
     sorted_wrt (\<lambda>a b. qb_last_offset (sb_meta a) < qb_first_offset (sb_meta b))
       (filter (\<lambda>b. sb_partition b = tp) bs) \<and>
     (\<forall>b\<in>set bs. qb_first_offset (sb_meta b) \<le> qb_last_offset (sb_meta b) \<and>
        sorted_wrt (<) (map view_offset (sb_records b)))"

lemma block_offsets:
  assumes "directory U bs pq" "b \<in> set bs" "r \<in> set (sb_records b)"
  shows "qb_first_offset (sb_meta b) \<le> view_offset r" "view_offset r \<le> qb_last_offset (sb_meta b)"
  using directory_simps(2) [OF assms(1,2)] assms(3) by (auto simp: sealed_ok_def)

lemma ordered_cross:
  assumes "directory U bs pq" "qb_last_offset (sb_meta a) < qb_first_offset (sb_meta b)"
    and "a \<in> set bs" "b \<in> set bs" "r \<in> set (sb_records a)" "s \<in> set (sb_records b)"
  shows "view_offset r < view_offset s"
  using block_offsets [OF assms(1,3,5)] block_offsets [OF assms(1,4,6)] assms(2) by simp

lemma ordered_concat:
  assumes dir: "directory U bs pq" and "set xs \<subseteq> set bs"
    and "sorted_wrt (\<lambda>a b. qb_last_offset (sb_meta a) < qb_first_offset (sb_meta b)) xs"
    and "\<forall>b\<in>set xs. sorted_wrt (<) (map view_offset (sb_records b))"
  shows "sorted_wrt (<) (map view_offset (concat (map sb_records xs)))"
  using assms(2-)
proof (induction xs)
  case (Cons b xs)
  have "view_offset r < view_offset s"
    if rs: "r \<in> set (sb_records b)" "s \<in> set (concat (map sb_records xs))" for r s
  proof -
    obtain x where "x \<in> set xs" "s \<in> set (sb_records x)" using rs(2) by auto
    then show ?thesis using rs(1) Cons.prems by (intro ordered_cross [OF dir, of b x]) auto
  qed
  then show ?case using Cons unfolding map_append list.map concat.simps sorted_wrt_append by simp blast
qed simp

lemma ordered_partition:
  assumes "directory U bs pq" "ordered_blocks tp bs"
  shows "sorted_wrt (<) (map view_offset (partition_records tp bs))"
  unfolding partition_records_def
  using assms by (intro ordered_concat) (auto simp: ordered_blocks_def)

lemma ordered_filter:
  assumes "ordered_blocks tp bs" "\<And>b. p b \<Longrightarrow> sb_partition b = tp"
  shows "sorted_wrt (\<lambda>a b. qb_last_offset (sb_meta a) < qb_first_offset (sb_meta b)) (filter p bs)"
proof -
  have eq: "filter p bs = filter p (filter (\<lambda>b. sb_partition b = tp) bs)"
    by (simp only: filter_filter, rule filter_cong) (use assms(2) in auto)
  show ?thesis
    unfolding eq by (rule sorted_wrt_filter) (use assms(1) in \<open>simp add: ordered_blocks_def\<close>)
qed

lemma candidate_blocks_survivors:
  assumes dir: "directory U bs pq" and ord: "ordered_blocks (q_topic_partition q) bs"
    and plan: "planned U pq q slots cs"
  shows "candidate_blocks U pq q =
    map sb_ordinal (in_order (q_order q = NewestFirst) (filter (survives pq q slots cs) bs))"
proof -
  let ?xs = "filter (survives pq q slots cs) bs"
  note asc = ordered_filter [OF ord survives_partition]
  have "cmp_option (map_option qb_first_offset (pq_block pq (sb_ordinal a)))
        (map_option qb_first_offset (pq_block pq (sb_ordinal b))) \<noteq> Greater"
    if "a \<in> set ?xs" "b \<in> set ?xs" "qb_last_offset (sb_meta a) < qb_first_offset (sb_meta b)" for a b
  proof -
    have "a \<in> set bs" "b \<in> set bs" using that by simp_all
    moreover have "qb_first_offset (sb_meta a) \<le> qb_last_offset (sb_meta a)"
      using ord \<open>a \<in> set bs\<close> by (simp add: ordered_blocks_def)
    ultimately show ?thesis
      using that(3) by (simp add: pq_block_Some [OF dir] cmp_option_def cmp_not_Greater)
  qed
  then have "sort_by (\<lambda>a b. cmp_option (map_option qb_first_offset (pq_block pq a))
      (map_option qb_first_offset (pq_block pq b))) (map sb_ordinal ?xs) = map sb_ordinal ?xs"
    using sorted_wrt_mono_rel [OF _ asc] by (intro sort_by_sorted) (auto simp: sorted_wrt_map)
  then show ?thesis
    using plan
    by (simp add: candidate_blocks_def planned_def Let_def in_order_map [symmetric]
        surviving_blocks_filter [OF dir gather_Some [OF dir]])
qed

lemma execute_sequential_records:
  assumes "list_all2 (\<lambda>b c. \<exists>n. run b = Inr (c, n)) xs cs"
  shows "\<exists>ex'. execute_sequential run q ex xs = Inr ex' \<and> ex_records ex' = gather_page q (ex_records ex) cs"
  using assms
proof (induction xs cs arbitrary: ex rule: list_all2_induct)
  case (Cons b xs c cs)
  then obtain n where n: "run b = Inr (c, n)" by auto
  obtain ex' where "execute_sequential run q (ex\<lparr>ex_records := ex_records ex @ c,
        ex_candidate_hits := usize_saturating_add (ex_candidate_hits ex) n,
        ex_candidate_blocks := usize_saturating_add (ex_candidate_blocks ex) 1\<rparr>) xs = Inr ex'"
    "ex_records ex' = gather_page q (ex_records ex @ c) cs"
    using Cons.IH [of "ex\<lparr>ex_records := ex_records ex @ c,
        ex_candidate_hits := usize_saturating_add (ex_candidate_hits ex) n,
        ex_candidate_blocks := usize_saturating_add (ex_candidate_blocks ex) 1\<rparr>"] by auto
  then show ?case using n by (simp add: Let_def)
qed simp

lemma collect_parallel_records:
  assumes "list_all2 (\<lambda>b c. \<exists>n. run b = Inr (c, n)) xs cs"
  shows "\<exists>ex'. collect_parallel q ex (map run xs) = Inr ex' \<and> ex_records ex' =
    (if page_is_complete q (length (ex_records ex)) then ex_records ex else gather_page q (ex_records ex) cs)"
  using assms
proof (induction xs cs arbitrary: ex rule: list_all2_induct)
  case (Cons b xs c cs)
  obtain n where n: "run b = Inr (c, n)" using Cons.hyps by auto
  let ?ex = "ex\<lparr>ex_candidate_hits := usize_saturating_add (ex_candidate_hits ex) n,
      ex_records := (if page_is_complete q (length (ex_records ex)) then ex_records ex else ex_records ex @ c)\<rparr>"
  obtain ex' where "collect_parallel q ?ex (map run xs) = Inr ex'" "ex_records ex' =
      (if page_is_complete q (length (ex_records ?ex)) then ex_records ?ex else gather_page q (ex_records ?ex) cs)"
    using Cons.IH by blast
  then show ?case using n by simp
qed simp

text \<open>Every matching record of the partition lies in a surviving block, or there is no plan and no match.\<close>

lemma survivors_keep:
  assumes "ucd_sane U" "directory U bs pq" "stable_blocks U bs" "stable_query U q"
    and "predicate_trigram_safe (q_predicate q)" "q_limit q \<noteq> Some 0"
    and "r \<in> set (partition_records (q_topic_partition q) bs)" "query_matches U rx q r"
  shows "\<exists>slots cs. planned U pq q slots cs \<and>
    r \<in> set (concat (map sb_records (filter (survives pq q slots cs) bs)))"
proof -
  obtain slots cs where *: "prepare_required_message_trigrams U pq
        (rc_message_literals (required_index_constraints q)) = Some slots"
    "gather_constraints U pq q = Some cs" "r \<in> set (planned_records U bs pq q slots cs)"
    using planned_keep [OF assms(1-5,7,8)] by blast
  moreover have "\<not> has_invalid_range q" "\<not> rc_impossible (required_index_constraints q)"
    using assms(8) invalid_range_no_match matches_satisfies_required by (auto simp: satisfies_constraints_def)
  moreover have "set (planned_records U bs pq q slots cs) \<subseteq>
      set (concat (map sb_records (filter (survives pq q slots cs) bs)))"
    by (auto simp: planned_records_def hit_records_def set_selected)
  ultimately show ?thesis using assms(6) unfolding planned_def by blast
qed

lemma candidate_blocks_planned: "candidate_blocks U pq q \<noteq> [] \<Longrightarrow> \<exists>slots cs. planned U pq q slots cs"
  by (auto simp: candidate_blocks_def planned_def Let_def split: if_splits option.splits)

lemma execute_query_page:
  assumes "requires_post_decode q" "candidate_blocks U pq q = b # bs"
    and "list_all2 (\<lambda>b c. \<exists>n. execute_block U rx fetch pq q b = Inr (c, n)) (b # bs) (c # cs)"
  shows "\<exists>ex. execute_query U rx fetch pq q workers = Inr ex \<and>
    ex_records ex = select U rx id q (gather_page q [] (c # cs))"
proof -
  from assms(3) obtain n where n: "execute_block U rx fetch pq q b = Inr (c, n)"
    and rest: "list_all2 (\<lambda>b c. \<exists>n. execute_block U rx fetch pq q b = Inr (c, n)) bs cs" by auto
  define ex where "ex = \<lparr>ex_records = c, ex_candidate_hits = usize_saturating_add 0 n, ex_candidate_blocks = 1\<rparr>"
  define par where "par = ex\<lparr>ex_candidate_blocks := usize_saturating_add 1 (length bs)\<rparr>"
  obtain ex1 where "execute_sequential (execute_block U rx fetch pq q) q ex bs = Inr ex1"
    "ex_records ex1 = gather_page q c cs"
    using execute_sequential_records [OF rest, of q ex] by (auto simp: ex_def)
  moreover obtain ex2 where "collect_parallel q par (map (execute_block U rx fetch pq q) bs) = Inr ex2"
    "ex_records ex2 = (if page_is_complete q (length c) then c else gather_page q c cs)"
    using collect_parallel_records [OF rest, of q par] by (auto simp: ex_def par_def)
  moreover have "ex_records ex = c" "ex_candidate_blocks ex = 1" by (simp_all add: ex_def)
  ultimately show ?thesis
    unfolding execute_query_def Let_def using assms(1,2) n
    by (cases "page_is_complete q (length c)"; cases "workers = 1")
       (simp_all add: ex_def par_def)
qed

lemma survivors_sorted:
  assumes dir: "directory U bs pq" and ord: "ordered_blocks tp bs" and "\<And>b. p b \<Longrightarrow> sb_partition b = tp"
    and "q_sort q = SortOffset"
  shows "sorted_wrt (\<lambda>xs ys. \<forall>a\<in>set xs. \<forall>b\<in>set ys. query_compare q a b = Less)
    (map sb_records (in_order (q_order q = NewestFirst) (filter p bs)))"
proof -
  have "sorted_wrt (\<lambda>a b. \<forall>r\<in>set (sb_records a). \<forall>s\<in>set (sb_records b). view_offset r < view_offset s)
      (filter p bs)"
    by (rule sorted_wrt_mono_rel [OF _ ordered_filter [OF ord assms(3)]]) (use ordered_cross [OF dir] in auto)
  then show ?thesis
    using assms(4) by (auto simp: in_order_def offset_compare sorted_wrt_map sorted_wrt_rev elim: sorted_wrt_mono_rel [rotated])
qed

lemma survivors_distinct:
  assumes "directory U bs pq" "ordered_blocks tp bs" "\<And>b. p b \<Longrightarrow> sb_partition b = tp"
  shows "distinct (map view_offset (concat (map sb_records (in_order newest (filter p bs)))))"
proof -
  have "sorted_wrt (<) (map view_offset (concat (map sb_records (filter p bs))))"
    using assms(2)
    by (intro ordered_concat [OF assms(1) _ ordered_filter [OF assms(2,3)]]) (auto simp: ordered_blocks_def)
  then have "distinct (map view_offset (concat (map sb_records (filter p bs))))"
    by (simp add: strict_sorted_iff)
  moreover have "mset (concat (map sb_records (in_order newest (filter p bs)))) =
      mset (concat (map sb_records (filter p bs)))"
    by (simp add: in_order_def mset_concat rev_map [symmetric])
  ultimately show ?thesis using mset_eq_imp_distinct_iff mset_map by metis
qed

lemma execute_streaming:
  assumes sane: "ucd_sane U" and dir: "directory U bs pq"
    and stable: "stable_blocks U bs" "stable_query U q" and safe: "predicate_trigram_safe (q_predicate q)"
    and reads: "reads_blocks bs fetch" and ord: "ordered_blocks (q_topic_partition q) bs"
    and blocks: "candidate_blocks U pq q = first # rest" and post: "requires_post_decode q"
  shows "\<exists>ex. execute_query U rx fetch pq q workers = Inr ex \<and>
    ex_records ex = select U rx id q (partition_records (q_topic_partition q) bs)"
proof -
  let ?s = "select U rx id q" and ?run = "execute_block U rx fetch pq q"
  let ?all = "partition_records (q_topic_partition q) bs"
  obtain slots cs where plan: "planned U pq q slots cs"
    using candidate_blocks_planned [of U pq q] blocks by auto
  define xs where "xs = in_order (q_order q = NewestFirst) (filter (survives pq q slots cs) bs)"
  have xs: "map sb_ordinal xs = first # rest" "set xs = {b \<in> set bs. survives pq q slots cs b}"
    using candidate_blocks_survivors [OF dir ord plan] blocks unfolding xs_def by auto
  have "\<exists>n. ?run (sb_ordinal b) = Inr (?s (sb_records b), n)" if "b \<in> set xs" for b
  proof (rule execute_survivor [OF sane dir stable reads plan])
    show "distinct (map view_offset (sb_records b))"
      using that xs(2) ord by (auto simp: ordered_blocks_def strict_sorted_iff)
  qed (use that xs(2) in auto)
  then have run: "list_all2 (\<lambda>b c. \<exists>n. ?run b = Inr (c, n)) (map sb_ordinal xs) (map ?s (map sb_records xs))"
    by (simp add: list_all2_conv_all_nth)
  have "\<exists>ex. execute_query U rx fetch pq q workers = Inr ex \<and>
      ex_records ex = ?s (gather_page q [] (map ?s (map sb_records xs)))"
    using execute_query_page [OF post blocks] run unfolding xs(1) by (auto simp: list_all2_Cons1)
  moreover have "?s (gather_page q [] (map ?s (map sb_records xs))) = ?s ([] @ concat (map sb_records xs))"
    using survivors_distinct [OF dir ord survives_partition] survivors_sorted [OF dir ord survives_partition]
    unfolding xs_def by (intro select_gather_page) simp_all
  moreover have "?s (concat (map sb_records xs)) = ?s ?all"
  proof (rule select_cong_matches)
    show "distinct (map (view_offset \<circ> id) ?all)"
      using ordered_partition [OF dir ord] by (simp add: strict_sorted_iff)
    show "distinct (map (view_offset \<circ> id) (concat (map sb_records xs)))"
      using survivors_distinct [OF dir ord survives_partition] unfolding xs_def by simp
    have "r \<in> set (concat (map sb_records xs))" if "r \<in> set ?all" "query_matches U rx q r" for r
      using survivors_keep [OF sane dir stable safe _ that] plan xs(2) unfolding planned_def by fastforce
    moreover have "set (concat (map sb_records xs)) \<subseteq> set ?all"
      using xs(2) survives_partition by (fastforce simp: partition_records_def)
    ultimately show "{r \<in> set (concat (map sb_records xs)). query_matches U rx q (id r)} =
        {r \<in> set ?all. query_matches U rx q (id r)}" by auto
  qed
  ultimately show ?thesis by simp
qed

section \<open>Every execution is exact\<close>

lemma candidate_hits_planned: "candidate_hits U pq q \<noteq> [] \<Longrightarrow> \<exists>slots cs. planned U pq q slots cs"
  by (auto simp: candidate_hits_def planned_def Let_def split: if_splits option.splits)

lemma distinct_concat_blocks:
  assumes "directory U bs pq" "set xs \<subseteq> set bs" "distinct (map sb_ordinal xs)"
  shows "distinct (concat (map (block_hits newest Ps) xs))"
  using assms(2,3)
proof (induction xs)
  case (Cons b xs)
  have "h \<notin> set (concat (map (block_hits newest Ps) xs))" if "h \<in> set (block_hits newest Ps b)" for h
  proof
    assume "h \<in> set (concat (map (block_hits newest Ps) xs))"
    then obtain c where "c \<in> set xs" "h \<in> set (block_hits newest Ps c)" by auto
    moreover from calculation have "sb_ordinal b = sb_ordinal c"
      using block_hits_valid(2) [OF assms(1), of b h] block_hits_valid(2) [OF assms(1), of c h] that Cons.prems(1)
      by auto
    ultimately have "sb_ordinal b \<in> sb_ordinal ` set xs" by blast
    then show False using Cons.prems(2) by simp
  qed
  then show ?case using Cons block_hits_valid(1) [OF assms(1), of b] by auto
qed simp

lemma distinct_filter_ordinals: "distinct (map f xs) \<Longrightarrow> distinct (map f (filter p xs))"
  by (induction xs) auto

lemma candidate_hits_valid:
  assumes dir: "directory U bs pq"
  shows "distinct (candidate_hits U pq q)"
    "\<forall>h\<in>set (candidate_hits U pq q). \<exists>b\<in>set bs. hit_block_ordinal h = sb_ordinal b \<and>
      unat (hit_record_ordinal h) < length (sb_records b)"
proof -
  have "distinct (candidate_hits U pq q) \<and> (\<forall>h\<in>set (candidate_hits U pq q). \<exists>b\<in>set bs.
      hit_block_ordinal h = sb_ordinal b \<and> unat (hit_record_ordinal h) < length (sb_records b))"
  proof (cases "candidate_hits U pq q = []")
    case False
    then obtain slots cs where plan: "planned U pq q slots cs" using candidate_hits_planned by blast
    let ?newest = "q_order q = NewestFirst"
    let ?xs = "in_order ?newest (filter (survives pq q slots cs) bs)"
    have hits: "candidate_hits U pq q = take (index_limit q) (concat (map (block_hits ?newest (required_props U q)) ?xs))"
      using plan by (intro candidate_hits_take [OF dir]) (simp_all add: planned_def)
    have "distinct (map sb_ordinal bs)" using directory_simps(1) [OF dir] by (simp add: strict_sorted_iff)
    then have "distinct (map sb_ordinal (filter (survives pq q slots cs) bs))" by (rule distinct_filter_ordinals)
    then have "distinct (concat (map (block_hits ?newest (required_props U q)) ?xs))"
      by (intro distinct_concat_blocks [OF dir]) (simp_all add: distinct_in_order)
    then show ?thesis
      using block_hits_valid(2) [OF dir] unfolding hits
      by (auto intro: distinct_take dest!: in_set_takeD) blast
  qed simp
  then show "distinct (candidate_hits U pq q)"
    "\<forall>h\<in>set (candidate_hits U pq q). \<exists>b\<in>set bs. hit_block_ordinal h = sb_ordinal b \<and>
      unat (hit_record_ordinal h) < length (sb_records b)" by blast+
qed

lemma no_candidate_blocks:
  assumes "ucd_sane U" "directory U bs pq" "stable_blocks U bs" "stable_query U q"
    and "predicate_trigram_safe (q_predicate q)" "ordered_blocks (q_topic_partition q) bs"
    and "candidate_blocks U pq q = []"
  shows "select U rx id q (partition_records (q_topic_partition q) bs) = []"
proof (cases "q_limit q = Some 0")
  case False
  have "\<not> query_matches U rx q r" if r: "r \<in> set (partition_records (q_topic_partition q) bs)" for r
  proof
    assume "query_matches U rx q r"
    then obtain slots cs where "planned U pq q slots cs"
      "r \<in> set (concat (map sb_records (filter (survives pq q slots cs) bs)))"
      using survivors_keep [OF assms(1-5) False r] by blast
    then show False
      using candidate_blocks_survivors [OF assms(2,6), of slots cs] assms(7)
      by (auto simp: in_order_def filter_empty_conv split: if_splits)
  qed
  then show ?thesis by (intro select_none) simp
qed (simp add: select_def truncate_opt_def)

lemma execute_query_exact:
  assumes sane: "ucd_sane U" and dir: "directory U bs pq"
    and stable: "stable_blocks U bs" "stable_query U q" and safe: "predicate_trigram_safe (q_predicate q)"
    and reads: "reads_blocks bs fetch" and ord: "ordered_blocks (q_topic_partition q) bs"
  shows "\<exists>ex. execute_query U rx fetch pq q workers = Inr ex \<and>
    ex_records ex = select U rx id q (partition_records (q_topic_partition q) bs)"
proof (cases "requires_post_decode q")
  case True
  show ?thesis
  proof (cases "candidate_blocks U pq q")
    case Nil
    then show ?thesis
      using no_candidate_blocks [OF sane dir stable safe ord Nil, of rx] True by (simp add: execute_query_def)
  next
    case (Cons first rest)
    then show ?thesis by (rule execute_streaming [OF sane dir stable safe reads ord _ True])
  qed
next
  case False
  have "materialize fetch (candidate_hits U pq q) = Inr (map (read_hit bs) (candidate_hits U pq q))"
    by (rule materialize_hits [OF directory_simps(1) [OF dir] reads candidate_hits_valid [OF dir]])
  moreover have "select U rx id q (map (read_hit bs) (candidate_hits U pq q)) =
      select U rx id q (partition_records (q_topic_partition q) bs)"
    using ordered_partition [OF dir ord] by (intro sealed_query_exact [OF sane dir stable safe]) (simp_all add: strict_sorted_iff)
  ultimately show ?thesis using False by (simp add: execute_query_def Let_def)
qed

end
