(* ===== verification/Index_Codec.thy ===== *)
theory Index_Codec
  imports Postings
begin

text \<open>
  The byte format of the persisted query index (\<^verbatim>\<open>src/query_index.rs\<close>):
  variable-length integers, length-prefixed strings, and the delta and run encodings of posting
  lists. Encoders return the bytes the source appends; decoders read at a cursor.

  A Rust slice holds fewer than \<open>2\<^sup>6\<^sup>3\<close> bytes, so that advancing a cursor over a byte that was
  read cannot overflow; adding a decoded length to the cursor can, and is checked.
\<close>

section \<open>Integers and byte strings\<close>

definition read_byte :: "(log_db_error, u8) decoder" where
  "read_byte bs cur =
     (if cur < length bs then Inr (bs ! cur, cur + 1)
      else Inl (InvalidBlockEncoding ''truncated query index''))"

function write_varint :: "u64 \<Rightarrow> bytes" where
  "write_varint v =
     (if v \<ge> 0x80 then (((ucast v :: u8) AND 0x7f) OR 0x80) # write_varint (drop_bit 7 v)
      else [ucast v])"
  by pat_completeness auto
termination
proof (relation "measure unat")
  fix v :: u64 assume "v \<ge> 0x80"
  then have "0x80 \<le> unat v" by (simp add: word_le_nat_alt)
  then show "(drop_bit 7 v, v) \<in> measure unat"
    by (simp add: drop_bit_eq_div unat_div)
qed simp

declare write_varint.simps [simp del]

function read_varint_loop :: "bytes \<Rightarrow> nat \<Rightarrow> u64 \<Rightarrow> nat \<Rightarrow> log_db_error + (u64 \<times> nat)" where
  "read_varint_loop bs cur value shift =
     (case read_byte bs cur of
        Inl e \<Rightarrow> Inl e
      | Inr (byte, cur) \<Rightarrow>
          let payload = ucast (byte AND 0x7f) :: u64 in
          if shift > 63 \<or> (shift = 63 \<and> payload > 1)
          then Inl (InvalidBlockEncoding ''query index varint overflow'')
          else let value = value OR push_bit shift payload in
            if byte AND 0x80 = 0 then Inr (value, cur)
            else if shift + 7 > 63 then Inl (InvalidBlockEncoding ''query index varint too long'')
            else read_varint_loop bs cur value (shift + 7))"
  by pat_completeness auto
termination by (relation "measure (\<lambda>(_, _, _, shift). 64 - shift)") auto

declare read_varint_loop.simps [simp del]

definition read_varint :: "(log_db_error, u64) decoder" where
  "read_varint bs cur = read_varint_loop bs cur 0 0"

definition read_u32 :: "(log_db_error, u32) decoder" where
  "read_u32 bs cur =
     and_then (read_varint bs cur) (\<lambda>(v, cur).
     and_then (ok_or (try_word (unat v)) (InvalidBlockEncoding ''query index value does not fit u32''))
       (\<lambda>w. Inr (w, cur)))"

definition read_usize :: "(log_db_error, nat) decoder" where
  "read_usize bs cur = and_then (read_varint bs cur) (\<lambda>(v, cur). Inr (unat v, cur))"

definition read_bytes :: "(log_db_error, bytes) decoder" where
  "read_bytes bs cur =
     and_then (read_usize bs cur) (\<lambda>(n, cur).
     if cur + n > usize_max then Inl (InvalidBlockEncoding ''query index byte length overflow'')
     else case slice_get bs cur (cur + n) of
       None \<Rightarrow> Inl (InvalidBlockEncoding ''truncated query index bytes'')
     | Some v \<Rightarrow> Inr (v, cur + n))"

definition append_bytes :: "bytes \<Rightarrow> bytes log_db_result" where
  "append_bytes bs =
     and_then (ok_or (try_word (length bs)) RecordTooLarge) (\<lambda>n. Inr (write_varint n @ bs))"

definition decode_text :: "bytes \<Rightarrow> rstr log_db_result" where
  "decode_text bs = ok_or (from_utf8 bs) (InvalidBlockEncoding ''query index text is not UTF-8'')"

definition ensure_count :: "nat \<Rightarrow> nat \<Rightarrow> unit log_db_result" where
  "ensure_count n remaining =
     (if n \<le> remaining then Inr ()
      else Inl (InvalidBlockEncoding ''query index count exceeds remaining bytes''))"

section \<open>Posting lists\<close>

abbreviation DELTA_POSTING :: u8 where "DELTA_POSTING \<equiv> 0"
abbreviation RUN_POSTING :: u8 where "RUN_POSTING \<equiv> 1"

fun encode_deltas :: "nat \<Rightarrow> u32 \<Rightarrow> u32 list \<Rightarrow> bytes log_db_result" where
  "encode_deltas index previous [] = Inr []"
| "encode_deltas index previous (x # xs) =
     (if 0 < index \<and> x \<le> previous
      then Inl (InvalidBlockEncoding ''query posting is not ordered'')
      else and_then (encode_deltas (index + 1) x xs)
             (\<lambda>rest. Inr (write_varint (ucast (x - previous)) @ rest)))"

fun encode_run_list :: "u32 \<Rightarrow> ordinal_run list \<Rightarrow> bytes" where
  "encode_run_list previous_end [] = []"
| "encode_run_list previous_end (r # rs) =
     write_varint (ucast (run_start r - previous_end)) @ write_varint (ucast (run_length r)) @
     encode_run_list (saturating_add (run_start r) (run_length r)) rs"

definition encode_run_posting :: "ordinal_run list \<Rightarrow> bytes log_db_result" where
  "encode_run_posting rs =
     (if rs = [] then Inl (InvalidBlockEncoding ''empty query posting'')
      else and_then (ok_or (try_word (length rs)) RecordTooLarge)
        (\<lambda>n. Inr (RUN_POSTING # write_varint n @ encode_run_list 0 rs)))"

fun encode_posting :: "posting_list \<Rightarrow> bytes log_db_result" where
  "encode_posting (Runs rs _) = encode_run_posting rs"
| "encode_posting (Ordinals xs) =
     and_then (ok_or (try_word (length xs)) RecordTooLarge) (\<lambda>n.
     and_then (encode_deltas 0 0 xs) (\<lambda>ds. Inr (DELTA_POSTING # write_varint n @ ds)))"

fun decode_deltas :: "u32 \<Rightarrow> nat \<Rightarrow> nat \<Rightarrow> u32 \<Rightarrow> (log_db_error, u32 list) decoder" where
  "decode_deltas record_count 0 index previous bs cur = Inr ([], cur)"
| "decode_deltas record_count (Suc n) index previous bs cur =
     and_then (read_u32 bs cur) (\<lambda>(delta, cur).
     and_then (ok_or (checked_add previous delta) (InvalidBlockEncoding ''query posting delta overflow''))
       (\<lambda>x.
     if x \<ge> record_count \<or> (0 < index \<and> x \<le> previous)
     then Inl (InvalidBlockEncoding ''invalid query posting ordinal'')
     else and_then (decode_deltas record_count n (index + 1) x bs cur)
            (\<lambda>(xs, cur). Inr (x # xs, cur))))"

fun decode_run_list ::
  "u32 \<Rightarrow> nat \<Rightarrow> nat \<Rightarrow> u32 \<Rightarrow> (log_db_error, ordinal_run list \<times> nat) decoder" where
  "decode_run_list record_count 0 members previous_end bs cur = Inr (([], members), cur)"
| "decode_run_list record_count (Suc n) members previous_end bs cur =
     and_then (read_u32 bs cur) (\<lambda>(d, cur).
     and_then (ok_or (checked_add previous_end d) (InvalidBlockEncoding ''query posting run overflow''))
       (\<lambda>start.
     and_then (read_u32 bs cur) (\<lambda>(len, cur).
     and_then (ok_or (checked_add start len) (InvalidBlockEncoding ''query posting run overflow''))
       (\<lambda>run_stop.
     if len = 0 \<or> run_stop > record_count then Inl (InvalidBlockEncoding ''invalid query posting run'')
     else if members + unat len > usize_max
     then Inl (InvalidBlockEncoding ''query posting cardinality overflow'')
     else and_then (decode_run_list record_count n (members + unat len) run_stop bs cur)
            (\<lambda>((rs, members), cur). Inr ((\<lparr>run_start = start, run_length = len\<rparr> # rs, members), cur))))))"

definition decode_posting :: "u32 \<Rightarrow> (log_db_error, posting_list) decoder" where
  "decode_posting record_count bs cur =
     and_then (read_byte bs cur) (\<lambda>(kind, cur).
     if kind = DELTA_POSTING then
       and_then (read_usize bs cur) (\<lambda>(n, cur).
       and_then (ensure_count n (length bs - cur)) (\<lambda>_.
       and_then (decode_deltas record_count n 0 0 bs cur) (\<lambda>(xs, cur).
       if xs = [] then Inl (InvalidBlockEncoding ''empty query posting'')
       else Inr (Ordinals xs, cur))))
     else if kind = RUN_POSTING then
       and_then (read_usize bs cur) (\<lambda>(n, cur).
       and_then (ensure_count n (length bs - cur)) (\<lambda>_.
       and_then (decode_run_list record_count n 0 0 bs cur) (\<lambda>((rs, members), cur).
       if rs = [] then Inl (InvalidBlockEncoding ''empty query posting'')
       else Inr (Runs rs members, cur))))
     else Inl (InvalidBlockEncoding ''unknown query posting encoding''))"

section \<open>Integers and byte strings: round trips\<close>

lemma write_varint_length: "0 < length (write_varint v)"
  by (simp add: write_varint.simps [of v])

lemma write_varint_bound: "unat v < 2 ^ (7 * n) \<Longrightarrow> 0 < n \<Longrightarrow> length (write_varint v) \<le> n"
proof (induction v arbitrary: n rule: write_varint.induct)
  case (1 v)
  show ?case
  proof (cases "v \<ge> 0x80")
    case True
    then have big: "128 \<le> unat v" by (simp add: word_le_nat_alt)
    then have "n \<noteq> 1" using "1.prems"(1) by (auto simp: numeral_eq_Suc)
    then obtain k where k: "n = Suc k" "0 < k" using "1.prems"(2) by (cases n) auto
    have "unat (drop_bit 7 v) = unat v div 128" by (simp add: drop_bit_eq_div unat_div)
    also have "\<dots> < 2 ^ (7 * k)" using "1.prems"(1) k(1) by (simp add: power_add less_mult_imp_div_less mult.commute)
    finally have "length (write_varint (drop_bit 7 v)) \<le> k" using "1.IH" [OF True] k(2) by blast
    then show ?thesis using True k(1) by (simp add: write_varint.simps [of v])
  next
    case False
    then show ?thesis using "1.prems"(2) by (simp add: write_varint.simps [of v])
  qed
qed

lemma write_varint_at_most: "length (write_varint v) \<le> 10"
  using write_varint_bound [of v 10] unat_bound [of v] by simp

lemma bit_0x80: "bit (0x80 :: int) n \<longleftrightarrow> n = 7"
proof -
  have "bit (push_bit 7 1 :: int) n \<longleftrightarrow> n = 7"
    by (simp only: bit_push_bit_iff bit_1_iff) auto
  then show ?thesis by simp
qed

lemma bit_0x7f: "bit (0x7f :: int) n \<longleftrightarrow> n < 7"
proof -
  have "bit (mask 7 :: int) n \<longleftrightarrow> n < 7"
    by (simp only: bit_mask_iff) auto
  then show ?thesis by (simp add: mask_eq_exp_minus_1)
qed

lemma low_byte: "(ucast (ucast (v :: u64) AND 0x7f :: u8) :: u64) = take_bit 7 v"
  by (rule bit_word_eqI) (auto simp: bit_simps bit_0x7f)

lemma continued_byte:
  "((b :: u8) AND 0x7f OR 0x80) AND 0x7f = b AND 0x7f" "(b AND 0x7f OR 0x80) AND 0x80 \<noteq> 0"
proof -
  show "(b AND 0x7f OR 0x80) AND 0x7f = b AND 0x7f"
    by (rule bit_word_eqI) (auto simp: bit_and_iff bit_or_iff bit_0x7f bit_0x80)
  have "bit ((b AND 0x7f OR 0x80) AND 0x80) 7"
    by (simp add: bit_simps bit_0x80)
  then show "(b AND 0x7f OR 0x80) AND 0x80 \<noteq> 0" by (metis bit_0_eq bot_apply bot_bool_def)
qed

lemma take_bit_small:
  assumes "unat (v :: 'a::len word) < 2 ^ n"
  shows "take_bit n v = v"
proof -
  have "unat (take_bit n v) = take_bit n (unat v)" by (rule unsigned_take_bit_eq)
  also have "\<dots> = unat v" using assms by (simp add: take_bit_nat_eq_self)
  finally show ?thesis by (simp only: word_unat_eq_iff)
qed

lemma final_byte:
  assumes "unat (v :: u64) < 128"
  shows "(ucast v :: u8) AND 0x80 = 0"
proof (rule bit_word_eqI)
  fix n
  have "take_bit 7 v = v" using assms take_bit_small [of v 7] by simp
  then have "bit v n \<longleftrightarrow> bit (take_bit 7 v) n" by simp
  then show "bit ((ucast v :: u8) AND 0x80) n = bit 0 n" by (auto simp: bit_simps bit_0x80)
qed

lemma varint_join:
  "push_bit s (take_bit 7 v) OR push_bit (s + 7) (drop_bit 7 v) = push_bit s (v :: u64)"
proof (rule bit_word_eqI)
  fix n assume "n < LENGTH(64)"
  then show "bit (push_bit s (take_bit 7 v) OR push_bit (s + 7) (drop_bit 7 v)) n =
      bit (push_bit s v) n"
    by (cases "s + 7 \<le> n") (auto simp: bit_simps)
qed

lemma read_varint_loop_write:
  assumes "bytes_at bs cur (write_varint v)" "unat v * 2 ^ shift < 2 ^ 64" "7 dvd shift" "shift \<le> 63"
  shows "read_varint_loop bs cur acc shift =
    Inr (acc OR push_bit shift v, cur + length (write_varint v))"
  using assms
proof (induction v arbitrary: cur acc shift rule: write_varint.induct)
  case (1 v)
  show ?case
  proof (cases "v \<ge> 0x80")
    case False
    then have small: "unat v < 128" by (simp add: word_le_nat_alt not_le)
    have w: "write_varint v = [ucast v]" using False by (simp add: write_varint.simps [of v])
    have "unat v < 2" if "shift = 63" using that "1.prems"(2) by simp
    then have fits: "\<not> (shift = 63 \<and> 1 < v)" by (auto simp: word_less_nat_alt)
    have "ucast ((ucast v :: u8) AND 0x7f) = v"
      using small take_bit_small [of v 7] by (simp add: low_byte)
    moreover have "read_byte bs cur = Inr (ucast v, cur + 1)"
      using "1.prems"(1) by (simp add: read_byte_def w bytes_at_single)
    ultimately show ?thesis using "1.prems"(4) fits final_byte [OF small]
      by (simp add: read_varint_loop.simps [of bs cur] w)
  next
    case True
    then have big: "128 \<le> unat v" by (simp add: word_le_nat_alt)
    let ?b = "ucast v AND 0x7f OR 0x80 :: u8"
    have w: "write_varint v = ?b # write_varint (drop_bit 7 v)"
      using True by (simp add: write_varint.simps [of v])
    have div: "unat (drop_bit 7 v) = unat v div 128" by (simp add: drop_bit_eq_div unat_div)
    have "128 * 2 ^ shift < (2 :: nat) ^ 64"
      using big "1.prems"(2) by (meson le_less_trans mult_le_mono1)
    then have "(2 :: nat) ^ (shift + 7) < 2 ^ 64" by (simp add: power_add)
    then have shift: "shift + 7 \<le> 63" using power_less_imp_less_exp [of "2 :: nat" "shift + 7" 64] by simp
    have "unat (drop_bit 7 v) * 2 ^ (shift + 7) \<le> unat v * 2 ^ shift"
    proof -
      have "unat v div 128 * 128 \<le> unat v" by simp
      then have "unat v div 128 * 128 * 2 ^ shift \<le> unat v * 2 ^ shift" by (rule mult_le_mono1)
      then show ?thesis by (simp only: div) (simp add: power_add mult.assoc mult.left_commute)
    qed
    then have "unat (drop_bit 7 v) * 2 ^ (shift + 7) < 2 ^ 64" using "1.prems"(2) by linarith
    moreover have "bytes_at bs (cur + 1) (write_varint (drop_bit 7 v))"
      "read_byte bs cur = Inr (?b, cur + 1)"
      using "1.prems"(1) by (simp_all add: w bytes_at_Cons read_byte_def)
    moreover have "7 dvd shift + 7" using "1.prems"(3) by simp
    ultimately show ?thesis
      using "1.IH" [OF True, of "cur + 1" "shift + 7" "acc OR push_bit shift (take_bit 7 v)"] shift
        continued_byte [of "ucast v"]
      by (simp add: read_varint_loop.simps [of bs cur] w low_byte or.assoc varint_join)
  qed
qed

lemma read_varint_write [codec_simps]:
  "bytes_at bs cur (write_varint v) \<Longrightarrow> read_varint bs cur = Inr (v, cur + length (write_varint v))"
  using read_varint_loop_write [of bs cur v 0 0] unat_bound [of v] by (simp add: read_varint_def)

interpretation varint: codec write_varint read_varint "\<lambda>_. True"
  by unfold_locales (simp add: read_varint_write)

lemma unat_ucast_u64 [simp]: "unat (ucast (v :: u32) :: u64) = unat v"
proof -
  have "unat v < 2 ^ 64" using unat_bound [of v] by simp
  then show ?thesis by (simp add: unsigned_ucast_eq take_bit_nat_eq_self)
qed

lemma read_u32_write [codec_simps]:
  fixes v :: u32
  assumes "bytes_at bs cur (write_varint (ucast v))"
  shows "read_u32 bs cur = Inr (v, cur + length (write_varint (ucast v)))"
  using read_varint_write [OF assms] by (simp add: read_u32_def ok_or_def)

lemma read_usize_write [codec_simps]:
  "bytes_at bs cur (write_varint v) \<Longrightarrow> read_usize bs cur = Inr (unat v, cur + length (write_varint v))"
  by (simp add: read_usize_def read_varint_write)

lemma read_bytes_append:
  assumes "append_bytes v = Inr e" "bytes_at bs cur e" "length bs \<le> usize_max"
  shows "read_bytes bs cur = Inr (v, cur + length e)"
proof -
  obtain n where n: "unat n = length v" "e = write_varint (n :: u64) @ v"
    using assms(1) by (auto simp: append_bytes_def and_then_eq_Inr ok_or_def try_word_Some split: option.splits)
  have "bytes_at bs cur (write_varint n)" "bytes_at bs (cur + length (write_varint n)) v"
    using assms(2) n(2) by (simp_all add: bytes_at_append)
  moreover have "cur + length e \<le> usize_max" using bytes_at_bound [OF assms(2)] assms(3) by linarith
  ultimately show ?thesis
    using n by (simp add: read_bytes_def read_usize_write slice_get_at add.assoc [symmetric])
qed

section \<open>Posting lists: round trips\<close>

lemma checked_add_diff: "b \<le> a \<Longrightarrow> checked_add b (a - b) = Some a"
  by (simp add: checked_add_Some unat_sub word_le_nat_alt)

lemma encode_deltas_total:
  "ascending xs \<Longrightarrow> (0 < index \<Longrightarrow> \<forall>x\<in>set xs. previous < x) \<Longrightarrow> \<exists>e. encode_deltas index previous xs = Inr e"
proof (induction xs arbitrary: index previous)
  case (Cons x xs)
  then obtain e where "encode_deltas (index + 1) x xs = Inr e" by fastforce
  with Cons.prems(2) show ?case by auto
qed simp

lemma length_encode_deltas: "encode_deltas index previous xs = Inr e \<Longrightarrow> length xs \<le> length e"
proof (induction xs arbitrary: index previous e)
  case (Cons x xs)
  then obtain f where "encode_deltas (index + 1) x xs = Inr f"
    "e = write_varint (ucast (x - previous)) @ f"
    by (auto simp: and_then_eq_Inr split: if_splits)
  with Cons.IH [of "index + 1" x f] write_varint_length [of "ucast (x - previous)"]
  show ?case by (simp del: length_greater_0_conv)
qed simp

lemma decode_encode_deltas:
  assumes "encode_deltas index previous xs = Inr e" "bytes_at bs cur e"
    and "\<forall>x\<in>set xs. x < record_count" "index = 0 \<longrightarrow> previous = 0"
  shows "decode_deltas record_count (length xs) index previous bs cur = Inr (xs, cur + length e)"
  using assms
proof (induction xs arbitrary: index previous e cur)
  case (Cons x xs)
  let ?d = "write_varint (ucast (x - previous))"
  from Cons.prems(1) obtain f where f: "encode_deltas (index + 1) x xs = Inr f" "e = ?d @ f"
    and ord: "\<not> (0 < index \<and> x \<le> previous)"
    by (auto simp: and_then_eq_Inr split: if_splits)
  have "previous \<le> x" using ord Cons.prems(4) by (cases "index = 0") auto
  then have "checked_add previous (x - previous) = Some x" by (rule checked_add_diff)
  moreover have "bytes_at bs cur ?d" "bytes_at bs (cur + length ?d) f"
    using Cons.prems(2) f(2) by (simp_all add: bytes_at_append)
  moreover have "decode_deltas record_count (length xs) (index + 1) x bs (cur + length ?d) =
      Inr (xs, cur + length ?d + length f)"
    by (rule Cons.IH [OF f(1) calculation(3)]) (use Cons.prems(3) in auto)
  ultimately show ?case
    using ord Cons.prems(3) f(2) by (simp add: read_u32_write ok_or_def not_le add.assoc)
qed simp

lemma length_run_ordinals: "run_end r < 2 ^ 32 \<Longrightarrow> length (run_ordinals r) = unat (run_length r)"
  by (simp add: run_ordinals_def unat_run_end) (simp add: run_end_def)

lemma length_encode_run_list: "length rs \<le> length (encode_run_list p rs)"
proof (induction rs arbitrary: p)
  case (Cons r rs)
  show ?case using Cons.IH [of "saturating_add (run_start r) (run_length r)"]
      write_varint_length [of "ucast (run_start r - p)"]
    by (simp del: length_greater_0_conv)
qed simp

lemma decode_encode_run_list:
  assumes "runs_ok rs" "\<forall>r\<in>set rs. p \<le> run_start r \<and> run_end r \<le> unat record_count"
    and "bytes_at bs cur (encode_run_list p rs)" "members \<le> unat p"
  shows "decode_run_list record_count (length rs) members p bs cur =
    Inr ((rs, members + length (concat (map run_ordinals rs))), cur + length (encode_run_list p rs))"
  using assms
proof (induction rs arbitrary: p cur members)
  case (Cons r rs)
  let ?s = "write_varint (ucast (run_start r - p))" and ?l = "write_varint (ucast (run_length r))"
  let ?q = "run_start r + run_length r"
  have ok: "0 < run_length r" "run_end r < 2 ^ 32" "runs_ok rs"
    "\<forall>s\<in>set rs. run_end r \<le> unat (run_start s)"
    using Cons.prems(1) by (auto simp: runs_ok_Cons)
  have q: "unat ?q = run_end r" using ok(2) by (rule unat_run_end)
  have sat: "saturating_add (run_start r) (run_length r) = ?q"
    using ok(2) by (simp add: saturating_add_def run_end_def)
  have at: "bytes_at bs cur ?s" "bytes_at bs (cur + length ?s) ?l"
    "bytes_at bs (cur + length ?s + length ?l) (encode_run_list ?q rs)"
    using Cons.prems(3) sat by (simp_all add: bytes_at_append add.assoc)
  have "members + unat (run_length r) \<le> unat ?q"
    using Cons.prems(2,4) q by (auto simp: run_end_def word_le_nat_alt)
  moreover have "unat ?q < 2 ^ 32" using q ok(2) by simp
  ultimately have m: "members + unat (run_length r) \<le> unat ?q"
    "\<not> members + unat (run_length r) > usize_max" by simp_all
  have "decode_run_list record_count (length rs) (members + unat (run_length r)) ?q bs
      (cur + length ?s + length ?l) =
    Inr ((rs, members + unat (run_length r) + length (concat (map run_ordinals rs))),
      cur + length ?s + length ?l + length (encode_run_list ?q rs))"
    by (rule Cons.IH [OF ok(3) _ at(3) m(1)])
       (use Cons.prems(2) ok(4) q in \<open>auto simp: word_le_nat_alt\<close>)
  moreover have "checked_add p (run_start r - p) = Some (run_start r)"
    using Cons.prems(2) by (intro checked_add_diff) simp
  moreover have "checked_add (run_start r) (run_length r) = Some ?q"
    using q by (simp add: checked_add_Some run_end_def)
  moreover have "\<not> ?q > record_count"
    using Cons.prems(2) q by (simp add: word_less_nat_alt)
  ultimately show ?case
    using ok(1) m(2) sat read_u32_write [OF at(1)] read_u32_write [OF at(2)]
    by (simp add: ok_or_def length_run_ordinals [OF ok(2)] add.assoc)
qed simp

lemma decode_encode_posting:
  assumes "posting_ok p" "to_vec p \<noteq> []" "\<forall>x\<in>set (to_vec p). x < record_count"
    and "encode_posting p = Inr e" "bytes_at bs cur e"
  shows "decode_posting record_count bs cur = Inr (p, cur + length e)"
proof (cases p)
  case (Ordinals xs)
  from assms(4) Ordinals obtain n ds where
    n: "unat (n :: u64) = length xs" and ds: "encode_deltas 0 0 xs = Inr ds"
    and e: "e = DELTA_POSTING # write_varint n @ ds"
    by (auto simp: and_then_eq_Inr ok_or_def try_word_Some split: option.splits)
  let ?c = "cur + 1 + length (write_varint n)"
  have at: "bytes_at bs cur [DELTA_POSTING]" "bytes_at bs (cur + 1) (write_varint n)" "bytes_at bs ?c ds"
    using assms(5) e by (simp_all add: bytes_at_append bytes_at_Cons bytes_at_Nil)
  have "decode_deltas record_count (length xs) 0 0 bs ?c = Inr (xs, ?c + length ds)"
    by (rule decode_encode_deltas [OF ds at(3)]) (use assms(3) Ordinals in auto)
  moreover have "length xs \<le> length bs - ?c"
    using length_encode_deltas [OF ds] bytes_at_bound [OF at(3)] by simp
  ultimately show ?thesis
    using at(1) read_usize_write [OF at(2)] n e assms(2) Ordinals
    by (simp add: decode_posting_def read_byte_def bytes_at_single ensure_count_def)
next
  case (Runs rs m)
  from assms(2) Runs have "rs \<noteq> []" by auto
  with assms(4) Runs obtain n where n: "unat (n :: u64) = length rs"
    and e: "e = RUN_POSTING # write_varint n @ encode_run_list 0 rs"
    by (auto simp: encode_run_posting_def and_then_eq_Inr ok_or_def try_word_Some split: option.splits)
  have ok: "runs_ok rs" "m = length (concat (map run_ordinals rs))" using assms(1) Runs by simp_all
  have ends: "run_end r \<le> unat record_count" if "r \<in> set rs" for r
  proof -
    have r: "run_end r < 2 ^ 32" "0 < unat (run_length r)"
      using ok(1) that by (auto simp: runs_ok_def word_less_nat_alt)
    define k where "k = run_end r - 1"
    have "unat (of_nat k :: u32) = k" using r(1) by (simp add: k_def unat_of_nat)
    then have "of_nat k \<in> set (run_ordinals r)"
      using r by (simp add: set_run_ordinals word_le_nat_alt) (simp add: k_def run_end_def)
    then have "of_nat k < record_count" using assms(3) Runs that by auto
    then show ?thesis using \<open>unat (of_nat k :: u32) = k\<close> by (simp add: word_less_nat_alt k_def)
  qed
  let ?c = "cur + 1 + length (write_varint n)"
  have at: "bytes_at bs cur [RUN_POSTING]" "bytes_at bs (cur + 1) (write_varint n)"
    "bytes_at bs ?c (encode_run_list 0 rs)"
    using assms(5) e by (simp_all add: bytes_at_append bytes_at_Cons bytes_at_Nil)
  have "decode_run_list record_count (length rs) 0 0 bs ?c =
      Inr ((rs, m), ?c + length (encode_run_list 0 rs))"
    using decode_encode_run_list [OF ok(1) _ at(3), of record_count 0] ends ok(2) by simp
  moreover have "length rs \<le> length bs - ?c"
    using length_encode_run_list [of rs 0] bytes_at_bound [OF at(3)] by simp
  ultimately show ?thesis
    using at(1) read_usize_write [OF at(2)] n e \<open>rs \<noteq> []\<close> Runs
    by (simp add: decode_posting_def read_byte_def bytes_at_single ensure_count_def)
qed

section \<open>Decoded postings are well formed\<close>

lemma decode_deltas_ok:
  assumes "decode_deltas record_count n index previous bs cur = Inr (xs, cur')"
  shows "ascending xs \<and> (\<forall>x\<in>set xs. x < record_count) \<and>
    (0 < index \<longrightarrow> (\<forall>x\<in>set xs. previous < x)) \<and> length xs = n"
  using assms
proof (induction n arbitrary: index previous cur xs)
  case (Suc n)
  then obtain d c x ys where step:
    "checked_add previous d = Some x" "\<not> (x \<ge> record_count \<or> (0 < index \<and> x \<le> previous))"
    "decode_deltas record_count n (index + 1) x bs c = Inr (ys, cur')" "xs = x # ys"
    by (auto simp: and_then_eq_Inr ok_or_def split: if_splits option.splits)
  from Suc.IH [OF step(3)] step(2,4) show ?case by (auto simp: not_le)
qed simp

lemma decode_run_list_ok:
  assumes "decode_run_list record_count n members p bs cur = Inr ((rs, m), cur')"
  shows "runs_ok rs \<and> (\<forall>r\<in>set rs. p \<le> run_start r \<and> run_end r \<le> unat record_count) \<and>
    m = members + length (concat (map run_ordinals rs))"
  using assms
proof (induction n arbitrary: members p cur rs)
  case 0
  then show ?case by (simp add: runs_ok_def)
next
  case (Suc n)
  then obtain d start len stop c qs where step:
    "checked_add p d = Some start" "checked_add start len = Some stop" "len \<noteq> 0"
    "\<not> stop > record_count"
    "decode_run_list record_count n (members + unat len) stop bs c = Inr ((qs, m), cur')"
    "rs = \<lparr>run_start = start, run_length = len\<rparr> # qs"
    by (auto simp: and_then_eq_Inr ok_or_def split: if_splits option.splits)
  let ?r = "\<lparr>run_start = start, run_length = len\<rparr>"
  have e: "run_end ?r = unat stop" "p \<le> start"
    using step(1,2) by (auto simp: run_end_def checked_add_Some word_le_nat_alt)
  have fits: "run_end ?r < 2 ^ 32" using e(1) unat_bound [of stop] by simp
  have "run_end ?r \<le> unat record_count" using step(4) e(1) by (simp add: word_le_nat_alt not_less)
  moreover have "p \<le> q" if "stop \<le> q" for q
    using that e step(2) by (auto simp: checked_add_Some word_le_nat_alt)
  ultimately show ?case
    using Suc.IH [OF step(5)] step(3,6) e fits length_run_ordinals [OF fits]
    by (auto simp: runs_ok_Cons word_le_nat_alt word_gt_0)
qed

lemma decode_posting_ok:
  assumes "decode_posting record_count bs cur = Inr (p, cur')"
  shows "posting_ok p \<and> to_vec p \<noteq> [] \<and> (\<forall>x\<in>set (to_vec p). x < record_count)"
proof -
  from assms consider (deltas) n c xs where "p = Ordinals xs" "xs \<noteq> []"
      "decode_deltas record_count n 0 0 bs c = Inr (xs, cur')"
    | (runs) n c rs m where "p = Runs rs m" "rs \<noteq> []"
      "decode_run_list record_count n 0 0 bs c = Inr ((rs, m), cur')"
    by (auto simp: decode_posting_def and_then_eq_Inr split: if_splits)
  then show ?thesis
  proof cases
    case deltas
    then show ?thesis using decode_deltas_ok [OF deltas(3)] by simp
  next
    case runs
    have ok: "runs_ok rs" "\<forall>r\<in>set rs. run_end r \<le> unat record_count"
      "m = length (concat (map run_ordinals rs))"
      using decode_run_list_ok [OF runs(3)] by auto
    have "x < record_count" if "r \<in> set rs" "x \<in> set (run_ordinals r)" for r x
      using that ok by (auto simp: runs_ok_def set_run_ordinals word_less_nat_alt)
    moreover have "run_ordinals r \<noteq> []" if "r \<in> set rs" for r
      using that ok(1) length_run_ordinals [of r]
      by (auto simp: runs_ok_def word_less_nat_alt simp del: length_0_conv simp flip: length_0_conv)
    ultimately show ?thesis using ok(1,3) runs(1,2) by (cases rs) auto
  qed
qed

section \<open>Properties of the format\<close>

text \<open>C17: Variable-length integers: every 64-bit value takes one to ten bytes, and reading at the
  place where it was written gives it back and stops right behind it, whatever surrounds it.\<close>

theorem varint_round_trip:
  "read_varint (before @ write_varint v @ after) (length before) =
     Inr (v, length before + length (write_varint v)) \<and>
   length (write_varint v) \<in> {1..10}"
  using varint.dec_enc [of "before @ write_varint v @ after" "length before" v]
    write_varint_length [of v] write_varint_at_most [of v] by (simp del: length_greater_0_conv)

text \<open>C14: A well-formed, non-empty posting whose ordinals lie below the record count is read back
  exactly, in the same representation, from any position of the encoded index.\<close>

theorem posting_round_trip:
  assumes "posting_ok p" "to_vec p \<noteq> []" "\<forall>x\<in>set (to_vec p). x < record_count"
    and "encode_posting p = Inr e"
  shows "decode_posting record_count (before @ e @ after) (length before) = Inr (p, length before + length e)"
  by (rule decode_encode_posting [OF assms]) simp

theorem posting_round_trip_witness:
  "encode_posting (Ordinals [2, 300]) = Inr [0, 2, 2, 0xAA, 2] \<and>
   decode_posting 1000 ([7] @ [0, 2, 2, 0xAA, 2] @ [9]) 1 = Inr (Ordinals [2, 300], 6)"
proof -
  have e: "encode_posting (Ordinals [2, 300]) = Inr [0, 2, 2, 0xAA, 2]"
    by (simp add: write_varint.simps try_word_def)
  show ?thesis using e posting_round_trip [OF _ _ _ e, of 1000 "[7]" "[9]"] by simp
qed

text \<open>C15: Whatever bytes are decoded, a posting that is accepted is well-formed: ascending,
  without empty or overlapping runs, non-empty, its cardinality correct, and every ordinal below
  the record count, so that later operations on it cannot go out of range.\<close>

theorem decoded_posting_safe:
  assumes "decode_posting record_count bs cur = Inr (p, cur')"
  shows "posting_ok p \<and> cardinality p = length (to_vec p) \<and> to_vec p \<noteq> [] \<and> ascending (to_vec p) \<and>
    (\<forall>x\<in>set (to_vec p). x < record_count)"
  using decode_posting_ok [OF assms] by (simp add: cardinality_to_vec ascending_to_vec)

theorem decoded_posting_safe_witness:
  "decode_posting 100 [1, 1, 5, 3] 0 =
     Inr (Runs [\<lparr>run_start = 5, run_length = 3\<rparr>] 3, 4) \<and>
   list_all (\<lambda>x. x < 100)
     (to_vec (Runs [\<lparr>run_start = 5, run_length = 3\<rparr>] 3))"
proof -
  have d: "decode_posting 100 [1, 1, 5, 3] 0 =
      Inr (Runs [\<lparr>run_start = 5, run_length = 3\<rparr>] 3, 4)"
    by (simp add: decode_posting_def read_byte_def read_usize_def read_u32_def read_varint_def
        read_varint_loop.simps ensure_count_def checked_add_def try_word_def Let_def)
  show ?thesis using d decoded_posting_safe [OF d] by (simp add: list_all_iff)
qed

end
