(* ===== verification/Directory_Codec.thy ===== *)
theory Directory_Codec
  imports Index_Codec Sealed_Query "HOL-Library.List_Lexorder"
begin

text \<open>
  The persisted form of the query directory (\<^verbatim>\<open>encode\<close>, \<^verbatim>\<open>decode\<close>,
  \<^verbatim>\<open>encode_compressed\<close> and \<^verbatim>\<open>decode_compressed\<close> of
  \<^verbatim>\<open>src/query_index.rs\<close>). The zstd library is a parameter. A directory that was
  written and read back describes the same records: \<open>decoded_directory\<close> rebuilds the predicate
  on which all planning theorems rest.
\<close>

section \<open>Encoding\<close>

abbreviation QUERY_INDEX_MAGIC :: bytes where
  "QUERY_INDEX_MAGIC \<equiv> [0x53, 0x4c, 0x4f, 0x47, 0x51, 0x49, 0x58, 0x32]"

abbreviation COMPRESSED_QUERY_INDEX_MAGIC :: bytes where
  "COMPRESSED_QUERY_INDEX_MAGIC \<equiv> [0x53, 0x4c, 0x4f, 0x47, 0x51, 0x49, 0x5a, 0x32]"

text \<open>The postings of one block, in the byte order of their texts.\<close>

definition block_terms :: "persistent_query_index \<Rightarrow> query_block_metadata \<Rightarrow> (rstr \<times> posting_list) list" where
  "block_terms pq m =
     sort_by (\<lambda>l r. cmp (str_bytes (fst l)) (str_bytes (fst r)))
       (List.map_filter (\<lambda>(t, ps). map_option (Pair t) (posting_for_block ps (qb_block_ordinal m)))
         (lookup_list (pq_term_postings pq) (qb_topic_partition m)))"

definition block_fields ::
  "persistent_query_index \<Rightarrow> query_block_metadata \<Rightarrow> ((rstr \<times> rstr) \<times> posting_list) list" where
  "block_fields pq m =
     sort_by (\<lambda>l r. then_with (cmp (str_bytes (fst (fst l))) (str_bytes (fst (fst r))))
         (cmp (str_bytes (snd (fst l))) (str_bytes (snd (fst r)))))
       (concat (map (\<lambda>(k, vs). List.map_filter
           (\<lambda>(v, ps). map_option (Pair (k, v)) (posting_for_block ps (qb_block_ordinal m))) vs)
         (lookup_list (pq_field_postings pq) (qb_topic_partition m))))"

definition encode_term :: "rstr \<times> posting_list \<Rightarrow> bytes log_db_result" where
  "encode_term = (\<lambda>(t, p).
     and_then (append_bytes (str_bytes t)) (\<lambda>a.
     and_then (encode_posting p) (\<lambda>e. Inr (a @ e))))"

definition encode_field :: "(rstr \<times> rstr) \<times> posting_list \<Rightarrow> bytes log_db_result" where
  "encode_field = (\<lambda>((k, v), p).
     and_then (append_bytes (str_bytes k)) (\<lambda>a.
     and_then (append_bytes (str_bytes v)) (\<lambda>b.
     and_then (encode_posting p) (\<lambda>e. Inr (a @ b @ e)))))"

definition encode_list :: "('a \<Rightarrow> bytes log_db_result) \<Rightarrow> 'a list \<Rightarrow> bytes log_db_result" where
  "encode_list f xs =
     and_then (ok_or (try_word (length xs)) RecordTooLarge) (\<lambda>n.
     and_then (collect_results f xs) (\<lambda>es. Inr (write_varint n @ concat es)))"

definition encode_metadata :: "query_block_metadata \<Rightarrow> bytes" where
  "encode_metadata m =
     write_varint (ucast (qb_block_ordinal m)) @ le_bytes 16 (fst (qb_topic_partition m)) @
     le_bytes 4 (snd (qb_topic_partition m)) @ write_varint (qb_first_offset m) @
     write_varint (qb_last_offset m) @ write_varint (qb_min_timestamp m) @
     write_varint (qb_max_timestamp m) @ write_varint (ucast (qb_record_count m))"

text \<open>The filter words of every block of a directory are present, so that the slice exists.\<close>

definition encode_block :: "persistent_query_index \<Rightarrow> nat \<times> query_block_metadata \<Rightarrow> bytes log_db_result" where
  "encode_block pq = (\<lambda>(i, m).
     let start = saturating_mul i MESSAGE_TRIGRAM_FILTER_WORDS;
         words = take MESSAGE_TRIGRAM_FILTER_WORDS (drop start (pq_message_trigram_words pq)) in
     and_then (encode_list encode_term (block_terms pq m)) (\<lambda>ts.
     and_then (encode_list encode_field (block_fields pq m)) (\<lambda>fs.
       Inr (encode_metadata m @ filter_bytes words @ ts @ fs))))"

definition encode_directory :: "persistent_query_index \<Rightarrow> bytes log_db_result" where
  "encode_directory pq =
     and_then (encode_list (encode_block pq) (enumerate 0 (pq_blocks pq))) (\<lambda>e.
       Inr (QUERY_INDEX_MAGIC @ e))"

section \<open>Decoding\<close>

text \<open>\<^verbatim>\<open>encoded.get(cursor..cursor + n)\<close> with the checked addition before it.\<close>

definition read_slice :: "nat \<Rightarrow> log_db_error \<Rightarrow> log_db_error \<Rightarrow> (log_db_error, bytes) decoder" where
  "read_slice n overflow truncated bs cur =
     (if cur + n > usize_max then Inl overflow
      else case slice_get bs cur (cur + n) of None \<Rightarrow> Inl truncated | Some v \<Rightarrow> Inr (v, cur + n))"

definition decode_metadata :: "(log_db_error, query_block_metadata) decoder" where
  "decode_metadata bs cur =
     and_then (read_u32 bs cur) (\<lambda>(block_ordinal, cur).
     and_then (read_slice 16 (InvalidBlockEncoding ''query topic overflow'')
       (InvalidBlockEncoding ''truncated query topic'') bs cur) (\<lambda>(topic, cur).
     and_then (read_slice 4 (InvalidBlockEncoding ''query partition overflow'')
       (InvalidBlockEncoding ''truncated query partition'') bs cur) (\<lambda>(part, cur).
     and_then (read_varint bs cur) (\<lambda>(first_offset, cur).
     and_then (read_varint bs cur) (\<lambda>(last_offset, cur).
     and_then (read_varint bs cur) (\<lambda>(min_timestamp, cur).
     and_then (read_varint bs cur) (\<lambda>(max_timestamp, cur).
     and_then (read_u32 bs cur) (\<lambda>(record_count, cur).
       Inr (\<lparr>qb_block_ordinal = block_ordinal, qb_topic_partition = (le_word topic, le_word part),
         qb_first_offset = first_offset, qb_last_offset = last_offset, qb_min_timestamp = min_timestamp,
         qb_max_timestamp = max_timestamp, qb_record_count = record_count\<rparr>, cur)))))))))"

definition read_text :: "(log_db_error, rstr) decoder" where
  "read_text bs cur =
     and_then (read_bytes bs cur) (\<lambda>(v, cur). and_then (decode_text v) (\<lambda>t. Inr (t, cur)))"

fun decode_terms :: "u32 \<Rightarrow> nat \<Rightarrow> (rstr \<times> posting_list) list \<Rightarrow> (log_db_error, (rstr \<times> posting_list) list) decoder" where
  "decode_terms record_count 0 acc bs cur = Inr (acc, cur)"
| "decode_terms record_count (Suc n) acc bs cur =
     and_then (read_text bs cur) (\<lambda>(t, cur).
     and_then (decode_posting record_count bs cur) (\<lambda>(p, cur).
     if map_of acc t \<noteq> None then Inl (InvalidBlockEncoding ''duplicate indexed term'')
     else decode_terms record_count n (acc @ [(t, p)]) bs cur))"

fun decode_fields ::
  "u32 \<Rightarrow> nat \<Rightarrow> (rstr \<times> (rstr \<times> posting_list) list) list \<Rightarrow>
   (log_db_error, (rstr \<times> (rstr \<times> posting_list) list) list) decoder" where
  "decode_fields record_count 0 acc bs cur = Inr (acc, cur)"
| "decode_fields record_count (Suc n) acc bs cur =
     and_then (read_text bs cur) (\<lambda>(k, cur).
     and_then (read_text bs cur) (\<lambda>(v, cur).
     and_then (decode_posting record_count bs cur) (\<lambda>(p, cur).
     if map_of (lookup_list acc k) v \<noteq> None then Inl (InvalidBlockEncoding ''duplicate indexed field'')
     else decode_fields record_count n (push_entry k (v, p) acc) bs cur)))"

text \<open>A count, the check that it can fit into the remaining bytes, and as many entries.\<close>

definition decode_counted :: "(nat \<Rightarrow> (log_db_error, 'a) decoder) \<Rightarrow> (log_db_error, 'a) decoder" where
  "decode_counted dec bs cur =
     and_then (read_usize bs cur) (\<lambda>(n, cur).
     and_then (ensure_count n (length bs - cur)) (\<lambda>_. dec n bs cur))"

definition decode_block :: "(log_db_error, query_block_metadata \<times> block_query_index) decoder" where
  "decode_block bs cur =
     and_then (decode_metadata bs cur) (\<lambda>(m, cur).
     and_then (read_slice MESSAGE_TRIGRAM_FILTER_BYTES (InvalidBlockEncoding ''message trigram filter overflow'')
       (InvalidBlockEncoding ''truncated message trigram filter'') bs cur) (\<lambda>(f, cur).
     and_then (filter_from_bytes f) (\<lambda>filter.
     and_then (decode_counted (\<lambda>n. decode_terms (qb_record_count m) n []) bs cur) (\<lambda>(terms, cur).
     and_then (decode_counted (\<lambda>n. decode_fields (qb_record_count m) n []) bs cur) (\<lambda>(fields, cur).
       Inr ((m, \<lparr>bi_record_count = qb_record_count m, bi_message_trigrams = filter,
         bi_term_postings = terms, bi_field_postings = fields\<rparr>), cur))))))"

definition decode_directory :: "bytes \<Rightarrow> persistent_query_index log_db_result" where
  "decode_directory bs =
     (if slice_get bs 0 (length QUERY_INDEX_MAGIC) \<noteq> Some QUERY_INDEX_MAGIC
      then Inl (InvalidBlockEncoding ''missing query index magic'')
      else and_then (decode_counted (decode_n decode_block) bs (length QUERY_INDEX_MAGIC)) (\<lambda>(blocks, cur).
        if cur \<noteq> length bs then Inl (InvalidBlockEncoding ''trailing query index bytes'')
        else from_blocks blocks))"

section \<open>Compression\<close>

record zstd_lib =
  zstd_compress :: "int \<Rightarrow> bytes \<Rightarrow> string + bytes"
  zstd_decompress :: "bytes \<Rightarrow> nat \<Rightarrow> string + bytes"

definition encode_compressed :: "zstd_lib \<Rightarrow> persistent_query_index \<Rightarrow> int \<Rightarrow> bytes log_db_result" where
  "encode_compressed Z pq level =
     and_then (encode_directory pq) (\<lambda>raw.
     and_then (case zstd_compress Z level raw of Inl e \<Rightarrow> Inl (CompressionFailed e) | Inr c \<Rightarrow> Inr c) (\<lambda>c.
     and_then (ok_or (try_word (length raw)) RecordTooLarge) (\<lambda>n.
       Inr (COMPRESSED_QUERY_INDEX_MAGIC @ le_bytes 8 (n :: u64) @ c))))"

definition decode_compressed :: "zstd_lib \<Rightarrow> bytes \<Rightarrow> persistent_query_index log_db_result" where
  "decode_compressed Z bs =
     (if slice_get bs 0 8 \<noteq> Some COMPRESSED_QUERY_INDEX_MAGIC
      then Inl (InvalidBlockEncoding ''missing compressed query index magic'')
      else and_then (ok_or (slice_get bs 8 16) (InvalidBlockEncoding ''truncated query index length'')) (\<lambda>n.
        and_then (case zstd_decompress Z (drop 16 bs) (unat (le_word n :: u64)) of
            Inl _ \<Rightarrow> Inl (InvalidBlockEncoding ''invalid compressed query index'') | Inr raw \<Rightarrow> Inr raw)
          decode_directory))"

section \<open>Reading back what was written\<close>

text \<open>
  A format whose encoder can fail: whatever it produced is read back, at any position of a slice
  of addressable length.
\<close>

locale fallible_codec =
  fixes enc :: "'a \<Rightarrow> 'e + bytes"
    and dec :: "('e, 'a) decoder"
    and ok :: "'a \<Rightarrow> bool"
  assumes dec_enc: "enc v = Inr e \<Longrightarrow> ok v \<Longrightarrow> bytes_at bs cur e \<Longrightarrow> length bs \<le> usize_max \<Longrightarrow>
      dec bs cur = Inr (v, cur + length e)"
begin

lemma decode_results:
  assumes "collect_results enc vs = Inr es" "list_all ok vs" "bytes_at bs cur (concat es)" "length bs \<le> usize_max"
  shows "decode_n dec (length vs) bs cur = Inr (vs, cur + length (concat es))"
  using assms(1-3)
proof (induction vs arbitrary: es cur)
  case (Cons v vs)
  then obtain e es' where e: "enc v = Inr e" "collect_results enc vs = Inr es'" "es = e # es'"
    by (auto simp: and_then_eq_Inr)
  then have "dec bs cur = Inr (v, cur + length e)"
    using Cons.prems dec_enc [of v e bs cur] assms(4) by (simp add: bytes_at_append)
  then show ?case using Cons.IH [OF e(2), of "cur + length e"] Cons.prems e by (simp add: bytes_at_append add.assoc)
qed simp

end

lemma read_text_append:
  assumes "append_bytes (str_bytes t) = Inr e" "valid_str t" "bytes_at bs cur e" "length bs \<le> usize_max"
  shows "read_text bs cur = Inr (t, cur + length e)"
  using assms by (simp add: read_text_def read_bytes_append decode_text_def from_utf8_str_bytes)

interpretation text_codec: fallible_codec "\<lambda>t. append_bytes (str_bytes t)" read_text valid_str
  by unfold_locales (rule read_text_append)

definition storable :: "u32 \<Rightarrow> posting_list \<Rightarrow> bool" where
  "storable record_count p \<longleftrightarrow>
     posting_ok p \<and> to_vec p \<noteq> [] \<and> (\<forall>x\<in>set (to_vec p). x < record_count)"

interpretation posting_codec: fallible_codec encode_posting "decode_posting rc" "storable rc" for rc
  by unfold_locales (simp add: storable_def decode_encode_posting)

lemma decode_terms_encoded:
  assumes "collect_results encode_term ts = Inr es" "bytes_at bs cur (concat es)" "length bs \<le> usize_max"
    and "\<forall>(t, p)\<in>set ts. valid_str t \<and> storable rc p" "distinct (map fst (acc @ ts))"
  shows "decode_terms rc (length ts) acc bs cur = Inr (acc @ ts, cur + length (concat es))"
  using assms(1,2,4,5)
proof (induction ts arbitrary: es acc cur)
  case (Cons tp ts)
  obtain t p where tp: "tp = (t, p)" by (cases tp)
  from Cons.prems(1) obtain a e es' where e: "append_bytes (str_bytes t) = Inr a" "encode_posting p = Inr e"
    "collect_results encode_term ts = Inr es'" "es = (a @ e) # es'"
    by (auto simp: tp encode_term_def and_then_eq_Inr)
  note at = Cons.prems(2) [unfolded e(4), simplified, unfolded bytes_at_append]
  have "read_text bs cur = Inr (t, cur + length a)"
    using at Cons.prems(3) tp by (intro text_codec.dec_enc [OF e(1) _ _ assms(3)]) simp_all
  moreover have "decode_posting rc bs (cur + length a) = Inr (p, cur + length a + length e)"
    using at Cons.prems(3) tp by (intro posting_codec.dec_enc [OF e(2) _ _ assms(3)]) simp_all
  moreover have "map_of acc t = None" using Cons.prems(4) tp by (auto simp: map_of_eq_None_iff)
  ultimately show ?case
    using Cons.IH [OF e(3), of "cur + length a + length e" "acc @ [(t, p)]"] at Cons.prems(3,4) tp e(4)
    by (simp add: add.assoc del: not_None_eq)
qed simp

definition add_field ::
  "(rstr \<times> (rstr \<times> posting_list) list) list \<Rightarrow> (rstr \<times> rstr) \<times> posting_list \<Rightarrow> (rstr \<times> (rstr \<times> posting_list) list) list" where
  "add_field acc = (\<lambda>((k, v), p). push_entry k (v, p) acc)"

definition field_at :: "(rstr \<times> (rstr \<times> 'a) list) list \<Rightarrow> rstr \<times> rstr \<Rightarrow> 'a option" where
  "field_at acc f = map_of (lookup_list acc (fst f)) (snd f)"

lemma field_at_nested: "field_at acc (k, v) = nested_lookup acc k v"
  by (simp add: field_at_def nested_lookup_def lookup_list_def split: option.splits)

lemma field_at_add:
  assumes "field_at acc f = None"
  shows "field_at (add_field acc (f, p)) = (field_at acc)(f \<mapsto> p)"
proof
  fix g
  show "field_at (add_field acc (f, p)) g = ((field_at acc)(f \<mapsto> p)) g"
    using assms by (cases f; cases g) (auto simp: field_at_def add_field_def lookup_entry map_add_def split: option.splits)
qed

lemma decode_fields_encoded:
  assumes "collect_results encode_field fs = Inr es" "bytes_at bs cur (concat es)" "length bs \<le> usize_max"
    and "\<forall>((k, v), p)\<in>set fs. valid_str k \<and> valid_str v \<and> storable rc p"
    and "distinct (map fst fs)" "\<forall>f\<in>fst ` set fs. field_at acc f = None"
  shows "decode_fields rc (length fs) acc bs cur = Inr (foldl add_field acc fs, cur + length (concat es))"
  using assms(1,2,4,5,6)
proof (induction fs arbitrary: es acc cur)
  case (Cons f fs)
  obtain k v p where f: "f = ((k, v), p)" by (cases f) auto
  from Cons.prems(1) obtain a b e es' where e: "append_bytes (str_bytes k) = Inr a"
    "append_bytes (str_bytes v) = Inr b" "encode_posting p = Inr e"
    "collect_results encode_field fs = Inr es'" "es = (a @ b @ e) # es'"
    by (auto simp: f encode_field_def and_then_eq_Inr)
  note at = Cons.prems(2) [unfolded e(5), simplified, unfolded bytes_at_append]
  have "read_text bs cur = Inr (k, cur + length a)"
    using at Cons.prems(3) f by (intro text_codec.dec_enc [OF e(1) _ _ assms(3)]) simp_all
  moreover have "read_text bs (cur + length a) = Inr (v, cur + length a + length b)"
    using at Cons.prems(3) f by (intro text_codec.dec_enc [OF e(2) _ _ assms(3)]) simp_all
  moreover have "decode_posting rc bs (cur + length a + length b) = Inr (p, cur + length a + length b + length e)"
    using at Cons.prems(3) f by (intro posting_codec.dec_enc [OF e(3) _ _ assms(3)]) simp_all
  moreover have none: "field_at acc (k, v) = None" using Cons.prems(5) f by simp
  moreover have "decode_fields rc (length fs) (add_field acc f) bs (cur + length a + length b + length e) =
      Inr (foldl add_field (add_field acc f) fs, cur + length a + length b + length e + length (concat es'))"
    using at Cons.prems f field_at_add [OF none, of p]
    by (intro Cons.IH [OF e(4)]) (auto simp: image_iff)
  moreover have "add_field acc f = push_entry k (v, p) acc" by (simp add: f add_field_def)
  ultimately show ?case
    using f e(5) by (simp add: field_at_def add.assoc del: not_None_eq)
qed simp

lemma field_at_foldl:
  assumes "distinct (map fst fs)" "\<forall>f\<in>fst ` set fs. field_at acc f = None"
  shows "field_at (foldl add_field acc fs) = field_at acc ++ map_of fs"
  using assms
proof (induction fs arbitrary: acc)
  case (Cons x fs)
  obtain f p where x: "x = (f, p)" by (cases x)
  have none: "field_at acc f = None" using Cons.prems(2) x by simp
  have "field_at (foldl add_field (add_field acc x) fs) = (field_at acc)(f \<mapsto> p) ++ map_of fs"
    using Cons.prems x field_at_add [OF none, of p] by (subst Cons.IH) (auto simp: image_iff)
  also have "\<dots> = field_at acc ++ map_of (x # fs)"
  proof
    fix g
    have "map_of fs f = None" using Cons.prems(1) x by (simp add: map_of_eq_None_iff)
    then show "((field_at acc)(f \<mapsto> p) ++ map_of fs) g = (field_at acc ++ map_of (x # fs)) g"
      using x by (auto simp: map_add_def split: option.splits)
  qed
  finally show ?case unfolding foldl.simps .
qed simp

lemma set_update_subset: "set (AList.update k w al) \<subseteq> insert (k, w) (set al)"
  by (induction al) auto

lemma nested_distinct_add:
  assumes "nested_distinct acc" "field_at acc f = None"
  shows "nested_distinct (add_field acc (f, p))"
proof -
  obtain k v where f: "f = (k, v)" by (cases f)
  have "distinct (map fst (lookup_list acc k))"
    using assms(1) by (auto simp: nested_distinct_def lookup_list_def split: option.splits dest: map_of_SomeD)
  moreover have "v \<notin> fst ` set (lookup_list acc k)"
    using assms(2) f by (simp add: field_at_def map_of_eq_None_iff)
  ultimately have "distinct (map fst (lookup_list acc k @ [(v, p)]))" by simp
  then show ?thesis
    using assms(1) set_update_subset [of k "lookup_list acc k @ [(v, p)]" acc]
    by (auto simp: f add_field_def entry_or_default_def nested_distinct_def distinct_update)
qed

lemma nested_distinct_foldl:
  assumes "nested_distinct acc" "distinct (map fst fs)" "\<forall>f\<in>fst ` set fs. field_at acc f = None"
  shows "nested_distinct (foldl add_field acc fs)"
  using assms
proof (induction fs arbitrary: acc)
  case (Cons x fs)
  obtain f p where x: "x = (f, p)" by (cases x)
  have none: "field_at acc f = None" using Cons.prems(3) x by simp
  show ?case
    using Cons.prems x field_at_add [OF none, of p]
    by (simp, intro Cons.IH nested_distinct_add none) (auto simp: image_iff)
qed simp

lemma decode_counted_at:
  assumes "bytes_at bs cur (write_varint n @ e)" "unat n \<le> length e"
  shows "decode_counted dec bs cur = dec (unat n) bs (cur + length (write_varint n))"
proof -
  have "unat n \<le> length bs - (cur + length (write_varint n))"
    using bytes_at_bound [OF assms(1)] assms(2) by simp
  then show ?thesis
    using assms(1) read_usize_write [of bs cur n] assms(2)
    by (simp add: decode_counted_def bytes_at_append ensure_count_def)
qed

lemma encode_list_parts:
  assumes "encode_list f xs = Inr e" "\<And>x e. f x = Inr e \<Longrightarrow> e \<noteq> []"
  obtains n es where "e = write_varint n @ concat es" "unat n = length xs" "collect_results f xs = Inr es"
    "length xs \<le> length (concat es)"
proof -
  obtain n es where n: "try_word (length xs) = Some n" "collect_results f xs = Inr es" "e = write_varint n @ concat es"
    using assms(1) by (auto simp: encode_list_def and_then_eq_Inr ok_or_def split: option.splits)
  have "length ys \<le> length (concat es)" if "collect_results f ys = Inr es" for ys es
    using that
  proof (induction ys arbitrary: es)
    case (Cons y ys)
    then obtain e es' where "f y = Inr e" "collect_results f ys = Inr es'" "es = e # es'"
      by (auto simp: and_then_eq_Inr)
    with Cons.IH [of es'] assms(2) [of y e] show ?case by (cases e) auto
  qed simp
  then show ?thesis using that n by (auto simp: try_word_Some)
qed

lemma decode_metadata_at:
  assumes "bytes_at bs cur (encode_metadata m)" "length bs \<le> usize_max"
  shows "decode_metadata bs cur = Inr (m, cur + length (encode_metadata m))"
proof -
  have slice: "read_slice (length v) o1 o2 bs c = Inr (v, c + length v)" if "bytes_at bs c v" for v o1 o2 c
    using slice_get_at [OF that] bytes_at_bound [OF that] assms(2) by (simp add: read_slice_def)
  note topic = slice [of _ "le_bytes 16 (fst (qb_topic_partition m))", simplified]
  note part = slice [of _ "le_bytes 4 (snd (qb_topic_partition m))", simplified]
  show ?thesis
    using assms(1) unfolding encode_metadata_def bytes_at_append
    by (elim conjE) (simp add: decode_metadata_def read_u32_write read_varint_write topic part add.assoc)
qed

section \<open>Blocks of a directory\<close>

text \<open>
  What the type system and the construction give every directory: unique keys, texts that are
  UTF-8 strings, and ordered metadata bounds.
\<close>

definition terms_storable :: "(rstr \<times> 'a) list \<Rightarrow> bool" where
  "terms_storable ts \<longleftrightarrow> distinct (map fst ts) \<and> (\<forall>t\<in>fst ` set ts. valid_str t)"

definition fields_storable :: "(rstr \<times> (rstr \<times> 'a) list) list \<Rightarrow> bool" where
  "fields_storable fs \<longleftrightarrow> distinct (map fst fs) \<and>
     (\<forall>kv\<in>set fs. terms_storable (snd kv) \<and> (snd kv \<noteq> [] \<longrightarrow> valid_str (fst kv)))"

definition directory_storable :: "persistent_query_index \<Rightarrow> bool" where
  "directory_storable pq \<longleftrightarrow>
     (\<forall>tp. terms_storable (lookup_list (pq_term_postings pq) tp)) \<and>
     (\<forall>tp. fields_storable (lookup_list (pq_field_postings pq) tp)) \<and>
     (\<forall>m\<in>set (pq_blocks pq). qb_first_offset m \<le> qb_last_offset m \<and> qb_min_timestamp m \<le> qb_max_timestamp m)"

lemma directory_storableD:
  assumes "directory_storable pq"
  shows "terms_storable (lookup_list (pq_term_postings pq) tp)"
    "fields_storable (lookup_list (pq_field_postings pq) tp)"
    "m \<in> set (pq_blocks pq) \<Longrightarrow> qb_first_offset m \<le> qb_last_offset m \<and> qb_min_timestamp m \<le> qb_max_timestamp m"
  using assms unfolding directory_storable_def by blast+

lemma set_map_filter: "set (List.map_filter f xs) = {y. \<exists>x\<in>set xs. f x = Some y}"
  by (force simp: List.map_filter_def)

lemma set_map_filter_pair:
  "(u, p) \<in> set (List.map_filter (\<lambda>(v, x). map_option (Pair (h v)) (f x)) al) \<longleftrightarrow>
   (\<exists>v x. u = h v \<and> (v, x) \<in> set al \<and> f x = Some p)"
  by (force simp: set_map_filter)

lemma distinct_map_filter:
  assumes "distinct (map fst xs)" "\<And>x y. f x = Some y \<Longrightarrow> fst y = g (fst x)" "inj g"
  shows "distinct (map fst (List.map_filter f xs))"
  using assms(1)
proof (induction xs)
  case (Cons x xs)
  have "fst y \<notin> fst ` set (List.map_filter f xs)" if y: "f x = Some y" for y
  proof
    assume "fst y \<in> fst ` set (List.map_filter f xs)"
    then obtain z x' where "x' \<in> set xs" "f x' = Some z" "fst z = fst y" by (auto simp: set_map_filter)
    then have "fst x' = fst x" using assms(2) [OF y] assms(2) [of x' z] assms(3) by (simp add: inj_eq)
    then show False using Cons.prems \<open>x' \<in> set xs\<close> by (metis distinct.simps(2) image_eqI list.map(2) list.set_map)
  qed
  then show ?case using Cons by (cases "f x") (auto simp: map_filter_simps)
qed (simp add: map_filter_simps)

lemma distinct_map_sort_by: "distinct (map f (sort_by c xs)) = distinct (map f xs)"
  by (rule mset_eq_imp_distinct_iff) simp

lemma map_of_distinct_set:
  "distinct (map fst al) \<Longrightarrow> (\<And>x. (k, x) \<in> set al \<longleftrightarrow> r = Some x) \<Longrightarrow> map_of al k = r"
  by (cases r) (auto simp: map_of_eq_None_iff)

lemma set_block_terms:
  assumes "directory U bs pq" "directory_storable pq" "b \<in> set bs"
  shows "(t, p) \<in> set (block_terms pq (sb_meta b)) \<longleftrightarrow> term_of t b = Some p"
proof -
  let ?al = "lookup_list (pq_term_postings pq) (sb_partition b)"
  have "(t, ps) \<in> set ?al \<longleftrightarrow> map_of ?al t = Some ps" for ps
    using directory_storableD(1) [OF assms(2)] by (simp add: terms_storable_def)
  then have "(t, p) \<in> set (block_terms pq (sb_meta b)) \<longleftrightarrow>
      (\<exists>ps. map_of ?al t = Some ps \<and> posting_for_block ps (sb_ordinal b) = Some p)"
    unfolding block_terms_def set_sort_by set_map_filter_pair by simp
  also have "\<dots> \<longleftrightarrow> posting_for_block (lookup_list ?al t) (sb_ordinal b) = Some p"
    using posting_for_block_None [of "[]" "sb_ordinal b"] by (simp add: lookup_list_def split: option.splits)
  also have "\<dots> \<longleftrightarrow> term_of t b = Some p"
    unfolding directory_simps(5) [OF assms(1)]
    by (subst posting_for_postings_of [OF directory_simps(1) [OF assms(1)] assms(3) refl]) simp
  finally show ?thesis .
qed

lemma distinct_block_terms:
  assumes "directory_storable pq"
  shows "distinct (map fst (block_terms pq m))" "\<forall>t\<in>fst ` set (block_terms pq m). valid_str t"
proof -
  let ?f = "\<lambda>(t, ps). map_option (Pair t) (posting_for_block ps (qb_block_ordinal m))"
  let ?al = "lookup_list (pq_term_postings pq) (qb_topic_partition m)"
  have al: "terms_storable ?al" using directory_storableD(1) [OF assms] .
  have "distinct (map fst (List.map_filter ?f ?al))"
    using al by (intro distinct_map_filter [where g = id]) (auto simp: terms_storable_def)
  then show "distinct (map fst (block_terms pq m))"
    unfolding block_terms_def distinct_map_sort_by .
  have "valid_str t" if "(t, p) \<in> set (block_terms pq m)" for t p
    using that al unfolding block_terms_def set_sort_by set_map_filter_pair terms_storable_def by force
  then show "\<forall>t\<in>fst ` set (block_terms pq m). valid_str t" by auto
qed

lemma map_of_block_terms:
  assumes "directory U bs pq" "directory_storable pq" "b \<in> set bs"
  shows "map_of (block_terms pq (sb_meta b)) t = term_of t b"
  by (rule map_of_distinct_set [OF distinct_block_terms(1) [OF assms(2)] set_block_terms [OF assms]])

lemma set_field_entries:
  "((k, v), p) \<in> set (concat (map (\<lambda>(k, vs). List.map_filter
      (\<lambda>(v, ps). map_option (Pair (k, v)) (f ps)) vs) al)) \<longleftrightarrow>
   (\<exists>vs ps. (k, vs) \<in> set al \<and> (v, ps) \<in> set vs \<and> f ps = Some p)"
  by (auto simp: set_map_filter_pair)

lemma set_block_fields:
  assumes "directory U bs pq" "directory_storable pq" "b \<in> set bs"
  shows "((k, v), p) \<in> set (block_fields pq (sb_meta b)) \<longleftrightarrow> field_of k v b = Some p"
proof -
  let ?al = "lookup_list (pq_field_postings pq) (sb_partition b)"
  note al = directory_storableD(2) [OF assms(2), of "sb_partition b"]
  have vs: "distinct (map fst (lookup_list ?al k))"
    using al by (auto simp: fields_storable_def terms_storable_def lookup_list_def split: option.splits dest: map_of_SomeD)
  have "((k, v), p) \<in> set (block_fields pq (sb_meta b)) \<longleftrightarrow>
      (\<exists>vs ps. (k, vs) \<in> set ?al \<and> (v, ps) \<in> set vs \<and> posting_for_block ps (sb_ordinal b) = Some p)"
    unfolding block_fields_def set_sort_by set_field_entries ..
  also have "\<dots> \<longleftrightarrow> (\<exists>ps. (v, ps) \<in> set (lookup_list ?al k) \<and> posting_for_block ps (sb_ordinal b) = Some p)"
    using al by (auto simp: fields_storable_def terms_storable_def lookup_list_def split: option.splits)
  also have "\<dots> \<longleftrightarrow> (\<exists>ps. map_of (lookup_list ?al k) v = Some ps \<and> posting_for_block ps (sb_ordinal b) = Some p)"
    using vs by simp
  also have "\<dots> \<longleftrightarrow> posting_for_block (lookup_list (lookup_list ?al k) v) (sb_ordinal b) = Some p"
    using posting_for_block_None [of "[]" "sb_ordinal b"]
    by (simp add: lookup_list_def [of "lookup_list ?al k"] split: option.splits)
  also have "\<dots> \<longleftrightarrow> field_of k v b = Some p"
    unfolding directory_simps(6) [OF assms(1)]
    by (subst posting_for_postings_of [OF directory_simps(1) [OF assms(1)] assms(3) refl]) simp
  finally show ?thesis .
qed

lemma distinct_field_entries:
  assumes "distinct (map fst al)" "\<forall>vs\<in>snd ` set al. distinct (map fst vs)"
  shows "distinct (map fst (concat (map (\<lambda>(k, vs). List.map_filter
      (\<lambda>(v, ps). map_option (Pair (k, v)) (f ps)) vs) al)))"
  using assms
proof (induction al)
  case (Cons x al)
  obtain k vs where x: "x = (k, vs)" by (cases x)
  let ?e = "\<lambda>(k, vs). List.map_filter (\<lambda>(v, ps). map_option (Pair (k, v)) (f ps)) vs"
  have "distinct (map fst (?e x))"
    using Cons.prems(2) x by (auto intro!: distinct_map_filter [where g = "Pair k"] simp: inj_on_def)
  moreover have "fst ` set (?e x) \<inter> fst ` set (concat (map ?e al)) = {}"
  proof -
    have "fst u = k" if "u \<in> fst ` set (?e x)" for u
      using that x by (auto simp: set_map_filter_pair)
    moreover have "fst u \<in> fst ` set al" if "u \<in> fst ` set (concat (map ?e al))" for u
      using that by (cases u) (force simp: set_map_filter_pair)
    moreover have "k \<notin> fst ` set al" using Cons.prems(1) x by simp
    ultimately show ?thesis by blast
  qed
  ultimately show ?case using Cons by simp
qed simp

lemma distinct_block_fields:
  assumes "directory_storable pq"
  shows "distinct (map fst (block_fields pq m))"
    "((k, v), p) \<in> set (block_fields pq m) \<Longrightarrow> valid_str k \<and> valid_str v"
proof -
  note al = directory_storableD(2) [OF assms, of "qb_topic_partition m"]
  show "distinct (map fst (block_fields pq m))"
    unfolding block_fields_def distinct_map_sort_by
    by (rule distinct_field_entries) (use al in \<open>auto simp: fields_storable_def terms_storable_def\<close>)
  show "((k, v), p) \<in> set (block_fields pq m) \<Longrightarrow> valid_str k \<and> valid_str v"
    unfolding block_fields_def set_sort_by set_field_entries
    using al by (force simp: fields_storable_def terms_storable_def)
qed

lemma map_of_block_fields:
  assumes "directory U bs pq" "directory_storable pq" "b \<in> set bs"
  shows "map_of (block_fields pq (sb_meta b)) (k, v) = field_of k v b"
  by (rule map_of_distinct_set [OF distinct_block_fields(1) [OF assms(2)] set_block_fields [OF assms]])

lemma take_drop_concat:
  "\<forall>x\<in>set xss. length x = w \<Longrightarrow> i < length xss \<Longrightarrow> take w (drop (i * w) (concat xss)) = xss ! i"
proof (induction xss arbitrary: i)
  case (Cons x xss)
  then show ?case by (cases i) (simp_all add: add.commute)
qed simp

lemma storable_posting:
  assumes "posting_for P n (Some p)" "unat rc = n"
  shows "storable rc p"
proof -
  have "n \<le> 2 ^ 32" using unat_bound [of rc] assms(2) by simp
  then have "x < rc" if "x \<in> set (ordinals P n)" for x
    using that assms(2) by (simp add: set_ordinals word_less_nat_alt)
  then show ?thesis using assms(1) unfolding storable_def posting_for_def by auto
qed

lemma block_postings:
  assumes "sealed_ok U b"
  shows "term_of t b = Some p \<Longrightarrow> storable (qb_record_count (sb_meta b)) p"
    "field_of k v b = Some p \<Longrightarrow> storable (qb_record_count (sb_meta b)) p"
  using assms unfolding sealed_ok_def block_index_ok_def by (metis storable_posting)+

lemma encode_nonempty:
  "encode_term x = Inr e \<Longrightarrow> e \<noteq> []" "encode_field f = Inr e \<Longrightarrow> e \<noteq> []" "encode_block pq im = Inr e \<Longrightarrow> e \<noteq> []"
  using write_varint_length
  by (auto simp: encode_term_def encode_field_def encode_block_def encode_metadata_def append_bytes_def
      and_then_eq_Inr Let_def split: prod.splits)

lemma decode_block_encoded:
  assumes dir: "directory U bs pq" and ds: "directory_storable pq" and i: "i < length bs" "b = bs ! i"
    and e: "encode_block pq (i, sb_meta b) = Inr e" "bytes_at B cur e" "length B \<le> usize_max"
  shows "\<exists>bi. decode_block B cur = Inr ((sb_meta b, bi), cur + length e) \<and> block_index_ok U (sb_records b) bi"
proof -
  have b: "b \<in> set bs" using i by simp
  note ok = directory_simps(2) [OF dir b]
  let ?f = "bi_message_trigrams (sb_index b)" and ?ts = "block_terms pq (sb_meta b)"
  let ?fs = "block_fields pq (sb_meta b)"
  have "i < 2 ^ 32" using i few_blocks [OF dir] by simp
  then have "saturating_mul i MESSAGE_TRIGRAM_FILTER_WORDS = i * MESSAGE_TRIGRAM_FILTER_WORDS"
    by (simp add: saturating_mul_def)
  then have words: "take MESSAGE_TRIGRAM_FILTER_WORDS (drop (saturating_mul i MESSAGE_TRIGRAM_FILTER_WORDS)
      (pq_message_trigram_words pq)) = ?f"
    using take_drop_concat [OF directory_filters(2) [OF dir], of i] i directory_filters(1) [OF dir] by simp
  obtain te fe where parts: "encode_list encode_term ?ts = Inr te" "encode_list encode_field ?fs = Inr fe"
    "e = encode_metadata (sb_meta b) @ filter_bytes ?f @ te @ fe"
    using e(1) words by (auto simp: encode_block_def and_then_eq_Inr)
  obtain n ts where te: "te = write_varint n @ concat ts" "unat n = length ?ts"
    "collect_results encode_term ?ts = Inr ts" "length ?ts \<le> length (concat ts)"
    by (rule encode_list_parts [OF parts(1) encode_nonempty(1)])
  obtain n' fs where fe: "fe = write_varint n' @ concat fs" "unat n' = length ?fs"
    "collect_results encode_field ?fs = Inr fs" "length ?fs \<le> length (concat fs)"
    by (rule encode_list_parts [OF parts(2) encode_nonempty(2)])
  let ?rc = "qb_record_count (sb_meta b)"
  let ?c1 = "cur + length (encode_metadata (sb_meta b))"
  let ?c2 = "?c1 + MESSAGE_TRIGRAM_FILTER_BYTES" 
  have flen: "length ?f = MESSAGE_TRIGRAM_FILTER_WORDS"
    using ok by (simp add: sealed_ok_def block_index_ok_def filter_ok_def)
  note filter = filter_bytes_round_trip [OF flen]
  have at: "bytes_at B cur (encode_metadata (sb_meta b))" "bytes_at B ?c1 (filter_bytes ?f)"
    "bytes_at B ?c2 te" "bytes_at B (?c2 + length te) fe"
    using e(2) filter(2) unfolding parts(3) by (simp_all add: bytes_at_append add.assoc)
  have "read_slice MESSAGE_TRIGRAM_FILTER_BYTES o1 o2 B ?c1 = Inr (filter_bytes ?f, ?c2)" for o1 o2
    using slice_get_at [OF at(2)] bytes_at_bound [OF at(2)] e(3) filter(2) by (simp add: read_slice_def)
  moreover have "decode_counted (\<lambda>n. decode_terms ?rc n []) B ?c2 = Inr (?ts, ?c2 + length te)"
  proof -
    have "valid_str t \<and> storable ?rc p" if "(t, p) \<in> set ?ts" for t p
      using image_eqI [OF _ that, of t fst] distinct_block_terms(2) [OF ds, of "sb_meta b"] that
        set_block_terms [OF dir ds b] block_postings(1) [OF ok] by auto
    then have valid: "\<forall>(t, p)\<in>set ?ts. valid_str t \<and> storable ?rc p" by blast
    have "decode_terms ?rc (length ?ts) [] B (?c2 + length (write_varint n)) =
        Inr ([] @ ?ts, ?c2 + length (write_varint n) + length (concat ts))"
      using at(3) distinct_block_terms(1) [OF ds]
      by (intro decode_terms_encoded [OF te(3) _ e(3) valid]) (simp_all add: te(1) bytes_at_append)
    then show ?thesis
      using decode_counted_at [of B ?c2 n "concat ts" "\<lambda>n. decode_terms ?rc n []"] at(3) te by (simp add: add.assoc)
  qed
  moreover have "decode_counted (\<lambda>n. decode_fields ?rc n []) B (?c2 + length te) =
      Inr (foldl add_field [] ?fs, ?c2 + length te + length fe)"
  proof -
    have "\<forall>((k, v), p)\<in>set ?fs. valid_str k \<and> valid_str v \<and> storable ?rc p"
      using distinct_block_fields(2) [OF ds, of _ _ _ "sb_meta b"] set_block_fields [OF dir ds b]
        block_postings(2) [OF ok] by blast
    note valid = this
    have "decode_fields ?rc (length ?fs) [] B (?c2 + length te + length (write_varint n')) =
        Inr (foldl add_field [] ?fs, ?c2 + length te + length (write_varint n') + length (concat fs))"
      using at(4) distinct_block_fields(1) [OF ds]
      by (intro decode_fields_encoded [OF fe(3) _ e(3) valid]) (simp_all add: fe(1) bytes_at_append field_at_def)
    then show ?thesis
      using decode_counted_at [of B "?c2 + length te" n' "concat fs" "\<lambda>n. decode_fields ?rc n []"] at(4) fe by (simp add: add.assoc)
  qed
  ultimately have "decode_block B cur = Inr ((sb_meta b, \<lparr>bi_record_count = ?rc, bi_message_trigrams = ?f,
      bi_term_postings = ?ts, bi_field_postings = foldl add_field [] ?fs\<rparr>), cur + length e)"
    using decode_metadata_at [OF at(1) e(3)] filter parts(3) by (simp add: decode_block_def add.assoc)
  moreover have "block_index_ok U (sb_records b) \<lparr>bi_record_count = ?rc, bi_message_trigrams = ?f,
      bi_term_postings = ?ts, bi_field_postings = foldl add_field [] ?fs\<rparr>"
  proof -
    have "nested_lookup (foldl add_field [] ?fs) k v = field_of k v b" for k v
      using field_at_foldl [OF distinct_block_fields(1) [OF ds, of "sb_meta b"], of "[]"]
        map_of_block_fields [OF dir ds b, of k v]
      by (simp add: field_at_nested [symmetric]) (simp add: field_at_def map_add_def split: option.splits)
    moreover have "nested_distinct (foldl add_field [] ?fs)"
      by (rule nested_distinct_foldl [OF _ distinct_block_fields(1) [OF ds]])
         (simp_all add: nested_distinct_def field_at_def)
    ultimately show ?thesis
      using ok distinct_block_terms(1) [OF ds] map_of_block_terms [OF dir ds b]
      by (simp add: sealed_ok_def block_index_ok_def)
  qed
  ultimately show ?thesis by blast
qed

section \<open>The round trip\<close>

lemma decode_blocks_encoded:
  assumes dir: "directory U bs pq" and ds: "directory_storable pq" and B: "length B \<le> usize_max"
    and xs: "j + length xs = length bs" "xs = drop j bs"
    and e: "collect_results (encode_block pq) (enumerate j (map sb_meta xs)) = Inr es" "bytes_at B cur (concat es)"
  shows "\<exists>bis. decode_n decode_block (length xs) B cur = Inr (zip (map sb_meta xs) bis, cur + length (concat es)) \<and>
    list_all2 (\<lambda>b bi. block_index_ok U (sb_records b) bi) xs bis"
  using xs e
proof (induction xs arbitrary: j es cur)
  case (Cons b xs)
  from Cons.prems(3) obtain e es' where e: "encode_block pq (j, sb_meta b) = Inr e"
    "collect_results (encode_block pq) (enumerate (Suc j) (map sb_meta xs)) = Inr es'" "es = e # es'"
    by (auto simp: and_then_eq_Inr)
  have less: "j < length bs" using Cons.prems(1) by simp
  have "b # xs = bs ! j # drop (Suc j) bs"
    unfolding Cons.prems(2) by (rule Cons_nth_drop_Suc [OF less, symmetric])
  then have j: "b = bs ! j" "xs = drop (Suc j) bs" by simp_all
  obtain bi where bi: "decode_block B cur = Inr ((sb_meta b, bi), cur + length e)" "block_index_ok U (sb_records b) bi"
    using decode_block_encoded [OF dir ds less j(1) e(1) _ B, of cur] Cons.prems(4) e(3)
    by (auto simp: bytes_at_append)
  obtain bis where "decode_n decode_block (length xs) B (cur + length e) =
      Inr (zip (map sb_meta xs) bis, cur + length e + length (concat es'))"
    "list_all2 (\<lambda>b bi. block_index_ok U (sb_records b) bi) xs bis"
    using Cons.IH [OF _ j(2) e(2), of "cur + length e"] Cons.prems(1,4) e(3) by (auto simp: bytes_at_append)
  then show ?case
    using bi e(3) by (intro exI [of _ "bi # bis"]) (simp add: add.assoc)
qed simp

lemma add_blocks_total:
  "\<forall>(m, bi)\<in>set xs. metadata_valid m bi \<Longrightarrow> \<exists>pq'. add_blocks pq xs = Inr pq'"
  by (induction xs arbitrary: pq) (auto simp: add_block_def)

lemma from_blocks_total:
  assumes "\<forall>(m, bi)\<in>set xs. metadata_valid m bi" "distinct (map (qb_block_ordinal \<circ> fst) xs)"
  shows "\<exists>pq. from_blocks xs = Inr pq"
proof -
  let ?ys = "sort_by (\<lambda>a b. cmp (qb_block_ordinal (fst a)) (qb_block_ordinal (fst b))) xs"
  have "distinct (map (qb_block_ordinal \<circ> fst) ?ys)" using assms(2) unfolding distinct_map_sort_by .
  then have "\<not> list_ex (\<lambda>p. qb_block_ordinal (fst (p ! 0)) = qb_block_ordinal (fst (p ! 1))) (windows 2 ?ys)"
    unfolding windows_adjacent by (auto simp: distinct_conv_nth)
  moreover obtain q where "add_blocks empty_directory ?ys = Inr q"
    using add_blocks_total [of ?ys empty_directory] assms(1) by auto
  ultimately show ?thesis by (auto simp: from_blocks_def Let_def split: prod.splits)
qed

lemma add_blocks_valid:
  "add_blocks pq xs = Inr pq' \<Longrightarrow> \<forall>(m, bi)\<in>set xs. metadata_valid m bi"
  by (induction xs arbitrary: pq) (auto simp: add_block_def and_then_eq_Inr split: if_splits)

lemma sorted_adjacent_distinct:
  fixes key :: "'a \<Rightarrow> 'k::linorder"
  assumes "\<not> list_ex (\<lambda>p. key (p ! 0) = key (p ! 1)) (windows 2 (sort_by (\<lambda>a b. cmp (key a) (key b)) xs))"
  shows "distinct (map key xs)"
proof -
  let ?ys = "sort_by (\<lambda>a b. cmp (key a) (key b)) xs"
  have "key (?ys ! i) < key (?ys ! Suc i)" if "Suc i < length ?ys" for i
    using assms sorted_wrt_nth_less [OF sorted_by_key [of key xs], of i "Suc i"] that
    unfolding windows_adjacent by auto
  then have "sorted_wrt (<) (map key ?ys)" by (simp add: sorted_wrt_iff_nth_Suc_transp transp_on_less)
  then have "distinct (map key ?ys)" by (simp add: strict_sorted_iff)
  then show ?thesis unfolding distinct_map_sort_by .
qed

text \<open>C16: The directory of sealed blocks is refused exactly when it must be: building it succeeds if
  and only if no two blocks carry the same ordinal and every block's metadata is consistent, its
  record count that of its index and its offset and timestamp ranges not reversed.\<close>

theorem from_blocks_accepts:
  "(\<exists>pq. from_blocks xs = Inr pq) \<longleftrightarrow>
     list_all (\<lambda>(m, bi). qb_record_count m = bi_record_count bi \<and> qb_first_offset m \<le> qb_last_offset m \<and>
       qb_min_timestamp m \<le> qb_max_timestamp m) xs \<and>
     distinct (map (\<lambda>(m, bi). qb_block_ordinal m) xs)"
proof -
  have valid: "(\<lambda>(m, bi). qb_record_count m = bi_record_count bi \<and> qb_first_offset m \<le> qb_last_offset m \<and>
      qb_min_timestamp m \<le> qb_max_timestamp m) = (\<lambda>(m, bi). metadata_valid m bi)"
    by (auto simp: metadata_valid_def not_less fun_eq_iff)
  have key: "(\<lambda>(m, bi). qb_block_ordinal m) = (\<lambda>x :: query_block_metadata \<times> block_query_index. qb_block_ordinal (fst x))"
    by auto
  have "list_all (\<lambda>(m, bi). metadata_valid m bi) xs \<and> distinct (map (\<lambda>x. qb_block_ordinal (fst x)) xs)"
    if "from_blocks xs = Inr pq" for pq
    using that sorted_adjacent_distinct [of "\<lambda>x. qb_block_ordinal (fst x)" xs]
    by (fastforce simp: from_blocks_def Let_def and_then_eq_Inr list_all_iff split_beta split: if_splits dest: add_blocks_valid)
  then show ?thesis unfolding key valid using from_blocks_total [of xs] by (auto simp: list_all_iff comp_def)
qed

lemma from_blocks_ascending:
  assumes "from_blocks (map (\<lambda>b. (sb_meta b, sb_index b)) bs) = Inr pq" "\<forall>b\<in>set bs. sealed_ok U b"
    and "ascending (map sb_ordinal bs)"
  shows "directory U bs pq"
proof -
  have "sorted_wrt (\<lambda>a b. cmp (sb_ordinal a) (sb_ordinal b) \<noteq> Greater) bs"
    using assms(3) unfolding sorted_wrt_map by (rule sorted_wrt_mono_rel [rotated]) (simp add: cmp_not_Greater)
  then show ?thesis using from_blocks_directory [OF assms(1,2)] by (simp add: sort_by_sorted)
qed

text \<open>A directory written and read back describes the same blocks and records.\<close>

lemma decoded_directory:
  assumes dir: "directory U bs pq" and ds: "directory_storable pq"
    and e: "encode_directory pq = Inr e" "length e \<le> usize_max"
  shows "\<exists>pq' bs'. decode_directory e = Inr pq' \<and> directory U bs' pq' \<and>
    map sb_meta bs' = map sb_meta bs \<and> map sb_records bs' = map sb_records bs"
proof -
  note metas = directory_simps(3) [OF dir]
  obtain body where body: "encode_list (encode_block pq) (enumerate 0 (map sb_meta bs)) = Inr body"
    "e = QUERY_INDEX_MAGIC @ body"
    using e(1) metas by (auto simp: encode_directory_def and_then_eq_Inr)
  obtain n es where n: "body = write_varint n @ concat es" "unat n = length (enumerate 0 (map sb_meta bs))"
    "collect_results (encode_block pq) (enumerate 0 (map sb_meta bs)) = Inr es"
    "length (enumerate 0 (map sb_meta bs)) \<le> length (concat es)"
    by (rule encode_list_parts [OF body(1) encode_nonempty(3)])
  have "length QUERY_INDEX_MAGIC = 8" by simp
  with bytes_at_middle [of QUERY_INDEX_MAGIC body "[]"]
  have at: "bytes_at e 8 (write_varint n @ concat es)" unfolding body(2) n(1) append_Nil2 by argo
  obtain bis where bis: "decode_n decode_block (length bs) e (8 + length (write_varint n)) =
      Inr (zip (map sb_meta bs) bis, 8 + length (write_varint n) + length (concat es))"
    "list_all2 (\<lambda>b bi. block_index_ok U (sb_records b) bi) bs bis"
    using decode_blocks_encoded [OF dir ds e(2) _ _ n(3), of "8 + length (write_varint n)"] at
    by (auto simp: bytes_at_append)
  define bs' where "bs' = map2 (\<lambda>b bi. b\<lparr>sb_index := bi\<rparr>) bs bis"
  have len: "length bis = length bs" using bis(2) by (simp add: list_all2_lengthD)
  have same: "map sb_meta bs' = map sb_meta bs" "map sb_records bs' = map sb_records bs"
    and zip: "zip (map sb_meta bs) bis = map (\<lambda>b. (sb_meta b, sb_index b)) bs'"
    using len by (simp_all add: bs'_def list_eq_iff_nth_eq)
  have sealed: "\<forall>b\<in>set bs'. sealed_ok U b"
  proof
    fix b assume "b \<in> set bs'"
    then obtain i where i: "i < length bs" "b = (bs ! i)\<lparr>sb_index := bis ! i\<rparr>"
      using len by (auto simp: bs'_def in_set_conv_nth)
    moreover have "block_index_ok U (sb_records (bs ! i)) (bis ! i)" using list_all2_nthD [OF bis(2) i(1)] .
    ultimately show "sealed_ok U b" using directory_simps(2) [OF dir, of "bs ! i"] by (simp add: sealed_ok_def)
  qed
  have asc: "ascending (map sb_ordinal bs')"
    using directory_simps(1) [OF dir] arg_cong [OF same(1), of "map qb_block_ordinal"] by (simp add: comp_def)
  have valid: "metadata_valid (sb_meta b) (sb_index b)" if "b \<in> set bs'" for b
  proof -
    have "sb_meta b \<in> set (pq_blocks pq)" using that same(1) metas by (metis image_eqI list.set_map)
    then show ?thesis
      using directory_storableD(3) [OF ds] sealed that
      by (force simp: metadata_valid_def sealed_ok_def block_index_ok_def word_unat_eq_iff)
  qed
  obtain pq' where pq': "from_blocks (zip (map sb_meta bs) bis) = Inr pq'"
    using from_blocks_total [of "zip (map sb_meta bs) bis"] valid asc
    unfolding zip by (auto simp: comp_def strict_sorted_iff)
  have "decode_directory e = Inr pq'"
    using body(2) at n bis(1) pq' decode_counted_at [OF at, of "decode_n decode_block"]
    by (simp add: decode_directory_def slice_get_def eval_nat_numeral)
  moreover have "directory U bs' pq'"
    by (rule from_blocks_ascending [OF pq' [unfolded zip] sealed asc])
  ultimately show ?thesis using same by blast
qed

definition zstd_faithful :: "zstd_lib \<Rightarrow> bool" where
  "zstd_faithful Z \<longleftrightarrow>
     (\<forall>level raw c. zstd_compress Z level raw = Inr c \<longrightarrow> zstd_decompress Z c (length raw) = Inr raw)"

lemma decode_compressed_encoded:
  assumes "zstd_faithful Z" "encode_compressed Z pq level = Inr e"
  shows "\<exists>raw. encode_directory pq = Inr raw \<and> decode_compressed Z e = decode_directory raw \<and>
    length raw \<le> usize_max"
proof -
  from assms(2) obtain raw where dir: "encode_directory pq = Inr raw"
    by (auto simp: encode_compressed_def and_then_eq_Inr)
  with assms(2) obtain c n where raw: "encode_directory pq = Inr raw" "zstd_compress Z level raw = Inr c"
    "try_word (length raw) = Some (n :: u64)" "e = COMPRESSED_QUERY_INDEX_MAGIC @ le_bytes 8 n @ c"
    by (cases "zstd_compress Z level raw") (auto simp: encode_compressed_def and_then_eq_Inr)
  have "slice_get e 8 16 = Some (le_bytes 8 n)" "drop 16 e = c" "slice_get e 0 8 = Some COMPRESSED_QUERY_INDEX_MAGIC"
    by (simp_all add: raw(4) slice_get_def)
  moreover have "le_word (le_bytes 8 n) = n" by simp
  moreover have "unat n = length raw" "length raw \<le> usize_max"
    using raw(3) unat_bound [of n] by (simp_all add: try_word_Some)
  ultimately show ?thesis
    using raw(1,2) assms(1) by (simp add: decode_compressed_def zstd_faithful_def)
qed

section \<open>Directories built from records are storable\<close>

lemma terms_storable_entry:
  "terms_storable al \<Longrightarrow> valid_str k \<Longrightarrow> terms_storable (entry_or_default k f al)"
  by (auto simp: terms_storable_def entry_or_default_def distinct_update dest: subsetD [OF set_update_subset])

lemma terms_storable_add_terms:
  "terms_storable al \<Longrightarrow> \<forall>t\<in>fst ` set ps. valid_str t \<Longrightarrow> terms_storable (add_terms m ps al)"
  unfolding add_terms_def
  by (induction ps arbitrary: al) (auto simp: terms_storable_entry)

lemma fields_storable_lookup:
  assumes "fields_storable al"
  shows "terms_storable (lookup_list al k)" "lookup_list al k \<noteq> [] \<Longrightarrow> valid_str k"
  using assms
  by (force simp: fields_storable_def lookup_list_def terms_storable_def split: option.splits dest: map_of_SomeD)+

lemma fields_storable_entry:
  assumes "fields_storable al" "terms_storable (f (lookup_list al k))" "f (lookup_list al k) \<noteq> [] \<longrightarrow> valid_str k"
  shows "fields_storable (entry_or_default k f al)"
proof -
  have "terms_storable (snd kv) \<and> (snd kv \<noteq> [] \<longrightarrow> valid_str (fst kv))"
    if "kv \<in> insert (k, f (lookup_list al k)) (set al)" for kv
    using that assms by (auto simp: fields_storable_def)
  then show ?thesis
    using assms(1) set_update_subset [of k "f (lookup_list al k)" al]
    unfolding fields_storable_def entry_or_default_def by (auto simp only: distinct_update)
qed

lemma fields_storable_add_fields:
  "fields_storable al \<Longrightarrow> fields_storable fs \<Longrightarrow> fields_storable (add_fields m fs al)"
  unfolding add_fields_def
proof (induction fs arbitrary: al)
  case (Cons x fs)
  obtain k vs where x: "x = (k, vs)" by (cases x)
  have fs: "fields_storable fs" "vs \<noteq> [] \<Longrightarrow> valid_str k" "\<forall>t\<in>fst ` set vs. valid_str t"
    using Cons.prems(2) x by (auto simp: fields_storable_def terms_storable_def)
  note al = fields_storable_lookup [OF Cons.prems(1), of k]
  have "add_terms m vs (lookup_list al k) \<noteq> [] \<longrightarrow> valid_str k"
    using fs(2) al(2) by (cases "vs = []") (simp_all add: add_terms_def)
  then have "fields_storable (entry_or_default k (add_terms m vs) al)"
    using Cons.prems(1) terms_storable_add_terms [OF al(1) fs(3)] by (intro fields_storable_entry)
  then show ?case using Cons.IH [OF _ fs(1)] x by simp
qed simp

definition index_storable :: "block_query_index \<Rightarrow> bool" where
  "index_storable bi \<longleftrightarrow> terms_storable (bi_term_postings bi) \<and> fields_storable (bi_field_postings bi)"

lemma directory_storableI:
  assumes "\<And>tp. terms_storable (lookup_list (pq_term_postings pq) tp)"
    "\<And>tp. fields_storable (lookup_list (pq_field_postings pq) tp)"
    "\<And>m. m \<in> set (pq_blocks pq) \<Longrightarrow> qb_first_offset m \<le> qb_last_offset m \<and> qb_min_timestamp m \<le> qb_max_timestamp m"
  shows "directory_storable pq"
  using assms unfolding directory_storable_def by blast

lemma add_block_storable:
  assumes "directory_storable pq" "index_storable bi" "add_block pq (m, bi) = Inr pq'"
  shows "directory_storable pq'"
proof (rule directory_storableI)
  note d = directory_storableD [OF assms(1)]
  have bi: "\<forall>t\<in>fst ` set (bi_term_postings bi). valid_str t" "fields_storable (bi_field_postings bi)"
    using assms(2) by (auto simp: index_storable_def terms_storable_def)
  show "terms_storable (lookup_list (pq_term_postings pq') tp)" for tp
    using assms(3) d(1) [of tp] bi(1) by (auto simp: add_block_def lookup_entry terms_storable_add_terms split: if_splits)
  show "fields_storable (lookup_list (pq_field_postings pq') tp)" for tp
    using assms(3) d(2) [of tp] bi(2) by (auto simp: add_block_def lookup_entry fields_storable_add_fields split: if_splits)
  show "qb_first_offset m' \<le> qb_last_offset m' \<and> qb_min_timestamp m' \<le> qb_max_timestamp m'"
    if "m' \<in> set (pq_blocks pq')" for m'
    using that assms(3) d(3) by (auto simp: add_block_def metadata_valid_def split: if_splits)
qed

lemma add_blocks_storable:
  assumes "directory_storable pq" "\<forall>(m, bi)\<in>set xs. index_storable bi" "add_blocks pq xs = Inr pq'"
  shows "directory_storable pq'"
  using assms
proof (induction xs arbitrary: pq)
  case (Cons x xs)
  obtain m bi where x: "x = (m, bi)" by (cases x)
  obtain pq1 where "add_block pq (m, bi) = Inr pq1" "add_blocks pq1 xs = Inr pq'"
    using Cons.prems(3) x by (auto simp: and_then_eq_Inr)
  then show ?case
    using Cons.IH [of pq1] Cons.prems(1,2) add_block_storable [of pq bi m pq1] x by simp
qed simp

lemma from_blocks_storable:
  assumes "from_blocks xs = Inr pq" "\<forall>(m, bi)\<in>set xs. index_storable bi"
  shows "directory_storable pq"
proof -
  let ?ys = "sort_by (\<lambda>a b. cmp (qb_block_ordinal (fst a)) (qb_block_ordinal (fst b))) xs"
  obtain q where add: "add_blocks empty_directory ?ys = Inr q"
    using assms(1) by (auto simp: from_blocks_def Let_def and_then_eq_Inr split: if_splits)
  obtain u i where ui: "aggregate_message_trigrams (pq_message_trigram_words q) = (u, i)"
    by (cases "aggregate_message_trigrams (pq_message_trigram_words q)")
  have q: "add_blocks empty_directory ?ys = Inr q"
    "pq = q\<lparr>pq_message_trigram_union := u, pq_message_trigram_intersection := i\<rparr>"
    using assms(1) add ui by (auto simp: from_blocks_def Let_def split: if_splits)
  have "directory_storable empty_directory"
    by (rule directory_storableI)
       (simp_all add: empty_directory_def terms_storable_def fields_storable_def)
  then have "directory_storable q"
    by (rule add_blocks_storable [OF _ _ q(1)]) (use assms(2) in auto)
  then show ?thesis unfolding q(2) directory_storable_def by simp
qed

text \<open>Characters map to characters: what the type of \<^verbatim>\<open>char::to_lowercase\<close> guarantees.\<close>

definition ucd_scalars :: "ucd \<Rightarrow> bool" where
  "ucd_scalars U \<longleftrightarrow> (\<forall>c d. valid_scalar c \<longrightarrow> d \<in> set (ucd_lower U c) \<longrightarrow> valid_scalar d)"

lemma valid_lower_from: "ucd_scalars U \<Longrightarrow> valid_str s \<Longrightarrow> valid_str (lower_from U bef s)"
proof (induction s arbitrary: bef)
  case (Cons c s)
  have "valid_str (char_to_lower U c)"
    using Cons.prems
    by (auto simp: char_to_lower_def ucd_scalars_def list_all_iff to_ascii_lowercase_def valid_scalar_def)
  moreover have "valid_scalar 0x3C2" "valid_scalar 0x3C3" by (simp_all add: valid_scalar_def)
  ultimately show ?case using Cons by simp
qed simp

lemma valid_normalize_term: "ucd_scalars U \<Longrightarrow> valid_str s \<Longrightarrow> valid_str (normalize_term U s)"
  by (simp add: normalize_term_def to_lowercase_def valid_lower_from)

lemma valid_message_terms:
  assumes "ucd_scalars U" "valid_str msg" "t \<in> set (message_terms U msg)"
  shows "valid_str t"
proof -
  obtain w where w: "w \<in> set (scan_message_terms U msg)" "t = normalize_term U w"
    using assms(3) by (auto simp: message_terms_def)
  then have "sublist w msg" using tokens_in by (auto simp: scan_message_terms_tokens)
  then have "valid_str w" using assms(2) set_mono_sublist by (fastforce simp: list_all_iff)
  then show ?thesis using w(2) assms(1) by (simp add: valid_normalize_term)
qed

definition record_texts_valid :: "record_view \<Rightarrow> bool" where
  "record_texts_valid r \<longleftrightarrow>
     valid_str (view_message r) \<and> (\<forall>(k, v)\<in>set (view_fields r). valid_str k \<and> valid_str v)"

lemma posting_for_some: "posting_for P n (Some p) \<Longrightarrow> \<exists>k<n. P k"
  unfolding posting_for_def by (auto simp: ordinals_def filter_empty_conv) blast

lemma block_index_storable:
  assumes ok: "block_index_ok U rs bi" and "ucd_scalars U" "\<forall>r\<in>set rs. record_texts_valid r"
  shows "index_storable bi"
proof -
  have terms: "valid_str t" if "(t, p) \<in> set (bi_term_postings bi)" for t p
  proof -
    have "map_of (bi_term_postings bi) t = Some p"
      using that ok by (simp add: block_index_ok_def)
    then obtain k where "k < length rs" "has_term_at U rs t k"
      using ok posting_for_some unfolding block_index_ok_def by metis
    then show ?thesis
      using valid_message_terms [OF assms(2), of "view_message (rs ! k)" t] assms(3)
      by (simp add: record_texts_valid_def)
  qed
  have fields: "valid_str k \<and> valid_str v"
    if "(k, vs) \<in> set (bi_field_postings bi)" "(v, p) \<in> set vs" for k vs v p
  proof -
    have "nested_lookup (bi_field_postings bi) k v = Some p"
      using that ok by (auto simp: block_index_ok_def nested_distinct_def nested_lookup_def)
    then obtain i where "i < length rs" "has_field_at rs k v i"
      using ok posting_for_some unfolding block_index_ok_def by metis
    then show ?thesis using assms(3) by (fastforce simp: record_texts_valid_def)
  qed
  have "terms_storable vs \<and> (vs \<noteq> [] \<longrightarrow> valid_str k)" if kv: "(k, vs) \<in> set (bi_field_postings bi)" for k vs
  proof -
    have "distinct (map fst vs)" using ok kv by (auto simp: block_index_ok_def nested_distinct_def)
    moreover have "\<forall>v\<in>fst ` set vs. valid_str v" using fields [OF kv] by auto
    moreover have "valid_str k" if "vs \<noteq> []" using fields [OF kv, of "fst (hd vs)" "snd (hd vs)"] that by simp
    ultimately show ?thesis by (simp add: terms_storable_def)
  qed
  moreover have "distinct (map fst (bi_term_postings bi))" "distinct (map fst (bi_field_postings bi))"
    using ok by (simp_all add: block_index_ok_def nested_distinct_def)
  moreover have "\<forall>t\<in>fst ` set (bi_term_postings bi). valid_str t" using terms by auto
  ultimately show ?thesis
    unfolding index_storable_def fields_storable_def terms_storable_def [of "bi_term_postings bi"] by fastforce
qed

end
