(* ===== verification/Sealed_Pack.thy ===== *)
theory Sealed_Pack
  imports Pack_Query Directory_Codec
begin

text \<open>
  Sealing parsed records into an indexed pack (\<^verbatim>\<open>process_block\<close> and
  \<^verbatim>\<open>encode_query_index\<close> of \<^verbatim>\<open>src/bin/shard-log-structural-bench.rs\<close>) and querying it
  through the persisted index. The theorem spans the index builder, the directory, its codec,
  the planner and the streaming execution.
\<close>

section \<open>Sealing\<close>

abbreviation QUERY_PARTITION :: topic_partition where "QUERY_PARTITION \<equiv> (0, 0)"
abbreviation ZSTD_LEVEL :: int where "ZSTD_LEVEL \<equiv> 1"

datatype pack_error = IntegerOutOfRange | PackIndexError log_db_error

definition lift_error :: "log_db_error + 'a \<Rightarrow> pack_error + 'a" where
  "lift_error r = (case r of Inl e \<Rightarrow> Inl (PackIndexError e) | Inr v \<Rightarrow> Inr v)"

definition timestamp_bounds :: "record_view list \<Rightarrow> u64 \<times> u64" where
  "timestamp_bounds rs =
     foldl (\<lambda>(lo, hi) r. (min lo (view_timestamp r), max hi (view_timestamp r))) (- 1, 0) rs"

text \<open>The query index of one block, or none for a block without accepted records.\<close>

definition index_pack_block ::
  "ucd \<Rightarrow> nat \<Rightarrow> record_view list \<Rightarrow> pack_error + (query_block_metadata \<times> block_query_index) option" where
  "index_pack_block U ordinal rs =
     (if rs = [] then Inr None
      else let (lo, hi) = timestamp_bounds rs in
        and_then (ok_or (try_word ordinal) IntegerOutOfRange) (\<lambda>block_ordinal.
        and_then (ok_or (try_word (length rs)) IntegerOutOfRange) (\<lambda>record_count.
        and_then (lift_error (block_index_build U rs)) (\<lambda>bi.
          Inr (Some (\<lparr>qb_block_ordinal = block_ordinal, qb_topic_partition = QUERY_PARTITION,
            qb_first_offset = view_offset (hd rs), qb_last_offset = view_offset (last rs),
            qb_min_timestamp = lo, qb_max_timestamp = hi, qb_record_count = record_count\<rparr>, bi))))))"

definition encode_query_index ::
  "zstd_lib \<Rightarrow> (nat \<times> (query_block_metadata \<times> block_query_index) option) list \<Rightarrow> pack_error + bytes" where
  "encode_query_index Z entries =
     lift_error
       (and_then (from_blocks (List.map_filter snd (sort_by (\<lambda>a b. cmp (fst a) (fst b)) entries))) (\<lambda>pq.
         encode_compressed Z pq ZSTD_LEVEL))"

definition index_pack :: "ucd \<Rightarrow> zstd_lib \<Rightarrow> (nat \<times> record_view list) list \<Rightarrow> pack_error + bytes" where
  "index_pack U Z blocks =
     and_then (collect_results (\<lambda>(ordinal, rs).
         and_then (index_pack_block U ordinal rs) (\<lambda>ix. Inr (ordinal, ix))) blocks)
       (encode_query_index Z)"

section \<open>The sealed blocks\<close>

lemma lift_error_Inr [simp]: "lift_error r = Inr v \<longleftrightarrow> r = Inr v"
  by (cases r) (simp_all add: lift_error_def)

lemma timestamp_fold:
  "foldl (\<lambda>(lo, hi) r. (min lo (view_timestamp r), max hi (view_timestamp r))) (l, h) rs = (lo, hi) \<Longrightarrow>
   lo \<le> l \<and> h \<le> hi \<and> (\<forall>r\<in>set rs. lo \<le> view_timestamp r \<and> view_timestamp r \<le> hi)"
proof (induction rs arbitrary: l h)
  case (Cons r rs)
  from Cons.IH [of "min l (view_timestamp r)" "max h (view_timestamp r)"] Cons.prems show ?case by auto
qed simp

lemma offsets_bounded:
  assumes "sorted_wrt (<) (map view_offset rs)" "r \<in> set rs"
  shows "view_offset (hd rs) \<le> view_offset r \<and> view_offset r \<le> view_offset (last rs)"
proof -
  obtain i where i: "i < length rs" "r = rs ! i" using assms(2) by (auto simp: in_set_conv_nth)
  have "sorted (map view_offset rs)" using assms(1) by (simp add: strict_sorted_iff)
  then have "map view_offset rs ! 0 \<le> map view_offset rs ! i"
    "map view_offset rs ! i \<le> map view_offset rs ! (length rs - 1)"
    using sorted_nth_mono [of "map view_offset rs" 0 i] sorted_nth_mono [of "map view_offset rs" i "length rs - 1"] i(1)
    by auto
  moreover have "rs \<noteq> []" "0 < length rs" using i(1) by auto
  ultimately show ?thesis using i by (simp add: hd_conv_nth last_conv_nth)
qed

lemma index_pack_block_sealed:
  assumes "index_pack_block U ordinal rs = Inr (Some (m, bi))" "ucd_sane U"
    and "sorted_wrt (<) (map view_offset rs)"
  shows "sealed_ok U \<lparr>sb_meta = m, sb_records = rs, sb_index = bi\<rparr> \<and> rs \<noteq> [] \<and>
    unat (qb_block_ordinal m) = ordinal \<and> qb_topic_partition m = QUERY_PARTITION \<and>
    qb_first_offset m = view_offset (hd rs) \<and> qb_last_offset m = view_offset (last rs)"
proof -
  obtain lo hi where b: "timestamp_bounds rs = (lo, hi)" by (cases "timestamp_bounds rs")
  obtain block_ordinal record_count where
    parts: "try_word ordinal = Some block_ordinal" "try_word (length rs) = Some record_count"
      "block_index_build U rs = Inr bi" "rs \<noteq> []"
    and m: "m = \<lparr>qb_block_ordinal = block_ordinal, qb_topic_partition = QUERY_PARTITION,
            qb_first_offset = view_offset (hd rs), qb_last_offset = view_offset (last rs),
            qb_min_timestamp = lo, qb_max_timestamp = hi, qb_record_count = record_count\<rparr>"
    using assms(1) b by (auto simp: index_pack_block_def and_then_eq_Inr split: if_splits)
  have len: "unat record_count = length rs" "unat block_ordinal = ordinal"
    using parts(1,2) by (simp_all add: try_word_Some)
  then have "length rs < 2 ^ 32" using unat_bound [of record_count] by simp
  then have "block_index_ok U rs bi" using block_index_build_ok [OF assms(2)] parts(3) by fastforce
  moreover have "\<forall>r\<in>set rs. lo \<le> view_timestamp r \<and> view_timestamp r \<le> hi"
    using b timestamp_fold unfolding timestamp_bounds_def by blast
  ultimately show ?thesis
    using len parts(4) offsets_bounded [OF assms(3)] by (simp add: m sealed_ok_def)
qed

definition sealed_entry :: "ucd \<Rightarrow> nat \<times> record_view list \<Rightarrow> sealed_block \<Rightarrow> bool" where
  "sealed_entry U e b \<longleftrightarrow> sealed_ok U b \<and> sb_records b = snd e \<and> snd e \<noteq> [] \<and>
     unat (sb_ordinal b) = fst e \<and> sb_partition b = QUERY_PARTITION \<and>
     qb_first_offset (sb_meta b) = view_offset (hd (snd e)) \<and> qb_last_offset (sb_meta b) = view_offset (last (snd e))"

lemma sealed_entries:
  assumes "collect_results (\<lambda>(ordinal, rs).
      and_then (index_pack_block U ordinal rs) (\<lambda>ix. Inr (ordinal, ix))) blocks = Inr entries"
    and "ucd_sane U" "\<forall>(ordinal, rs)\<in>set blocks. sorted_wrt (<) (map view_offset rs)"
  shows "\<exists>sbs. List.map_filter snd entries = map (\<lambda>b. (sb_meta b, sb_index b)) sbs \<and>
    list_all2 (sealed_entry U) (filter (\<lambda>e. snd e \<noteq> []) blocks) sbs \<and> map fst entries = map fst blocks"
  using assms(1,3)
proof (induction blocks arbitrary: entries)
  case (Cons e blocks)
  obtain ordinal rs where e: "e = (ordinal, rs)" by (cases e)
  obtain ix es where ix: "index_pack_block U ordinal rs = Inr ix" "entries = (ordinal, ix) # es"
    and es: "collect_results (\<lambda>(ordinal, rs).
      and_then (index_pack_block U ordinal rs) (\<lambda>ix. Inr (ordinal, ix))) blocks = Inr es"
    using Cons.prems(1) e by (auto simp: and_then_eq_Inr)
  obtain sbs where sbs: "List.map_filter snd es = map (\<lambda>b. (sb_meta b, sb_index b)) sbs"
    "list_all2 (sealed_entry U) (filter (\<lambda>e. snd e \<noteq> []) blocks) sbs" "map fst es = map fst blocks"
    using Cons.IH [OF es] Cons.prems(2) by auto
  show ?case
  proof (cases ix)
    case None
    then have "rs = []"
      using ix(1) by (auto simp: index_pack_block_def and_then_eq_Inr split: if_splits prod.splits)
    then show ?thesis using sbs None ix(2) e by (intro exI [of _ sbs]) (simp add: map_filter_simps)
  next
    case (Some mb)
    obtain m bi where mb: "mb = (m, bi)" by (cases mb)
    have "sealed_entry U e \<lparr>sb_meta = m, sb_records = rs, sb_index = bi\<rparr>" "rs \<noteq> []"
      using index_pack_block_sealed [OF _ assms(2), of ordinal rs m bi] ix(1) Some mb Cons.prems(2) e
      by (auto simp: sealed_entry_def)
    then show ?thesis
      using sbs Some mb ix(2) e
      by (intro exI [of _ "\<lparr>sb_meta = m, sb_records = rs, sb_index = bi\<rparr> # sbs"]) (simp add: map_filter_simps)
  qed
qed (simp add: map_filter_simps)

section \<open>A pack answers queries exactly\<close>

text \<open>
  Blocks as the parser produces them: ascending ordinals, offsets ascending over all blocks, and
  texts that are strings without titlecase letters.
\<close>

definition pack_input :: "ucd \<Rightarrow> (nat \<times> record_view list) list \<Rightarrow> bool" where
  "pack_input U blocks \<longleftrightarrow>
     sorted_wrt (<) (map fst blocks) \<and> sorted_wrt (<) (map view_offset (concat (map snd blocks))) \<and>
     list_all (\<lambda>r. record_texts_valid r \<and> lower_stable U (view_message r)) (concat (map snd blocks))"

text \<open>Reading a block of the pack returns its records at the requested ordinals.\<close>

definition reads_pack :: "(nat \<times> record_view list) list \<Rightarrow> fetch \<Rightarrow> bool" where
  "reads_pack blocks fetch \<longleftrightarrow>
     (\<forall>(ordinal, rs)\<in>set blocks. \<forall>os. ascending os \<longrightarrow> (\<forall>x\<in>set os. unat x < length rs) \<longrightarrow>
        fetch (of_nat ordinal) os = Inr (map (\<lambda>x. rs ! unat x) os))"

lemma sorted_wrt_concat:
  assumes "sorted_wrt R (concat xss)"
  shows "xs \<in> set xss \<Longrightarrow> sorted_wrt R xs"
    "sorted_wrt (\<lambda>xs ys. \<forall>x\<in>set xs. \<forall>y\<in>set ys. R x y) xss"
  using assms by (induction xss) (auto simp: sorted_wrt_append)

lemma concat_nonempty: "concat (map snd (filter (\<lambda>e. snd e \<noteq> []) blocks)) = concat (map snd blocks)"
  by (induction blocks) auto

lemma index_pack_directory:
  assumes "index_pack U Z blocks = Inr e" "ucd_sane U" "ucd_scalars U" "pack_input U blocks"
  shows "\<exists>sbs pq. list_all2 (sealed_entry U) (filter (\<lambda>e. snd e \<noteq> []) blocks) sbs \<and> directory U sbs pq \<and>
    directory_storable pq \<and> encode_compressed Z pq ZSTD_LEVEL = Inr e"
proof -
  note input = assms(4) [unfolded pack_input_def]
  have sorted: "\<forall>(ordinal, rs)\<in>set blocks. sorted_wrt (<) (map view_offset rs)"
    using sorted_wrt_concat(1) [of "\<lambda>r s. view_offset r < view_offset s" "map snd blocks"] input
    by (force simp: sorted_wrt_map)
  obtain entries where entries: "collect_results (\<lambda>(ordinal, rs).
      and_then (index_pack_block U ordinal rs) (\<lambda>ix. Inr (ordinal, ix))) blocks = Inr entries"
    "encode_query_index Z entries = Inr e"
    using assms(1) by (auto simp: index_pack_def and_then_eq_Inr)
  obtain sbs where sbs: "List.map_filter snd entries = map (\<lambda>b. (sb_meta b, sb_index b)) sbs"
    "list_all2 (sealed_entry U) (filter (\<lambda>e. snd e \<noteq> []) blocks) sbs" "map fst entries = map fst blocks"
    using sealed_entries [OF entries(1) assms(2) sorted] by blast
  have "sorted_wrt (<) (map fst entries)" using input sbs(3) by simp
  then have "sorted_wrt (\<lambda>a b. cmp (fst a) (fst b) \<noteq> Greater) entries"
    unfolding sorted_wrt_map by (rule sorted_wrt_mono_rel [rotated]) (simp add: cmp_not_Greater)
  then obtain pq where pq: "from_blocks (map (\<lambda>b. (sb_meta b, sb_index b)) sbs) = Inr pq"
    "encode_compressed Z pq ZSTD_LEVEL = Inr e"
    using entries(2) sbs(1) by (auto simp: encode_query_index_def sort_by_sorted and_then_eq_Inr)
  have sealed: "\<forall>b\<in>set sbs. sealed_ok U b \<and> sb_records b \<in> snd ` set blocks"
  proof
    fix b assume "b \<in> set sbs"
    then obtain x where "x \<in> set (filter (\<lambda>e. snd e \<noteq> []) blocks)" "sealed_entry U x b"
      using list_all2_nthD2 [OF sbs(2)] list_all2_lengthD [OF sbs(2)] by (metis in_set_conv_nth)
    then show "sealed_ok U b \<and> sb_records b \<in> snd ` set blocks" by (auto simp: sealed_entry_def)
  qed
  have "map (unat \<circ> sb_ordinal) sbs = map fst (filter (\<lambda>e. snd e \<noteq> []) blocks)"
    using sbs(2) by (auto simp: list_all2_conv_all_nth sealed_entry_def intro: nth_equalityI)
  then have "sorted_wrt (<) (map (unat \<circ> sb_ordinal) sbs)"
    using input by (simp add: sorted_wrt_map sorted_wrt_filter)
  then have asc: "ascending (map sb_ordinal sbs)" by (simp add: sorted_wrt_map word_less_nat_alt)
  have "directory U sbs pq"
    by (rule from_blocks_ascending [OF pq(1) _ asc]) (use sealed in blast)
  moreover have "directory_storable pq"
  proof (rule from_blocks_storable [OF pq(1)])
    have "index_storable (sb_index b)" if b: "b \<in> set sbs" for b
    proof (rule block_index_storable [OF _ assms(3)])
      show "block_index_ok U (sb_records b) (sb_index b)" using sealed b by (simp add: sealed_ok_def)
      show "\<forall>r\<in>set (sb_records b). record_texts_valid r" using sealed b input by (auto simp: list_all_iff)
    qed
    then show "\<forall>(m, bi)\<in>set (map (\<lambda>b. (sb_meta b, sb_index b)) sbs). index_storable bi" by auto
  qed
  ultimately show ?thesis using sbs(2) pq(2) by blast
qed

lemma list_all2_nth_right:
  assumes "list_all2 R xs ys" "y \<in> set ys"
  shows "\<exists>x\<in>set xs. R x y"
  using assms list_all2_nthD2 [OF assms(1)] list_all2_lengthD [OF assms(1)] by (metis in_set_conv_nth)

text \<open>The records and metadata of a block, whatever index describes it.\<close>

definition packed :: "nat \<times> record_view list \<Rightarrow> sealed_block \<Rightarrow> bool" where
  "packed x b \<longleftrightarrow> sb_records b = snd x \<and> snd x \<noteq> [] \<and> unat (sb_ordinal b) = fst x \<and>
     sb_partition b = QUERY_PARTITION \<and> qb_first_offset (sb_meta b) = view_offset (hd (snd x)) \<and>
     qb_last_offset (sb_meta b) = view_offset (last (snd x))"

lemma packed_same:
  assumes "list_all2 (sealed_entry U) xs sbs" "map sb_meta bs = map sb_meta sbs" "map sb_records bs = map sb_records sbs"
  shows "list_all2 packed xs bs"
proof -
  have len: "length bs = length sbs" using assms(2) by (metis length_map)
  have "sb_meta (bs ! i) = sb_meta (sbs ! i)" "sb_records (bs ! i) = sb_records (sbs ! i)" if "i < length bs" for i
    using arg_cong [OF assms(2), of "\<lambda>ms. ms ! i"] arg_cong [OF assms(3), of "\<lambda>ms. ms ! i"] that len by simp_all
  then show ?thesis
    using assms(1) len by (simp add: list_all2_conv_all_nth packed_def sealed_entry_def)
qed

lemma packed_ordered:
  assumes "list_all2 packed xs bs" "sorted_wrt (\<lambda>r s. view_offset r < view_offset s) (concat (map snd xs))"
  shows "ordered_blocks QUERY_PARTITION bs"
proof -
  note all = list_all2_nthD2 [OF assms(1)] and len = list_all2_lengthD [OF assms(1)]
  have part: "filter (\<lambda>b. sb_partition b = QUERY_PARTITION) bs = bs"
    using list_all2_nth_right [OF assms(1)] by (auto simp: packed_def intro!: filter_True)
  note cross = sorted_wrt_concat(2) [OF assms(2), unfolded sorted_wrt_iff_nth_less]
  have "qb_last_offset (sb_meta (bs ! i)) < qb_first_offset (sb_meta (bs ! j))" if "i < j" "j < length bs" for i j
    using cross [rule_format, of i j] that len all [of i] all [of j] by (simp add: packed_def)
  then have "sorted_wrt (\<lambda>a b. qb_last_offset (sb_meta a) < qb_first_offset (sb_meta b)) bs"
    by (simp add: sorted_wrt_iff_nth_less)
  moreover have "qb_first_offset (sb_meta b) \<le> qb_last_offset (sb_meta b) \<and>
      sorted_wrt (<) (map view_offset (sb_records b))" if "b \<in> set bs" for b
  proof -
    obtain x where x: "x \<in> set xs" "packed x b" using list_all2_nth_right [OF assms(1) \<open>b \<in> set bs\<close>] by blast
    then have "sorted_wrt (<) (map view_offset (sb_records b))"
      using sorted_wrt_concat(1) [OF assms(2), of "snd x"] by (simp add: packed_def sorted_wrt_map)
    then show ?thesis using x(2) offsets_bounded [of "sb_records b" "hd (sb_records b)"] by (simp add: packed_def)
  qed
  ultimately show ?thesis by (simp add: ordered_blocks_def part)
qed

lemma packed_records:
  assumes "list_all2 packed xs bs"
  shows "partition_records QUERY_PARTITION bs = concat (map snd xs)"
  using assms by (induction xs bs rule: list_all2_induct) (auto simp: partition_records_def packed_def)

lemma packed_reads:
  assumes "list_all2 packed xs bs" "set xs \<subseteq> set blocks" "reads_pack blocks fetch"
  shows "reads_blocks bs fetch"
  unfolding reads_blocks_def
proof (intro ballI allI impI)
  fix b os assume b: "b \<in> set bs" and os: "ascending os" "\<forall>x\<in>set os. unat x < length (sb_records b)"
  obtain x where x: "x \<in> set xs" "packed x b" using list_all2_nth_right [OF assms(1) b] by blast
  moreover have "of_nat (unat (sb_ordinal b)) = sb_ordinal b" by simp
  ultimately have "(fst x, snd x) \<in> set blocks" "sb_ordinal b = of_nat (fst x)" "sb_records b = snd x"
    using assms(2) by (auto simp: packed_def simp del: of_nat_unat)
  then show "fetch (sb_ordinal b) os = Inr (map (\<lambda>x. sb_records b ! unat x) os)"
    using assms(3) os unfolding reads_pack_def by fastforce
qed

text \<open>C4: A query over a pack is answered exactly through its persisted index. When the records of
  parsed blocks are indexed, the directory compressed and written, read back, and a query planned
  on it and executed over the blocks with any number of workers, then the directory decodes, the
  execution succeeds, and it returns the very list, in order, that exact evaluation selects from
  all records of the pack. Neither the posting lists, the trigram filters, the pruning of blocks,
  the limit taken inside the index nor the early end of a page changes the answer. The zstd
  library returns what it compressed, the reader of a block returns its records, and records and
  query hold no titlecase letters and no case-sensitive literal the trigram filter mishandles.\<close>

theorem index_pack_query:
  assumes zstd: "zstd_faithful Z" and ix: "index_pack U Z blocks = Inr e"
    and sane: "ucd_sane U" "ucd_scalars U" and input: "pack_input U blocks" and reads: "reads_pack blocks fetch"
    and q: "q_topic_partition q = QUERY_PARTITION" "stable_query U q" "predicate_trigram_safe (q_predicate q)"
  shows "\<exists>pq ex. decode_compressed Z e = Inr pq \<and> execute_query U rx fetch pq q workers = Inr ex \<and>
    ex_records ex = select U rx id q (concat (map snd blocks))"
proof -
  let ?xs = "filter (\<lambda>e. snd e \<noteq> []) blocks"
  obtain sbs pq where sbs: "list_all2 (sealed_entry U) ?xs sbs"
    "directory U sbs pq" "directory_storable pq" "encode_compressed Z pq ZSTD_LEVEL = Inr e"
    using index_pack_directory [OF ix sane input] by blast
  obtain raw where raw: "encode_directory pq = Inr raw" "decode_compressed Z e = decode_directory raw"
    "length raw \<le> usize_max"
    using decode_compressed_encoded [OF zstd sbs(4)] by blast
  obtain pq' bs where bs: "decode_directory raw = Inr pq'" "directory U bs pq'"
    "map sb_meta bs = map sb_meta sbs" "map sb_records bs = map sb_records sbs"
    using decoded_directory [OF sbs(2,3) raw(1,3)] by blast
  note packed = packed_same [OF sbs(1) bs(3,4)]
  note records = packed_records [OF packed, unfolded concat_nonempty]
  have "sorted_wrt (\<lambda>r s. view_offset r < view_offset s) (concat (map snd ?xs))"
    using input unfolding concat_nonempty by (simp add: pack_input_def sorted_wrt_map)
  then have ord: "ordered_blocks (q_topic_partition q) bs" unfolding q(1) by (rule packed_ordered [OF packed])
  have "stable_blocks U bs"
    using list_all2_nth_right [OF packed] input unfolding stable_blocks_def
    by (fastforce simp: pack_input_def packed_def list_all_iff)
  moreover have "reads_blocks bs fetch" by (rule packed_reads [OF packed _ reads]) auto
  ultimately show ?thesis
    using execute_query_exact [OF sane(1) bs(2) _ q(2,3) _ ord, of fetch rx workers] raw(2) bs(1) records
    unfolding q(1) by auto
qed

section \<open>A pack with two records\<close>

text \<open>One record has the message \<open>ab\<close>, the other none; the query asks for the term \<open>AB\<close>.\<close>

lemma sample_ucd_scalars: "ucd_scalars sample_ucd"
  by (auto simp: ucd_scalars_def sample_ucd_def valid_scalar_def split: if_splits)

abbreviation sample_record :: record_view where
  "sample_record \<equiv> \<lparr>view_offset = 5, view_timestamp = 7, view_message = [97, 98], view_fields = []\<rparr>"

abbreviation other_record :: record_view where
  "other_record \<equiv> \<lparr>view_offset = 6, view_timestamp = 7, view_message = [], view_fields = []\<rparr>"

abbreviation sample_metadata :: query_block_metadata where
  "sample_metadata \<equiv> \<lparr>qb_block_ordinal = 0, qb_topic_partition = (0, 0), qb_first_offset = 5, qb_last_offset = 6,
     qb_min_timestamp = 7, qb_max_timestamp = 7, qb_record_count = 2\<rparr>"

abbreviation sample_index :: block_query_index where
  "sample_index \<equiv> \<lparr>bi_record_count = 2, bi_message_trigrams = trigram_filter_new,
     bi_term_postings = [([97, 98], Ordinals [0])], bi_field_postings = []\<rparr>"

definition stored_zstd :: zstd_lib where
  "stored_zstd = \<lparr>zstd_compress = (\<lambda>_. Inr), zstd_decompress = (\<lambda>c _. Inr c)\<rparr>"

lemma sample_block_index: "block_index_build sample_ucd [sample_record, other_record] = Inr sample_index"
proof -
  have "fst (analyze_message sample_ucd [] []) = []" "fst (analyze_message sample_ucd [97, 98] []) = [[97, 98]]"
    "normalize_term sample_ucd [97, 98] = [97, 98]" by code_simp+
  moreover have "insert_message sample_ucd f [] = f" "insert_message sample_ucd f [97, 98] = f" for f
    by (simp_all add: insert_message_def visit_normalized_trigrams_def is_ascii_def str_bytes_def utf8_char_def
        utf8_codes_def windows_def)
  ultimately show ?thesis
    by (simp add: block_index_build_def try_word_def index_record_def index_message_def build_init_def index_message_miss_def
        push_terms_def resolve_term_def intern_term_def push_ordinal_def seal_posting_def from_ordinals_def windows_def
        posting_runs_def run_push_def saturating_mul_def Let_def)
qed

lemma sample_block_entry:
  "index_pack_block sample_ucd 0 [sample_record, other_record] = Inr (Some (sample_metadata, sample_index))"
  by (simp add: index_pack_block_def timestamp_bounds_def try_word_def sample_block_index lift_error_def)

lemma sample_pack: "\<exists>e. index_pack sample_ucd stored_zstd [(0, [sample_record, other_record])] = Inr e"
proof -
  obtain pq where pq: "from_blocks [(sample_metadata, sample_index)] = Inr pq"
    using from_blocks_total [of "[(sample_metadata, sample_index)]"] by (auto simp: metadata_valid_def)
  have parts: "pq_blocks pq = [sample_metadata]" "pq_field_postings pq = [((0, 0), [])]"
    "pq_term_postings pq = [((0, 0), [([97, 98], [\<lparr>bp_block_ordinal = 0, bp_record_ordinals = Ordinals [0]\<rparr>])])]"
    "pq_message_trigram_words pq = trigram_filter_new"
    using pq by (auto simp: from_blocks_def sort_by_sorted windows_def add_block_def metadata_valid_def empty_directory_def
        entry_or_default_def add_terms_def add_fields_def block_posting_at_def split: prod.splits)
  have found: "posting_for_block [\<lparr>bp_block_ordinal = 0, bp_record_ordinals = Ordinals [0]\<rparr>] 0 = Some (Ordinals [0])"
    by (simp add: posting_for_block_def find_by_key_def binary_search_by_def bsearch_loop.simps [of _ _ _ "Suc 0"] cmp_def)
  have lists: "block_terms pq sample_metadata = [([97, 98], Ordinals [0])]" "block_fields pq sample_metadata = []"
    by (simp_all add: block_terms_def block_fields_def parts lookup_list_def map_filter_simps sort_by_sorted found)
  obtain raw where raw: "encode_directory pq = Inr raw" "length raw < 2 ^ 64"
  proof -
    note short = write_varint_at_most [of 0] write_varint_at_most [of 1] write_varint_at_most [of 2]
      write_varint_at_most [of 5] write_varint_at_most [of 6] write_varint_at_most [of 7]
    have "length (encode_metadata sample_metadata) \<le> 80" using short by (simp add: encode_metadata_def)
    moreover have "length (filter_bytes trigram_filter_new) = MESSAGE_TRIGRAM_FILTER_BYTES"
      by (simp add: filter_bytes_def trigram_filter_new_def length_concat comp_def sum_list_replicate)
    moreover have "str_bytes [97, 98] = [97, 98]" by code_simp
    ultimately show thesis
      using short that
      by (simp add: encode_directory_def encode_list_def encode_block_def encode_term_def append_bytes_def parts lists try_word_def
          enumerate_eq_zip saturating_mul_def trigram_filter_new_def)
  qed
  show ?thesis
    using sample_block_entry pq raw by (simp add: index_pack_def encode_query_index_def map_filter_simps lift_error_def
        sort_by_sorted stored_zstd_def encode_compressed_def try_word_def)
qed

theorem index_pack_query_witness:
  "\<exists>e pq ex. index_pack sample_ucd stored_zstd [(0, [sample_record, other_record])] = Inr e \<and>
     decode_compressed stored_zstd e = Inr pq \<and>
     execute_query sample_ucd (\<lambda>_ _. False) (\<lambda>_ os. Inr (map (\<lambda>x. [sample_record, other_record] ! unat x) os)) pq
       ((log_query_new QUERY_PARTITION)\<lparr>q_terms := [[65, 66]]\<rparr>) 4 = Inr ex \<and>
     ex_records ex = [sample_record]"
proof -
  let ?blocks = "[(0, [sample_record, other_record])]"
    and ?q = "(log_query_new QUERY_PARTITION)\<lparr>q_terms := [[65, 66]]\<rparr>"
  obtain e where e: "index_pack sample_ucd stored_zstd ?blocks = Inr e" using sample_pack by blast
  have "zstd_faithful stored_zstd" by (simp add: zstd_faithful_def stored_zstd_def)
  moreover have "pack_input sample_ucd ?blocks"
    by (simp add: pack_input_def record_texts_valid_def valid_scalar_def ascii_lower_stable is_ascii_def)
  moreover have "reads_pack ?blocks (\<lambda>_ os. Inr (map (\<lambda>x. [sample_record, other_record] ! unat x) os))"
    by (simp add: reads_pack_def)
  moreover have "q_topic_partition ?q = QUERY_PARTITION" "stable_query sample_ucd ?q"
    "predicate_trigram_safe (q_predicate ?q)"
    by (simp_all add: log_query_new_def stable_query_def required_index_constraints_def ascii_lower_stable is_ascii_def)
  moreover have "select sample_ucd (\<lambda>_ _. False) id ?q [sample_record, other_record] = [sample_record]" by code_simp
  ultimately show ?thesis
    using index_pack_query [OF _ e sample_ucd_sane sample_ucd_scalars, of _ ?q "\<lambda>_ _. False" 4] e by fastforce
qed

end
