(* ===== verification/Locality.thy ===== *)
theory Locality
  imports Text_Scan "HOL-Library.Product_Lexorder"
begin

text \<open>
  The compression-locality collator of \<^verbatim>\<open>src/locality.rs\<close>: integer temperatures
  and placements, block scores, the farthest-seed split of a block, assignment of the parts to
  stripe-local compression shards, and the bounded back-off of unproductive splits.

  The library \<^verbatim>\<open>bytes_handoff\<close>, which divides the packed membership into its two
  parts, is the parameter \<open>H\<close>; \<open>handoff_splits\<close> states what is used of it. The sizes that the
  compiler chooses for two structures are the parameter \<open>sizes\<close>. Indices into the block are
  within range, and fit 32 bits, by the theorems of the last sections, so that the panics of the
  source do not occur.
\<close>

section \<open>Placements\<close>

abbreviation MAX_ROUTER_STATE_BYTES :: nat where "MAX_ROUTER_STATE_BYTES \<equiv> 512 * 1024"
abbreviation MAX_COMPRESSION_SHARDS :: nat where "MAX_COMPRESSION_SHARDS \<equiv> 16"
abbreviation MAX_SPLIT_DEPTH :: u8 where "MAX_SPLIT_DEPTH \<equiv> 2"
abbreviation SPLIT_EXPLORATION_SLOTS :: nat where "SPLIT_EXPLORATION_SLOTS \<equiv> 64"
abbreviation SPLIT_FAILURES_BEFORE_BACKOFF :: u8 where "SPLIT_FAILURES_BEFORE_BACKOFF \<equiv> 2"
abbreviation SPLIT_BACKOFF_BLOCKS :: u8 where "SPLIT_BACKOFF_BLOCKS \<equiv> 63"
abbreviation SHAPE_MISMATCH_DISTANCE :: u8 where "SHAPE_MISMATCH_DISTANCE \<equiv> 4"
abbreviation MAX_LOCALITY_DISTANCE :: u8 where "MAX_LOCALITY_DISTANCE \<equiv> 20"
abbreviation BASE_PLACEMENT_DOMAIN :: u64 where "BASE_PLACEMENT_DOMAIN \<equiv> 0x3a723e4bb78f19d5"
abbreviation COLLATED_PLACEMENT_DOMAIN :: u64 where "COLLATED_PLACEMENT_DOMAIN \<equiv> 0xd6e8feb86659fd93"

type_synonym compression_temperature = u16

definition from_source_cohort :: "compression_cohort_id \<Rightarrow> compression_placement_id" where
  "from_source_cohort source = splitmix64 (source XOR BASE_PLACEMENT_DOMAIN)"

definition from_temperature ::
  "compression_cohort_id \<Rightarrow> compression_temperature \<Rightarrow> u64 \<Rightarrow> compression_placement_id" where
  "from_temperature source temperature shape =
     splitmix64 (source XOR COLLATED_PLACEMENT_DOMAIN XOR word_rotl 19 (ucast temperature)
       XOR word_rotr 11 shape)"

definition temperature_distance :: "compression_temperature \<Rightarrow> compression_temperature \<Rightarrow> u8" where
  "temperature_distance a b = of_nat (count_ones (a XOR b))"

datatype locality_granularity = Base | Collated

record compression_placement =
  placement_id :: compression_placement_id
  placement_temperature :: compression_temperature
  granularity :: locality_granularity
  distance_to_shard :: u8
  placement_variance_q8 :: u16

definition base_placement :: "compression_cohort_id \<Rightarrow> compression_temperature \<Rightarrow> compression_placement" where
  "base_placement source temperature =
     \<lparr>placement_id = from_source_cohort source, placement_temperature = temperature,
      granularity = Base, distance_to_shard = 0, placement_variance_q8 = 0\<rparr>"

record compression_locality_config =
  lc_enabled :: bool
  lc_max_compression_shards :: nat
  lc_max_split_depth :: u8
  lc_min_split_records :: nat
  lc_min_split_bytes :: u64
  lc_split_variance_q8 :: u16
  lc_max_shard_variance_q8 :: u16
  lc_max_assignment_distance :: u8
  lc_min_admission_bytes :: u64
  lc_state_budget_bytes :: nat

definition locality_config_default :: compression_locality_config where
  "locality_config_default =
     \<lparr>lc_enabled = False, lc_max_compression_shards = MAX_COMPRESSION_SHARDS,
      lc_max_split_depth = MAX_SPLIT_DEPTH, lc_min_split_records = 8, lc_min_split_bytes = 64 * 1024,
      lc_split_variance_q8 = 768, lc_max_shard_variance_q8 = 3072, lc_max_assignment_distance = 6,
      lc_min_admission_bytes = 4 * 1024 * 1024, lc_state_budget_bytes = MAX_ROUTER_STATE_BYTES\<rparr>"

text \<open>The sizes of a \<^verbatim>\<open>CompressionShard\<close> and of the exploration table.\<close>

type_synonym sizes = "nat \<times> nat"

definition estimated_state_bytes :: "sizes \<Rightarrow> compression_locality_config \<Rightarrow> nat" where
  "estimated_state_bytes sizes c =
     min (min (lc_max_compression_shards c * fst sizes) usize_max + snd sizes) usize_max"

definition locality_validate :: "sizes \<Rightarrow> compression_locality_config \<Rightarrow> string + unit" where
  "locality_validate sizes c =
     (if lc_max_compression_shards c = 0 \<or> lc_max_compression_shards c > MAX_COMPRESSION_SHARDS
      then Inl ''locality max_compression_shards must be between 1 and 16''
      else if lc_max_split_depth c > MAX_SPLIT_DEPTH
      then Inl ''locality max_split_depth must be no larger than 2''
      else if lc_min_split_records c < 2
      then Inl ''locality min_split_records must be at least 2''
      else if lc_min_split_bytes c = 0 \<or> lc_min_admission_bytes c = 0
      then Inl ''locality byte thresholds must be nonzero''
      else if lc_split_variance_q8 c = 0 \<or> lc_max_shard_variance_q8 c < lc_split_variance_q8 c
      then Inl ''locality variance thresholds are inconsistent''
      else if lc_max_assignment_distance c > MAX_LOCALITY_DISTANCE
      then Inl ''locality max_assignment_distance must be no larger than 20''
      else if lc_state_budget_bytes c = 0 \<or> lc_state_budget_bytes c > MAX_ROUTER_STATE_BYTES
      then Inl ''locality state_budget_bytes must be between 1 and 512 KiB''
      else if estimated_state_bytes sizes c > lc_state_budget_bytes c
      then Inl ''locality tables exceed locality state_budget_bytes''
      else Inr ())"

section \<open>Blocks and scores\<close>

record locality_record =
  lr_fingerprint :: message_fingerprint
  lr_source_bytes :: u64

record block_score =
  score_temperature :: compression_temperature
  score_shape_hash :: u64
  score_variance_q8 :: u16
  score_max_deviation :: u8
  score_source_bytes :: u64
  score_record_count :: nat

text \<open>A part of a block: a range of record indices, or packed 32-bit indices.\<close>

datatype block_membership = Contiguous nat nat | Packed bytes

fun indices :: "block_membership \<Rightarrow> nat list" where
  "indices (Contiguous a b) = [a ..< b]"
| "indices (Packed bs) = map (\<lambda>c. unat (le_word c :: u32)) (chunks_exact 4 bs)"

fun encoded_len :: "block_membership \<Rightarrow> nat" where
  "encoded_len (Contiguous a b) = 0"
| "encoded_len (Packed bs) = length bs"

definition locality_distance ::
  "compression_temperature \<Rightarrow> u64 \<Rightarrow> compression_temperature \<Rightarrow> u64 \<Rightarrow> u8" where
  "locality_distance lt ls rt rs =
     saturating_add (temperature_distance lt rt) (of_bool (ls \<noteq> rs) * SHAPE_MISMATCH_DISTANCE)"

definition fingerprint_distance :: "message_fingerprint \<Rightarrow> message_fingerprint \<Rightarrow> u8" where
  "fingerprint_distance l r =
     locality_distance (locality_signature l) (shape_hash l) (locality_signature r) (shape_hash r)"

definition locality_weight :: "u64 \<Rightarrow> u64" where
  "locality_weight source_bytes = min (max source_bytes 1) 0xffffffff"

definition centroid_from_weights :: "u64 list \<Rightarrow> u64 \<Rightarrow> u16" where
  "centroid_from_weights ones total_weight =
     foldl (\<lambda>c (i, w). if word_saturating_mul w 2 \<ge> max total_weight 1 then c OR push_bit i 1 else c) 0
       (enumerate 0 ones)"

definition add_one_weights :: "u16 \<Rightarrow> u64 \<Rightarrow> u64 list \<Rightarrow> u64 list" where
  "add_one_weights signature weight ones =
     map (\<lambda>(i, w). if bit signature i then saturating_add w weight else w) (enumerate 0 ones)"

record scored_membership =
  sm_score :: block_score
  sm_seed_a :: nat
  sm_seed_b :: nat

text \<open>The variables of the first loop of \<^verbatim>\<open>score_membership\<close>.\<close>

record score_state =
  ss_seed_b :: nat
  ss_seed_distance :: u8
  ss_one_weights :: "u64 list"
  ss_total_weight :: u64
  ss_source_bytes :: u64
  ss_record_count :: nat
  ss_shape_hash :: u64
  ss_shape_vote_weight :: u64

definition score_step :: "locality_record list \<Rightarrow> nat \<Rightarrow> score_state \<Rightarrow> nat \<Rightarrow> score_state" where
  "score_step records seed_a st index =
     (let r = records ! index;
          weight = locality_weight (lr_source_bytes r);
          shape = shape_hash (lr_fingerprint r);
          (shape_hash', vote) =
            (if shape = ss_shape_hash st
             then (ss_shape_hash st, saturating_add (ss_shape_vote_weight st) weight)
             else if ss_shape_vote_weight st > weight
             then (ss_shape_hash st, ss_shape_vote_weight st - weight)
             else (shape, weight - ss_shape_vote_weight st));
          distance = fingerprint_distance (lr_fingerprint (records ! seed_a)) (lr_fingerprint r)
      in \<lparr>ss_seed_b = (if distance > ss_seed_distance st then index else ss_seed_b st),
          ss_seed_distance = (if distance > ss_seed_distance st then distance else ss_seed_distance st),
          ss_one_weights = add_one_weights (locality_signature (lr_fingerprint r)) weight (ss_one_weights st),
          ss_total_weight = saturating_add (ss_total_weight st) weight,
          ss_source_bytes = saturating_add (ss_source_bytes st) (lr_source_bytes r),
          ss_record_count = min (ss_record_count st + 1) usize_max,
          ss_shape_hash = shape_hash', ss_shape_vote_weight = vote\<rparr>)"

definition deviation_step ::
  "locality_record list \<Rightarrow> compression_temperature \<Rightarrow> u64 \<Rightarrow> u8 \<times> u128 \<Rightarrow> nat \<Rightarrow> u8 \<times> u128" where
  "deviation_step records temperature shape = (\<lambda>(deviation, squared) index.
     let r = records ! index;
         distance = locality_distance temperature shape (locality_signature (lr_fingerprint r))
           (shape_hash (lr_fingerprint r));
         d = ucast distance :: u128
     in (max deviation distance,
         saturating_add squared
           (word_saturating_mul (word_saturating_mul d d) (ucast (locality_weight (lr_source_bytes r))))))"

definition score_membership :: "locality_record list \<Rightarrow> block_membership \<Rightarrow> scored_membership" where
  "score_membership records m =
     (let seed_a = hd (indices m);
          st = foldl (score_step records seed_a)
            \<lparr>ss_seed_b = seed_a, ss_seed_distance = 0, ss_one_weights = replicate 16 0,
             ss_total_weight = 0, ss_source_bytes = 0, ss_record_count = 0,
             ss_shape_hash = shape_hash (lr_fingerprint (records ! seed_a)), ss_shape_vote_weight = 0\<rparr>
            (indices m);
          temperature = centroid_from_weights (ss_one_weights st) (ss_total_weight st);
          (deviation, squared) =
            foldl (deviation_step records temperature (ss_shape_hash st)) (0, 0) (indices m);
          variance = min (word_saturating_mul squared 256 div ucast (max (ss_total_weight st) 1)) 0xffff :: u128
      in \<lparr>sm_score = \<lparr>score_temperature = temperature, score_shape_hash = ss_shape_hash st,
            score_variance_q8 = ucast variance, score_max_deviation = deviation,
            score_source_bytes = ss_source_bytes st, score_record_count = ss_record_count st\<rparr>,
          sm_seed_a = seed_a, sm_seed_b = ss_seed_b st\<rparr>)"

section \<open>Splitting\<close>

type_synonym handoff = "bytes \<Rightarrow> nat \<Rightarrow> bytes \<times> bytes"

definition goes_left :: "locality_record list \<Rightarrow> nat \<Rightarrow> nat \<Rightarrow> nat \<Rightarrow> bool" where
  "goes_left records seed_a seed_b index \<longleftrightarrow>
     fingerprint_distance (lr_fingerprint (records ! index)) (lr_fingerprint (records ! seed_a))
       \<le> fingerprint_distance (lr_fingerprint (records ! index)) (lr_fingerprint (records ! seed_b))"

text \<open>One side of the loop: number of records, their bytes, and the packed indices.\<close>

definition side_step :: "locality_record list \<Rightarrow> nat \<times> u64 \<times> bytes \<Rightarrow> nat \<Rightarrow> nat \<times> u64 \<times> bytes" where
  "side_step records = (\<lambda>(n, b, packed) index.
     (min (n + 1) usize_max, saturating_add b (lr_source_bytes (records ! index)),
      packed @ le_bytes 4 (of_nat index :: u32)))"

definition split_step ::
  "locality_record list \<Rightarrow> (nat \<Rightarrow> bool) \<Rightarrow> (nat \<times> u64 \<times> bytes) \<times> (nat \<times> u64 \<times> bytes) \<Rightarrow> nat \<Rightarrow>
   (nat \<times> u64 \<times> bytes) \<times> (nat \<times> u64 \<times> bytes)" where
  "split_step records left_p = (\<lambda>(l, r) index.
     if left_p index then (side_step records l index, r) else (l, side_step records r index))"

definition split_membership ::
  "handoff \<Rightarrow> locality_record list \<Rightarrow> block_membership \<Rightarrow> compression_locality_config \<Rightarrow>
   scored_membership \<Rightarrow> (block_membership \<times> block_membership) option" where
  "split_membership H records m c scored =
     (if sm_seed_a scored = sm_seed_b scored then None
      else let ((ln, lb, l), (rn, rb, r)) =
             foldl (split_step records (goes_left records (sm_seed_a scored) (sm_seed_b scored)))
               ((0, 0, []), (0, 0, [])) (indices m)
        in if ln < lc_min_split_records c \<or> rn < lc_min_split_records c
              \<or> lb < lc_min_split_bytes c \<or> rb < lc_min_split_bytes c
           then None
           else let (left, right) = H (l @ r) (length l) in Some (Packed left, Packed right))"

section \<open>The collator\<close>

record shard_profile =
  sp_placement_id :: compression_placement_id
  sp_source_cohort :: compression_cohort_id
  sp_temperature :: compression_temperature
  sp_shape_hash :: u64
  sp_variance_q8 :: u16
  sp_blocks :: u64
  sp_source_bytes :: u64

record compression_shard =
  cs_snapshot :: shard_profile
  cs_one_weights :: "u64 list"
  cs_total_weight :: u64
  cs_shape_vote_weight :: u64

record split_exploration =
  se_source_tag :: u64
  se_occupied :: bool
  se_failed_explorations :: u8
  se_blocks_since_exploration :: u8

definition split_exploration_default :: split_exploration where
  "split_exploration_default =
     \<lparr>se_source_tag = 0, se_occupied = False, se_failed_explorations = 0, se_blocks_since_exploration = 0\<rparr>"

record locality_stats =
  ls_observations :: u64
  ls_blocks_scored :: u64
  ls_blocks_split :: u64
  ls_subblocks_created :: u64
  ls_split_explorations_suppressed :: u64
  ls_base_placements :: u64
  ls_collated_placements :: u64
  ls_records_reassigned :: u64
  ls_bytes_reassigned :: u64
  ls_active_compression_shards :: nat
  ls_max_internal_variance_q8 :: u16
  ls_handoff_membership_bytes :: u64
  ls_allocated_state_bytes :: nat

record block_collator =
  co_config :: compression_locality_config
  co_target_block_bytes :: u64
  co_shards :: "compression_shard list"
  co_split_explorations :: "split_exploration list"
  co_stats :: locality_stats

definition collator_new ::
  "sizes \<Rightarrow> compression_locality_config \<Rightarrow> u64 \<Rightarrow> block_collator log_db_result" where
  "collator_new sizes c target =
     and_then (case locality_validate sizes c of Inl e \<Rightarrow> Inl (InvalidConfig e) | Inr v \<Rightarrow> Inr v) (\<lambda>_.
       if target = 0 then Inl (InvalidConfig ''locality target_block_bytes must be nonzero'')
       else Inr \<lparr>co_config = c, co_target_block_bytes = target, co_shards = [],
         co_split_explorations = replicate SPLIT_EXPLORATION_SLOTS split_exploration_default,
         co_stats = \<lparr>ls_observations = 0, ls_blocks_scored = 0, ls_blocks_split = 0,
           ls_subblocks_created = 0, ls_split_explorations_suppressed = 0, ls_base_placements = 0,
           ls_collated_placements = 0, ls_records_reassigned = 0, ls_bytes_reassigned = 0,
           ls_active_compression_shards = 0, ls_max_internal_variance_q8 = 0,
           ls_handoff_membership_bytes = 0,
           ls_allocated_state_bytes = estimated_state_bytes sizes c\<rparr>\<rparr>)"

definition collator_stats :: "block_collator \<Rightarrow> locality_stats" where
  "collator_stats C = (co_stats C)\<lparr>ls_active_compression_shards := length (co_shards C)\<rparr>"

definition shard_distance :: "compression_temperature \<Rightarrow> u64 \<Rightarrow> compression_shard \<Rightarrow> u8" where
  "shard_distance temperature shape s =
     locality_distance temperature shape (sp_temperature (cs_snapshot s)) (sp_shape_hash (cs_snapshot s))"

definition nearest_shard ::
  "block_collator \<Rightarrow> compression_cohort_id \<Rightarrow> compression_temperature \<Rightarrow> u64 \<Rightarrow> (nat \<times> u8) option" where
  "nearest_shard C source temperature shape =
     map_option (\<lambda>(i, s). (i, shard_distance temperature shape s))
       (min_by_key (\<lambda>(i, s). (shard_distance temperature shape s, sp_variance_q8 (cs_snapshot s),
            sp_placement_id (cs_snapshot s)))
         (filter (\<lambda>(i, s). sp_source_cohort (cs_snapshot s) = source) (enumerate 0 (co_shards C))))"

definition profile_distance ::
  "block_collator \<Rightarrow> compression_placement_id \<Rightarrow> compression_temperature \<Rightarrow> u64 \<Rightarrow> u8 option" where
  "profile_distance C p temperature shape =
     map_option (shard_distance temperature shape)
       (find (\<lambda>s. sp_placement_id (cs_snapshot s) = p) (co_shards C))"

definition tentative_placement ::
  "block_collator \<Rightarrow> compression_cohort_id \<Rightarrow> message_fingerprint \<Rightarrow> compression_placement" where
  "tentative_placement C source f =
     (let temperature = locality_signature f in
      if \<not> lc_enabled (co_config C) then base_placement source temperature
      else case nearest_shard C source temperature (shape_hash f) of
        None \<Rightarrow> base_placement source temperature
      | Some (i, distance) \<Rightarrow>
          if distance \<le> lc_max_assignment_distance (co_config C)
          then \<lparr>placement_id = sp_placement_id (cs_snapshot (co_shards C ! i)),
                placement_temperature = temperature, granularity = Collated,
                distance_to_shard = distance, placement_variance_q8 = 0\<rparr>
          else base_placement source temperature)"

definition exploration_slot :: "compression_cohort_id \<Rightarrow> nat" where
  "exploration_slot source = unat (splitmix64 source) mod SPLIT_EXPLORATION_SLOTS"

definition should_explore_splits :: "block_collator \<Rightarrow> compression_cohort_id \<Rightarrow> block_collator \<times> bool" where
  "should_explore_splits C source =
     (if \<not> lc_enabled (co_config C) \<or>
         list_ex (\<lambda>s. sp_source_cohort (cs_snapshot s) = source) (co_shards C)
      then (C, True)
      else let i = exploration_slot source;
               slot = co_split_explorations C ! i;
               slot = (if \<not> se_occupied slot \<or> se_source_tag slot \<noteq> source
                       then split_exploration_default\<lparr>se_source_tag := source, se_occupied := True\<rparr>
                       else slot)
           in if se_failed_explorations slot < SPLIT_FAILURES_BEFORE_BACKOFF
                 \<or> se_blocks_since_exploration slot \<ge> SPLIT_BACKOFF_BLOCKS
              then (C\<lparr>co_split_explorations := (co_split_explorations C)
                       [i := slot\<lparr>se_blocks_since_exploration := 0\<rparr>]\<rparr>, True)
              else (C\<lparr>co_split_explorations := (co_split_explorations C)
                       [i := slot\<lparr>se_blocks_since_exploration :=
                          saturating_add (se_blocks_since_exploration slot) 1\<rparr>],
                     co_stats := (co_stats C)\<lparr>ls_split_explorations_suppressed :=
                       saturating_add (ls_split_explorations_suppressed (co_stats C)) 1\<rparr>\<rparr>, False))"

definition observe_split_exploration ::
  "block_collator \<Rightarrow> compression_cohort_id \<Rightarrow> bool \<Rightarrow> bool \<Rightarrow> block_collator" where
  "observe_split_exploration C source attempted specialized =
     (if \<not> attempted \<and> \<not> specialized then C
      else let i = exploration_slot source; slot = co_split_explorations C ! i in
        if se_occupied slot \<and> se_source_tag slot = source
        then C\<lparr>co_split_explorations := (co_split_explorations C)[i :=
               (if specialized
                then slot\<lparr>se_failed_explorations := 0, se_blocks_since_exploration := 0\<rparr>
                else if attempted
                then slot\<lparr>se_failed_explorations := saturating_add (se_failed_explorations slot) 1\<rparr>
                else slot)]\<rparr>
        else C)"

definition admit_shard ::
  "block_collator \<Rightarrow> compression_cohort_id \<Rightarrow> compression_temperature \<Rightarrow> u64 \<Rightarrow> block_collator \<times> nat" where
  "admit_shard C source temperature shape =
     (let p = from_temperature source temperature shape;
          p = (if list_ex (\<lambda>s. sp_placement_id (cs_snapshot s) = p) (co_shards C)
               then splitmix64 (p XOR of_nat (length (co_shards C))) else p)
      in (C\<lparr>co_shards := co_shards C @
            [\<lparr>cs_snapshot = \<lparr>sp_placement_id = p, sp_source_cohort = source, sp_temperature = temperature,
                sp_shape_hash = shape, sp_variance_q8 = 0, sp_blocks = 0, sp_source_bytes = 0\<rparr>,
              cs_one_weights = replicate 16 0, cs_total_weight = 0, cs_shape_vote_weight = 0\<rparr>]\<rparr>,
          length (co_shards C)))"

definition halve_weights :: "compression_shard \<Rightarrow> compression_shard" where
  "halve_weights s =
     (if cs_total_weight s > - 1 div 4
      then s\<lparr>cs_total_weight := drop_bit 1 (cs_total_weight s),
             cs_shape_vote_weight := drop_bit 1 (cs_shape_vote_weight s),
             cs_one_weights := map (drop_bit 1) (cs_one_weights s)\<rparr>
      else s)"

definition weigh_record :: "locality_record list \<Rightarrow> compression_shard \<Rightarrow> nat \<Rightarrow> compression_shard" where
  "weigh_record records s index =
     (let r = records ! index; weight = locality_weight (lr_source_bytes r) in
      s\<lparr>cs_total_weight := saturating_add (cs_total_weight s) weight,
        cs_one_weights := add_one_weights (locality_signature (lr_fingerprint r)) weight (cs_one_weights s)\<rparr>)"

definition vote_shape :: "block_score \<Rightarrow> compression_shard \<Rightarrow> compression_shard" where
  "vote_shape score s =
     (let p = cs_snapshot s in
      if sp_blocks p = 0 \<or> sp_shape_hash p = score_shape_hash score
      then s\<lparr>cs_snapshot := p\<lparr>sp_shape_hash := score_shape_hash score\<rparr>,
             cs_shape_vote_weight := saturating_add (cs_shape_vote_weight s) (score_source_bytes score)\<rparr>
      else if cs_shape_vote_weight s > score_source_bytes score
      then s\<lparr>cs_shape_vote_weight := saturating_sub (cs_shape_vote_weight s) (score_source_bytes score)\<rparr>
      else s\<lparr>cs_snapshot := p\<lparr>sp_shape_hash := score_shape_hash score\<rparr>,
             cs_shape_vote_weight := saturating_sub (score_source_bytes score) (cs_shape_vote_weight s)\<rparr>)"

definition observe_shard ::
  "block_collator \<Rightarrow> nat \<Rightarrow> locality_record list \<Rightarrow> block_membership \<Rightarrow> block_score \<Rightarrow> block_collator" where
  "observe_shard C i records m score =
     (let s = foldl (weigh_record records) (halve_weights (co_shards C ! i)) (indices m);
          s = s\<lparr>cs_snapshot := (cs_snapshot s)\<lparr>sp_temperature :=
                centroid_from_weights (cs_one_weights s) (cs_total_weight s)\<rparr>\<rparr>;
          s = vote_shape score s;
          p = cs_snapshot s;
          variance = (if sp_blocks p = 0 then score_variance_q8 score
            else ucast ((ucast (sp_variance_q8 p) * 7 + ucast (score_variance_q8 score) :: u32) div 8));
          p = p\<lparr>sp_variance_q8 := variance, sp_blocks := saturating_add (sp_blocks p) 1,
                sp_source_bytes := saturating_add (sp_source_bytes p) (score_source_bytes score)\<rparr>
      in C\<lparr>co_shards := (co_shards C)[i := s\<lparr>cs_snapshot := p\<rparr>]\<rparr>)"

definition nearest_assignable ::
  "block_collator \<Rightarrow> compression_cohort_id \<Rightarrow> block_score \<Rightarrow> (nat \<times> u8) option" where
  "nearest_assignable C source score =
     (case nearest_shard C source (score_temperature score) (score_shape_hash score) of
        None \<Rightarrow> None
      | Some (i, distance) \<Rightarrow>
          if distance \<le> lc_max_assignment_distance (co_config C) then Some (i, distance) else None)"

definition assign_leaf ::
  "block_collator \<Rightarrow> compression_cohort_id \<Rightarrow> locality_record list \<Rightarrow> block_membership \<Rightarrow> block_score \<Rightarrow>
   block_collator \<times> compression_placement" where
  "assign_leaf C source records m score =
     (let base = (base_placement source (score_temperature score))
            \<lparr>placement_variance_q8 := score_variance_q8 score\<rparr>;
          c = co_config C in
      if \<not> lc_enabled c \<or> score_variance_q8 score > lc_max_shard_variance_q8 c then (C, base)
      else let (C, selected) =
             (case nearest_assignable C source score of
                Some found \<Rightarrow> (C, Some found)
              | None \<Rightarrow>
                  if score_source_bytes score \<ge> min (lc_min_admission_bytes c) (co_target_block_bytes C)
                     \<and> length (co_shards C) < lc_max_compression_shards c
                  then let (C, i) = admit_shard C source (score_temperature score) (score_shape_hash score)
                       in (C, Some (i, 0))
                  else (C, None))
        in case selected of
             None \<Rightarrow> (C, base)
           | Some (i, distance) \<Rightarrow>
               let C = observe_shard C i records m score in
               (C, \<lparr>placement_id = sp_placement_id (cs_snapshot (co_shards C ! i)),
                    placement_temperature = score_temperature score, granularity = Collated,
                    distance_to_shard = distance, placement_variance_q8 = score_variance_q8 score\<rparr>))"

section \<open>Collation\<close>

record block_assignment =
  as_placement :: compression_placement
  as_score :: block_score
  as_membership :: block_membership

abbreviation record_indices :: "block_assignment \<Rightarrow> nat list" where
  "record_indices a \<equiv> indices (as_membership a)"

definition observe_score :: "block_collator \<Rightarrow> block_score \<Rightarrow> block_collator" where
  "observe_score C score =
     C\<lparr>co_stats := (co_stats C)\<lparr>ls_blocks_scored := saturating_add (ls_blocks_scored (co_stats C)) 1,
         ls_max_internal_variance_q8 := max (ls_max_internal_variance_q8 (co_stats C)) (score_variance_q8 score)\<rparr>\<rparr>"

definition closer_to_other_shard ::
  "block_collator \<Rightarrow> compression_cohort_id \<Rightarrow> compression_placement_id \<Rightarrow> block_score \<Rightarrow> bool" where
  "closer_to_other_shard C source home score =
     (case nearest_shard C source (score_temperature score) (score_shape_hash score) of
        None \<Rightarrow> False
      | Some (i, distance) \<Rightarrow>
          sp_placement_id (cs_snapshot (co_shards C ! i)) \<noteq> home \<and>
          (case profile_distance C home (score_temperature score) (score_shape_hash score) of
             None \<Rightarrow> True | Some home_distance \<Rightarrow> distance < home_distance))"

definition should_split ::
  "block_collator \<Rightarrow> compression_cohort_id \<Rightarrow> compression_placement_id \<Rightarrow> bool \<Rightarrow> u8 \<Rightarrow> block_score \<Rightarrow> bool" where
  "should_split C source home explore depth score \<longleftrightarrow>
     lc_enabled (co_config C) \<and> explore \<and> depth < lc_max_split_depth (co_config C) \<and>
     (score_variance_q8 score > lc_split_variance_q8 (co_config C) \<or> closer_to_other_shard C source home score)"

definition count_split :: "block_collator \<Rightarrow> block_membership \<Rightarrow> block_membership \<Rightarrow> block_collator" where
  "count_split C l r =
     C\<lparr>co_stats := (co_stats C)\<lparr>ls_blocks_split := saturating_add (ls_blocks_split (co_stats C)) 1,
         ls_subblocks_created := saturating_add (ls_subblocks_created (co_stats C)) 2,
         ls_handoff_membership_bytes := saturating_add (ls_handoff_membership_bytes (co_stats C))
           (of_nat (min (encoded_len l + encoded_len r) usize_max))\<rparr>\<rparr>"

lemma collator_config [simp]:
  "co_config (observe_score C score) = co_config C" "co_config (count_split C l r) = co_config C"
  "co_shards (observe_score C score) = co_shards C" "co_shards (count_split C l r) = co_shards C"
  by (simp_all add: observe_score_def count_split_def)

text \<open>A part of depth \<open>d\<close> gives rise to at most \<open>2\<^sup>k\<close> leaves, \<open>k\<close> the levels left.\<close>

definition depth_weight :: "compression_locality_config \<Rightarrow> u8 \<Rightarrow> nat" where
  "depth_weight c d = 2 ^ (unat (lc_max_split_depth c) - unat d)"

lemma depth_weight_split:
  assumes "d < lc_max_split_depth c"
  shows "depth_weight c d = 2 * depth_weight c (saturating_add d 1)"
proof -
  have less: "unat d < unat (lc_max_split_depth c)" using assms by (simp add: word_less_nat_alt)
  moreover have "unat (lc_max_split_depth c) < 2 ^ 8" using unat_bound [of "lc_max_split_depth c"] by simp
  ultimately have "unat (saturating_add d 1) = Suc (unat d)" by (simp add: unat_saturating_add)
  moreover have "unat (lc_max_split_depth c) - unat d = Suc (unat (lc_max_split_depth c) - Suc (unat d))"
    using less by simp
  ultimately show ?thesis by (simp add: depth_weight_def)
qed

lemma depth_weight_pos: "0 < depth_weight c d"
  by (simp add: depth_weight_def)

lemma depth_weight_twice [simp]: "Suc 0 < 2 * depth_weight c d"
  using depth_weight_pos [of c d] by linarith

lemma depth_weight_less:
  "d < lc_max_split_depth c \<Longrightarrow>
   2 * (2 * depth_weight c (saturating_add d 1) - Suc 0) < 2 * depth_weight c d - Suc 0"
  using depth_weight_split [of d c] depth_weight_pos [of c "saturating_add d 1"] by linarith

text \<open>
  The work loop: parts are taken from the front of a queue and either split into two parts,
  one level deeper, at its end, or kept as a leaf.
\<close>

function collate_work ::
  "handoff \<Rightarrow> compression_cohort_id \<Rightarrow> compression_placement_id \<Rightarrow> locality_record list \<Rightarrow> bool \<Rightarrow>
   (block_membership \<times> u8) list \<Rightarrow> block_collator \<Rightarrow> bool \<Rightarrow> (block_membership \<times> block_score) list \<Rightarrow>
   block_collator \<times> bool \<times> (block_membership \<times> block_score) list" where
  "collate_work H source home records explore [] C attempted leaves = (C, attempted, leaves)"
| "collate_work H source home records explore ((m, depth) # work) C attempted leaves =
     (let scored = score_membership records m;
          score = sm_score scored;
          C = observe_score C score;
          split = should_split C source home explore depth score in
      case (if split then split_membership H records m (co_config C) scored else None) of
        Some (l, r) \<Rightarrow>
          collate_work H source home records explore
            (work @ [(l, saturating_add depth 1), (r, saturating_add depth 1)])
            (count_split C l r) True leaves
      | None \<Rightarrow>
          collate_work H source home records explore work C (attempted \<or> split) (leaves @ [(m, score)]))"
  by pat_completeness auto

termination
  apply (relation "measure (\<lambda>(H, source, home, records, explore, work, C, attempted, leaves).
    sum_list (map (\<lambda>(m, d). 2 * depth_weight (co_config C) d - Suc 0) work))")
  subgoal by simp
  subgoal by auto
  subgoal by (auto simp: should_split_def split: if_splits dest!: depth_weight_less)
  done

definition place_leaf ::
  "compression_cohort_id \<Rightarrow> compression_placement_id \<Rightarrow> locality_record list \<Rightarrow> block_collator \<Rightarrow>
   block_membership \<times> block_score \<Rightarrow> block_collator \<times> block_assignment" where
  "place_leaf source home records C = (\<lambda>(m, score).
     let (C, p) = assign_leaf C source records m score;
         n = of_nat (score_record_count score) :: u64;
         st = co_stats C;
         st = (if granularity p = Base
               then st\<lparr>ls_base_placements := saturating_add (ls_base_placements st) n\<rparr>
               else st\<lparr>ls_collated_placements := saturating_add (ls_collated_placements st) n\<rparr>);
         st = (if placement_id p \<noteq> home
               then st\<lparr>ls_records_reassigned := saturating_add (ls_records_reassigned st) n,
                       ls_bytes_reassigned := saturating_add (ls_bytes_reassigned st) (score_source_bytes score)\<rparr>
               else st)
     in (C\<lparr>co_stats := st\<rparr>, \<lparr>as_placement = p, as_score = score, as_membership = m\<rparr>))"

fun place_leaves ::
  "compression_cohort_id \<Rightarrow> compression_placement_id \<Rightarrow> locality_record list \<Rightarrow> block_collator \<Rightarrow>
   (block_membership \<times> block_score) list \<Rightarrow> block_collator \<times> block_assignment list" where
  "place_leaves source home records C [] = (C, [])"
| "place_leaves source home records C (leaf # leaves) =
     (let (C, a) = place_leaf source home records C leaf;
          (C, as) = place_leaves source home records C leaves in (C, a # as))"

definition first_index :: "block_assignment \<Rightarrow> nat" where
  "first_index a = (case record_indices a of [] \<Rightarrow> usize_max | i # _ \<Rightarrow> i)"

definition collate ::
  "handoff \<Rightarrow> block_collator \<Rightarrow> compression_cohort_id \<Rightarrow> compression_placement_id \<Rightarrow>
   locality_record list \<Rightarrow> block_collator \<times> block_assignment list" where
  "collate H C source home records =
     (if records = [] then (C, [])
      else let C = C\<lparr>co_stats := (co_stats C)\<lparr>ls_observations :=
                 saturating_add (ls_observations (co_stats C)) (of_nat (min (length records) usize_max))\<rparr>\<rparr>;
               (C, explore) = should_explore_splits C source;
               (C, attempted, leaves) =
                 collate_work H source home records explore [(Contiguous 0 (length records), 0)] C False [];
               (C, as) = place_leaves source home records C leaves;
               as = sort_by (\<lambda>a b. cmp (first_index a) (first_index b)) as;
               specialized = list_ex (\<lambda>a. granularity (as_placement a) = Collated) as
           in (observe_split_exploration C source attempted specialized, as))"

section \<open>Distances\<close>

lemma count_ones_card: "count_ones (w :: 'a::len word) = card {i. bit w i}"
proof -
  have "{i. bit w i} = set (filter (bit w) [0 ..< LENGTH('a)])"
    by (auto dest: bit_imp_le_length)
  then show ?thesis unfolding count_ones_def by (metis distinct_card distinct_filter distinct_upt)
qed

lemma count_ones_le: "count_ones (w :: 'a::len word) \<le> LENGTH('a)"
  using length_filter_le [of "bit w" "[0 ..< LENGTH('a)]"] by (simp add: count_ones_def)

lemma finite_bits [simp]: "finite {i. bit (w :: 'a::len word) i}"
  by (rule finite_subset [of _ "{..< LENGTH('a)}"]) (auto dest: bit_imp_le_length)

lemma count_ones_0 [simp]: "count_ones w = 0 \<longleftrightarrow> w = 0"
  by (auto simp: count_ones_card intro: bit_word_eqI)

lemma count_ones_triangle: "count_ones (a XOR c) \<le> count_ones (a XOR b) + count_ones (b XOR c)"
proof -
  have "{i. bit (a XOR c) i} \<subseteq> {i. bit (a XOR b) i} \<union> {i. bit (b XOR c) i}" by (auto simp: bit_xor_iff)
  then have "card {i. bit (a XOR c) i} \<le> card ({i. bit (a XOR b) i} \<union> {i. bit (b XOR c) i})"
    by (intro card_mono) simp_all
  also have "\<dots> \<le> card {i. bit (a XOR b) i} + card {i. bit (b XOR c) i}" by (rule card_Un_le)
  finally show ?thesis by (simp add: count_ones_card)
qed

lemma unat_locality_distance:
  "unat (locality_distance a s b t) = count_ones (a XOR b) + (if s \<noteq> t then 4 else 0)"
proof -
  have "count_ones (a XOR b) \<le> 16" using count_ones_le [of "a XOR b"] by simp
  then show ?thesis
    by (simp add: locality_distance_def temperature_distance_def unat_saturating_add unat_of_nat)
qed

text \<open>C22: The locality distance that drives splitting and shard selection is a bounded metric: it
  never exceeds the documented maximum of 20, so that the sum of Hamming distance and shape
  penalty never saturates, it vanishes exactly on equal temperatures and shapes, it is symmetric,
  and it satisfies the triangle inequality.\<close>

theorem locality_distance_metric:
  "locality_distance a s b t \<le> MAX_LOCALITY_DISTANCE \<and>
   (locality_distance a s b t = 0 \<longleftrightarrow> a = b \<and> s = t) \<and>
   locality_distance a s b t = locality_distance b t a s \<and>
   unat (locality_distance a s c u) \<le> unat (locality_distance a s b t) + unat (locality_distance b t c u)"
proof (intro conjI)
  have "count_ones (a XOR b) \<le> 16" using count_ones_le [of "a XOR b"] by simp
  then show "locality_distance a s b t \<le> MAX_LOCALITY_DISTANCE"
    by (simp add: word_le_nat_alt unat_locality_distance)
  have "a XOR b = 0 \<longleftrightarrow> a = b" by (metis xor_self_eq xor.right_neutral xor.left_commute)
  then show "locality_distance a s b t = 0 \<longleftrightarrow> a = b \<and> s = t"
    by (simp add: unat_eq_0 [symmetric] unat_locality_distance)
  show "locality_distance a s b t = locality_distance b t a s"
    unfolding word_unat_eq_iff unat_locality_distance xor.commute [of a b] by simp
  show "unat (locality_distance a s c u) \<le> unat (locality_distance a s b t) + unat (locality_distance b t c u)"
    using count_ones_triangle [of a c b] by (auto simp: unat_locality_distance)
qed

section \<open>Collation keeps every record exactly once\<close>

text \<open>What is used of \<^verbatim>\<open>HandoffBuffer::split_prefix\<close> and \<^verbatim>\<open>freeze_all\<close>.\<close>

definition handoff_splits :: "handoff \<Rightarrow> bool" where
  "handoff_splits H \<longleftrightarrow> (\<forall>bs n. n \<le> length bs \<longrightarrow> H bs n = (take n bs, drop n bs))"

lemma split_foldl:
  "foldl (split_step records P) (l, r) is =
   (foldl (side_step records) l (filter P is), foldl (side_step records) r (filter (\<lambda>i. \<not> P i) is))"
  by (induction "is" arbitrary: l r) (auto simp: split_step_def)

lemma side_foldl:
  "\<exists>n' b'. foldl (side_step records) (n, b, packed) is =
     (n', b', packed @ concat (map (\<lambda>i. le_bytes 4 (of_nat i :: u32)) is)) \<and> (is = [] \<longrightarrow> n' = n)"
proof (induction "is" arbitrary: n b packed)
  case (Cons i "is")
  from Cons.IH [of "min (n + 1) usize_max" "saturating_add b (lr_source_bytes (records ! i))"
      "packed @ le_bytes 4 (of_nat i :: u32)"]
  show ?case by (auto simp: side_step_def)
qed simp

lemma indices_packed:
  assumes "\<forall>i\<in>set is. i < 2 ^ 32"
  shows "indices (Packed (concat (map (\<lambda>i. le_bytes 4 (of_nat i :: u32)) is))) = is"
proof -
  have "chunks_exact 4 (concat (map (\<lambda>i. le_bytes 4 (of_nat i :: u32)) is)) =
      map (\<lambda>i. le_bytes 4 (of_nat i :: u32)) is"
    by (rule chunks_exact_concat) auto
  moreover have "map (\<lambda>i. unat (of_nat i :: u32)) is = is"
    using assms by (intro map_idI) (simp add: unat_of_nat)
  ultimately show ?thesis by (simp add: comp_def)
qed

lemma split_membership_indices:
  assumes "split_membership H records m c scored = Some (l, r)" "handoff_splits H"
    and "\<forall>i\<in>set (indices m). i < 2 ^ 32" "0 < lc_min_split_records c"
  shows "\<exists>P. indices l = filter P (indices m) \<and> indices r = filter (\<lambda>i. \<not> P i) (indices m) \<and>
    indices l \<noteq> [] \<and> indices r \<noteq> []"
proof -
  let ?P = "goes_left records (sm_seed_a scored) (sm_seed_b scored)"
  let ?enc = "\<lambda>is. concat (map (\<lambda>i. le_bytes 4 (of_nat i :: u32)) is)"
  let ?l = "filter ?P (indices m)" and ?r = "filter (\<lambda>i. \<not> ?P i) (indices m)"
  obtain ln lb where ls: "foldl (side_step records) (0, 0, []) ?l = (ln, lb, ?enc ?l)" "?l = [] \<longrightarrow> ln = 0"
    using side_foldl [of records 0 0 "[]" ?l] by auto
  obtain rn rb where rs: "foldl (side_step records) (0, 0, []) ?r = (rn, rb, ?enc ?r)" "?r = [] \<longrightarrow> rn = 0"
    using side_foldl [of records 0 0 "[]" ?r] by auto
  have big: "lc_min_split_records c \<le> ln" "lc_min_split_records c \<le> rn"
    and lr: "H (?enc ?l @ ?enc ?r) (length (?enc ?l)) = (left, right) \<Longrightarrow> l = Packed left \<and> r = Packed right"
    for left right
    using assms(1) by (auto simp: split_membership_def split_foldl ls(1) rs(1) Let_def split: if_splits prod.splits)
  have "H (?enc ?l @ ?enc ?r) (length (?enc ?l)) = (?enc ?l, ?enc ?r)"
    using assms(2) by (simp add: handoff_splits_def)
  from lr [OF this] have "indices l = ?l" "indices r = ?r"
    using assms(3) indices_packed [of ?l] indices_packed [of ?r] by simp_all
  moreover have "?l \<noteq> []" "?r \<noteq> []" using ls(2) rs(2) big assms(4) by auto
  ultimately show ?thesis by (intro exI [of _ ?P]) simp
qed

definition part_ok :: "block_membership \<Rightarrow> bool" where
  "part_ok m \<longleftrightarrow> indices m \<noteq> [] \<and> sorted_wrt (<) (indices m) \<and> (\<forall>i\<in>set (indices m). i < 2 ^ 32)"

abbreviation parts :: "(block_membership \<times> 'a) list \<Rightarrow> nat multiset" where
  "parts xs \<equiv> mset (concat (map (\<lambda>(m, _). indices m) xs))"

lemma split_parts:
  assumes "split_membership H records m c scored = Some (l, r)" "handoff_splits H" "part_ok m"
    and "0 < lc_min_split_records c"
  shows "mset (indices m) = mset (indices l) + mset (indices r)" "part_ok l" "part_ok r"
proof -
  obtain P where P: "indices l = filter P (indices m)" "indices r = filter (\<lambda>i. \<not> P i) (indices m)"
    "indices l \<noteq> []" "indices r \<noteq> []"
    using split_membership_indices [OF assms(1,2) _ assms(4)] assms(3) by (auto simp: part_ok_def)
  show "mset (indices m) = mset (indices l) + mset (indices r)" unfolding P(1,2) by simp
  show "part_ok l" "part_ok r" using P assms(3) by (auto simp: part_ok_def sorted_wrt_filter)
qed

lemma collate_work_parts:
  assumes "collate_work H source home records explore work C attempted leaves = (C', attempted', leaves')"
    and "handoff_splits H" "0 < lc_min_split_records (co_config C)"
    and "\<forall>(m, d)\<in>set work. part_ok m" "\<forall>(m, s)\<in>set leaves. part_ok m"
  shows "parts leaves' = parts work + parts leaves \<and> (\<forall>(m, s)\<in>set leaves'. part_ok m) \<and>
    length leaves' \<le> length leaves + sum_list (map (\<lambda>(m, d). depth_weight (co_config C) d) work) \<and>
    co_config C' = co_config C \<and> co_shards C' = co_shards C"
  using assms
proof (induction H source home records explore work C attempted leaves rule: collate_work.induct)
  case (2 H source home records explore m depth work C attempted leaves)
  let ?sc = "score_membership records m"
  let ?C = "observe_score C (sm_score ?sc)"
  let ?split = "should_split ?C source home explore depth (sm_score ?sc)"
  show ?case
  proof (cases "if ?split then split_membership H records m (co_config ?C) ?sc else None")
    case None
    then have "collate_work H source home records explore work ?C (attempted \<or> ?split) (leaves @ [(m, sm_score ?sc)]) =
        (C', attempted', leaves')"
      using "2.prems"(1) by (simp add: Let_def)
    from "2.IH"(1) [OF refl refl refl refl None this] "2.prems"(2-5) show ?thesis
      using depth_weight_pos [of "co_config C" depth] by (auto simp: add.commute add.left_commute)
  next
    case (Some lr)
    obtain l r where lr: "lr = (l, r)" by (cases lr)
    have split: "?split" "split_membership H records m (co_config C) ?sc = Some (l, r)"
      using Some lr by (auto split: if_splits)
    have "collate_work H source home records explore
        (work @ [(l, saturating_add depth 1), (r, saturating_add depth 1)]) (count_split ?C l r) True leaves =
        (C', attempted', leaves')"
      using "2.prems"(1) split by (simp add: Let_def)
    moreover note ok = split_parts [OF split(2) "2.prems"(2) _ "2.prems"(3)]
    moreover have "depth < lc_max_split_depth (co_config C)" using split(1) by (simp add: should_split_def)
    note depth_weight_split [OF this]
    ultimately show ?thesis
      using "2.IH"(2) [OF refl refl refl refl Some [unfolded lr] refl] "2.prems"(2-5) by auto
  qed
qed simp

section \<open>Shards are bounded and isolate source cohorts\<close>

definition shard_keys :: "block_collator \<Rightarrow> (compression_placement_id \<times> compression_cohort_id) list" where
  "shard_keys C = map (\<lambda>s. (sp_placement_id (cs_snapshot s), sp_source_cohort (cs_snapshot s))) (co_shards C)"

text \<open>A placement is the base placement of the cohort or belongs to a shard of the cohort.\<close>

definition placed :: "compression_cohort_id \<Rightarrow> block_collator \<Rightarrow> compression_placement \<Rightarrow> bool" where
  "placed source C p \<longleftrightarrow>
     granularity p = Base \<and> placement_id p = from_source_cohort source \<or>
     granularity p = Collated \<and> (placement_id p, source) \<in> set (shard_keys C)"

lemma nearest_shard_Some:
  assumes "nearest_shard C source temperature shape = Some (i, d)"
  shows "i < length (co_shards C)" "snd (shard_keys C ! i) = source"
proof -
  obtain x where x: "min_by_key (\<lambda>(i, s). (shard_distance temperature shape s, sp_variance_q8 (cs_snapshot s),
            sp_placement_id (cs_snapshot s)))
         (filter (\<lambda>(i, s). sp_source_cohort (cs_snapshot s) = source) (enumerate 0 (co_shards C))) = Some x"
    "i = fst x"
    using assms by (auto simp: nearest_shard_def)
  from min_by_key_Some(1) [OF x(1)] x(2)
  show "i < length (co_shards C)" "snd (shard_keys C ! i) = source"
    by (auto simp: in_set_enumerate_eq shard_keys_def)
qed

lemma weigh_snapshot [simp]: "cs_snapshot (foldl (weigh_record records) s is) = cs_snapshot s"
  by (induction "is" arbitrary: s) (simp_all add: weigh_record_def Let_def)

lemma halve_snapshot [simp]: "cs_snapshot (halve_weights s) = cs_snapshot s"
  by (simp add: halve_weights_def)

lemma vote_snapshot [simp]:
  "sp_placement_id (cs_snapshot (vote_shape score s)) = sp_placement_id (cs_snapshot s)"
  "sp_source_cohort (cs_snapshot (vote_shape score s)) = sp_source_cohort (cs_snapshot s)"
  by (simp_all add: vote_shape_def Let_def)

lemma observe_shard_keeps [simp]:
  "shard_keys (observe_shard C i records m score) = shard_keys C"
  "co_config (observe_shard C i records m score) = co_config C"
  "length (co_shards (observe_shard C i records m score)) = length (co_shards C)"
  by (cases "i < length (co_shards C)")
     (auto simp: observe_shard_def shard_keys_def Let_def map_update list_update_same_conv list_update_beyond)

lemma placement_id_nth:
  "i < length (co_shards C) \<Longrightarrow> sp_placement_id (cs_snapshot (co_shards C ! i)) = fst (shard_keys C ! i)"
  by (simp add: shard_keys_def)

lemma admit_shard_keys:
  assumes "admit_shard C source temperature shape = (C', i)"
  shows "\<exists>p. shard_keys C' = shard_keys C @ [(p, source)]" "i = length (co_shards C)"
    "co_config C' = co_config C" "length (co_shards C') = Suc (length (co_shards C))"
  using assms by (auto simp: admit_shard_def shard_keys_def Let_def)

lemma length_shard_keys [simp]: "length (shard_keys C) = length (co_shards C)"
  by (simp add: shard_keys_def)

lemma observed_placed:
  assumes "i < length (co_shards C)" "snd (shard_keys C ! i) = source"
  shows "(sp_placement_id (cs_snapshot (co_shards (observe_shard C i records m score) ! i)), source)
    \<in> set (shard_keys C)"
proof -
  have "(fst (shard_keys C ! i), snd (shard_keys C ! i)) \<in> set (shard_keys C)" using assms(1) by simp
  then show ?thesis using assms by (simp add: placement_id_nth)
qed

lemma assign_leaf_placed:
  assumes "assign_leaf C source records m score = (C', p)"
    and "length (co_shards C) \<le> lc_max_compression_shards (co_config C)"
  shows "placed source C' p \<and> set (shard_keys C) \<subseteq> set (shard_keys C') \<and> co_config C' = co_config C \<and>
    length (co_shards C') \<le> lc_max_compression_shards (co_config C)"
proof -
  let ?base = "(base_placement source (score_temperature score))\<lparr>placement_variance_q8 := score_variance_q8 score\<rparr>"
  have base: "placed source D ?base" for D by (simp add: placed_def base_placement_def)
  have found: "placed source D p \<and> set (shard_keys C) \<subseteq> set (shard_keys D) \<and> co_config D = co_config C \<and>
      length (co_shards D) \<le> lc_max_compression_shards (co_config C)"
    if "i < length (co_shards E)" "snd (shard_keys E ! i) = source" "D = observe_shard E i records m score"
      "p = \<lparr>placement_id = sp_placement_id (cs_snapshot (co_shards D ! i)),
                    placement_temperature = score_temperature score, granularity = Collated,
                    distance_to_shard = d, placement_variance_q8 = score_variance_q8 score\<rparr>"
      "set (shard_keys C) \<subseteq> set (shard_keys E)" "co_config E = co_config C"
      "length (co_shards E) \<le> lc_max_compression_shards (co_config C)"
    for D E i d
    using that observed_placed [OF that(1,2)] by (simp add: placed_def)
  show ?thesis
  proof (cases "\<not> lc_enabled (co_config C) \<or> score_variance_q8 score > lc_max_shard_variance_q8 (co_config C)")
    case True
    then show ?thesis using assms base by (simp add: assign_leaf_def)
  next
    case False
    show ?thesis
    proof (cases "nearest_assignable C source score")
      case (Some x)
      obtain i d where x: "x = (i, d)" by (cases x)
      then have near: "nearest_shard C source (score_temperature score) (score_shape_hash score) = Some (i, d)"
        using Some by (auto simp: nearest_assignable_def split: option.splits if_splits)
      show ?thesis
        by (rule found [OF nearest_shard_Some [OF near], of C' d])
           (use assms False Some x in \<open>auto simp: assign_leaf_def Let_def\<close>)
    next
      case None
      show ?thesis
      proof (cases "score_source_bytes score \<ge> min (lc_min_admission_bytes (co_config C)) (co_target_block_bytes C)
          \<and> length (co_shards C) < lc_max_compression_shards (co_config C)")
        case True
        obtain D i where D: "admit_shard C source (score_temperature score) (score_shape_hash score) = (D, i)"
          by (cases "admit_shard C source (score_temperature score) (score_shape_hash score)")
        note keys = admit_shard_keys [OF D]
        have "snd (shard_keys D ! i) = source" "set (shard_keys C) \<subseteq> set (shard_keys D)"
          using keys by (auto simp: nth_append)
        then show ?thesis
          by (intro found [of i D C' 0])
             (use assms(1) False None True keys(2-4) D in \<open>auto simp: assign_leaf_def Let_def\<close>)
      next
        case no_room: False
        then have "assign_leaf C source records m score = (C, ?base)"
          using False None by (auto simp: assign_leaf_def Let_def)
        then show ?thesis using assms base by simp
      qed
    qed
  qed
qed

lemma place_leaf_placed:
  assumes "place_leaf source home records C leaf = (C', a)"
    and "length (co_shards C) \<le> lc_max_compression_shards (co_config C)"
  shows "placed source C' (as_placement a) \<and> set (shard_keys C) \<subseteq> set (shard_keys C') \<and> co_config C' = co_config C \<and>
    length (co_shards C') \<le> lc_max_compression_shards (co_config C) \<and> as_membership a = fst leaf"
proof -
  obtain m score where leaf: "leaf = (m, score)" by (cases leaf)
  obtain D p where D: "assign_leaf C source records m score = (D, p)"
    by (cases "assign_leaf C source records m score")
  have "co_shards C' = co_shards D" "co_config C' = co_config D" "as_placement a = p" "as_membership a = m"
    using assms(1) by (auto simp: place_leaf_def leaf D Let_def)
  moreover from this have "shard_keys C' = shard_keys D" by (simp add: shard_keys_def)
  ultimately show ?thesis
    using assign_leaf_placed [OF D assms(2)] leaf by (simp add: placed_def)
qed

lemma place_leaves_placed:
  assumes "place_leaves source home records C leaves = (C', as)"
    and "length (co_shards C) \<le> lc_max_compression_shards (co_config C)"
  shows "(\<forall>a\<in>set as. placed source C' (as_placement a)) \<and> set (shard_keys C) \<subseteq> set (shard_keys C') \<and>
    co_config C' = co_config C \<and> length (co_shards C') \<le> lc_max_compression_shards (co_config C) \<and>
    map as_membership as = map fst leaves"
  using assms
proof (induction leaves arbitrary: C as)
  case (Cons leaf leaves)
  obtain D a where D: "place_leaf source home records C leaf = (D, a)"
    by (cases "place_leaf source home records C leaf")
  obtain bs where bs: "place_leaves source home records D leaves = (C', bs)" "as = a # bs"
    using Cons.prems(1) D by (auto split: prod.splits)
  note a = place_leaf_placed [OF D Cons.prems(2)]
  note rest = Cons.IH [OF bs(1)]
  have "placed source C' p" if "placed source D p" for p
    using that rest a by (auto simp: placed_def)
  then show ?case using a rest bs(2) by auto
qed simp

definition collator_ok :: "block_collator \<Rightarrow> bool" where
  "collator_ok C \<longleftrightarrow>
     2 \<le> lc_min_split_records (co_config C) \<and> lc_max_split_depth (co_config C) \<le> MAX_SPLIT_DEPTH \<and>
     length (co_shards C) \<le> lc_max_compression_shards (co_config C) \<and>
     length (co_split_explorations C) = SPLIT_EXPLORATION_SLOTS"

lemma collator_new_ok: "collator_new sizes c target = Inr C \<Longrightarrow> collator_ok C"
  by (auto simp: collator_new_def locality_validate_def collator_ok_def and_then_eq_Inr split: if_splits)

lemma should_explore_keeps:
  "should_explore_splits C source = (C', e) \<Longrightarrow>
   co_config C' = co_config C \<and> co_shards C' = co_shards C \<and>
   length (co_split_explorations C') = length (co_split_explorations C)"
  by (auto simp: should_explore_splits_def Let_def split: if_splits)

lemma observe_split_exploration_keeps [simp]:
  "co_config (observe_split_exploration C source attempted specialized) = co_config C"
  "co_shards (observe_split_exploration C source attempted specialized) = co_shards C"
  "length (co_split_explorations (observe_split_exploration C source attempted specialized)) =
     length (co_split_explorations C)"
  by (simp_all add: observe_split_exploration_def Let_def)

lemma explorations_kept:
  "assign_leaf C source records m score = (C', p) \<Longrightarrow> co_split_explorations C' = co_split_explorations C"
  "place_leaves source home records C leaves = (C', as) \<Longrightarrow> co_split_explorations C' = co_split_explorations C"
  "collate_work H source home records explore work C attempted leaves = (C', attempted', leaves') \<Longrightarrow>
    co_split_explorations C' = co_split_explorations C"
proof -
  have assign: "co_split_explorations C' = co_split_explorations C"
    if "assign_leaf C source records m score = (C', p)" for C m score C' p
    using that
    by (auto simp: assign_leaf_def observe_shard_def admit_shard_def Let_def split: if_splits option.splits prod.splits)
  then show "assign_leaf C source records m score = (C', p) \<Longrightarrow> co_split_explorations C' = co_split_explorations C" .
  show "co_split_explorations C' = co_split_explorations C"
    if "place_leaves source home records C leaves = (C', as)"
    using that
  proof (induction leaves arbitrary: C as)
    case (Cons leaf leaves)
    then show ?case by (force simp: place_leaf_def Let_def split: prod.splits if_splits dest: assign)
  qed simp
  show "co_split_explorations C' = co_split_explorations C"
    if "collate_work H source home records explore work C attempted leaves = (C', attempted', leaves')"
    using that
    by (induction H source home records explore work C attempted leaves rule: collate_work.induct)
       (auto simp: Let_def observe_score_def count_split_def split: option.splits if_splits)
qed

lemma perm_sort_by_concat: "mset (concat (map f (sort_by c xs))) = mset (concat (map f xs))"
proof -
  have "mset (concat (map f ys)) = \<Sum>\<^sub># (image_mset (\<lambda>x. mset (f x)) (mset ys))" for ys
    by (induction ys) auto
  then show ?thesis by simp
qed

text \<open>C20: Collating a block hands on every record exactly once: each record index of the block lies
  in exactly one of the assignments, each assignment holds at least one record, in ascending
  order, and there are at most four assignments. Every assignment is the base placement of the
  block's source cohort or a shard of that very cohort, and the number of compression shards
  never exceeds the configured maximum.\<close>

theorem collate_partitions:
  assumes "collate H C source home records = (C', as)" "collator_ok C" "handoff_splits H"
    and "records \<noteq> []" "length records \<le> 2 ^ 32"
  shows "mset (concat (map record_indices as)) = mset [0 ..< length records] \<and>
    list_all (\<lambda>a. record_indices a \<noteq> [] \<and> sorted_wrt (<) (record_indices a)) as \<and>
    length as \<le> 4 \<and> list_all (\<lambda>a. placed source C' (as_placement a)) as \<and> collator_ok C' \<and>
    co_config C' = co_config C"
proof -
  define C1 where "C1 = C\<lparr>co_stats := (co_stats C)\<lparr>ls_observations :=
      saturating_add (ls_observations (co_stats C)) (of_nat (min (length records) usize_max))\<rparr>\<rparr>"
  obtain C2 explore where C2: "should_explore_splits C1 source = (C2, explore)" by (cases "should_explore_splits C1 source")
  obtain C3 attempted leaves where C3:
    "collate_work H source home records explore [(Contiguous 0 (length records), 0)] C2 False [] = (C3, attempted, leaves)"
    by (rule prod_cases3)
  obtain C4 bs where C4: "place_leaves source home records C3 leaves = (C4, bs)"
    by (cases "place_leaves source home records C3 leaves")
  have out: "as = sort_by (\<lambda>a b. cmp (first_index a) (first_index b)) bs"
    "\<exists>s. C' = observe_split_exploration C4 source attempted s"
    using assms(1,4) C2 C3 C4 by (auto simp: collate_def Let_def C1_def)
  have keep: "co_config C2 = co_config C" "co_shards C2 = co_shards C"
    "length (co_split_explorations C2) = length (co_split_explorations C)"
    using should_explore_keeps [OF C2] by (simp_all add: C1_def)
  note ok = assms(2) [unfolded collator_ok_def]
  have parts: "parts leaves = mset [0 ..< length records]" "\<forall>(m, s)\<in>set leaves. part_ok m"
    "length leaves \<le> depth_weight (co_config C) 0" "co_config C3 = co_config C" "co_shards C3 = co_shards C"
    using collate_work_parts [OF C3 assms(3)] keep ok assms(4,5) by (auto simp: part_ok_def)
  have "depth_weight (co_config C) 0 \<le> 2 ^ 2"
    unfolding depth_weight_def by (rule power_increasing) (use ok in \<open>simp_all add: word_le_nat_alt\<close>)
  moreover note placed = place_leaves_placed [OF C4, unfolded parts(4,5)]
  moreover have "length bs = length leaves" using placed ok by (metis length_map)
  moreover have "map record_indices bs = map (\<lambda>(m, _). indices m) leaves"
  proof -
    have "map indices (map as_membership bs) = map indices (map fst leaves)" using placed ok by metis
    then show ?thesis by (simp add: comp_def split_beta)
  qed
  moreover have "\<forall>a\<in>set bs. part_ok (as_membership a)"
  proof
    fix a assume "a \<in> set bs"
    then have "as_membership a \<in> set (map fst leaves)" using placed ok by (metis image_eqI list.set_map)
    then show "part_ok (as_membership a)" using parts(2) by auto
  qed
  moreover have "length (co_split_explorations C4) = SPLIT_EXPLORATION_SLOTS"
    using explorations_kept(2) [OF C4] explorations_kept(3) [OF C3] keep(3) ok by simp
  moreover have "placed source C' p = placed source C4 p" for p
    using out(2) by (auto simp: placed_def shard_keys_def)
  ultimately show ?thesis
    using parts out ok keep
    by (auto simp: perm_sort_by_concat list_all_iff part_ok_def collator_ok_def)
qed

theorem collate_partitions_witness:
  "\<exists>C C' as. collator_new (192, 1024) (locality_config_default\<lparr>lc_enabled := True\<rparr>) 100 = Inr C \<and>
     collate (\<lambda>bs n. (take n bs, drop n bs)) C 3 5
       [\<lparr>lr_fingerprint = \<lparr>shape_hash = 1, locality_signature = 0\<rparr>, lr_source_bytes = 200\<rparr>,
        \<lparr>lr_fingerprint = \<lparr>shape_hash = 2, locality_signature = 255\<rparr>, lr_source_bytes = 300\<rparr>] = (C', as) \<and>
     mset (concat (map record_indices as)) = {#0, 1#}"
proof -
  let ?rs = "[\<lparr>lr_fingerprint = \<lparr>shape_hash = 1, locality_signature = 0\<rparr>, lr_source_bytes = 200\<rparr>,
        \<lparr>lr_fingerprint = \<lparr>shape_hash = 2, locality_signature = 255\<rparr>, lr_source_bytes = 300\<rparr>]"
  let ?H = "\<lambda>bs n. (take n bs, drop n bs)"
  obtain C where C: "collator_new (192, 1024) (locality_config_default\<lparr>lc_enabled := True\<rparr>) 100 = Inr C"
    by (simp add: collator_new_def locality_validate_def locality_config_default_def estimated_state_bytes_def)
  obtain C' as where run: "collate ?H C 3 5 ?rs = (C', as)" by (cases "collate ?H C 3 5 ?rs")
  have "mset (concat (map record_indices as)) = mset [0 ..< length ?rs]"
    using collate_partitions [OF run collator_new_ok [OF C]] by (simp add: handoff_splits_def)
  then show ?thesis using C run by (auto simp: upt_rec)
qed

section \<open>Suppressed splits are tried again\<close>

fun explore_times :: "nat \<Rightarrow> block_collator \<Rightarrow> compression_cohort_id \<Rightarrow> bool list" where
  "explore_times 0 C source = []"
| "explore_times (Suc n) C source =
     (let (C, e) = should_explore_splits C source in e # explore_times n C source)"

lemma suppressed_step:
  assumes "should_explore_splits C source = (C', False)" "length (co_split_explorations C) = SPLIT_EXPLORATION_SLOTS"
  shows "unat (se_blocks_since_exploration (co_split_explorations C' ! exploration_slot source)) =
      Suc (unat (se_blocks_since_exploration (co_split_explorations C ! exploration_slot source)))"
    "unat (se_blocks_since_exploration (co_split_explorations C' ! exploration_slot source)) \<le> 63"
proof -
  let ?slot = "co_split_explorations C ! exploration_slot source"
  have i: "exploration_slot source < length (co_split_explorations C)"
    using assms(2) by (simp add: exploration_slot_def)
  have "se_occupied ?slot \<and> se_source_tag ?slot = source"
    using assms(1) by (auto simp: should_explore_splits_def Let_def split_exploration_default_def split: if_splits)
  then have *: "se_blocks_since_exploration ?slot < SPLIT_BACKOFF_BLOCKS"
    "se_blocks_since_exploration (co_split_explorations C' ! exploration_slot source) =
       saturating_add (se_blocks_since_exploration ?slot) 1"
    using assms(1) i by (auto simp: should_explore_splits_def Let_def not_le split: if_splits)
  then show "unat (se_blocks_since_exploration (co_split_explorations C' ! exploration_slot source)) =
      Suc (unat (se_blocks_since_exploration ?slot))"
    "unat (se_blocks_since_exploration (co_split_explorations C' ! exploration_slot source)) \<le> 63"
    by (simp_all add: unat_saturating_add word_less_nat_alt)
qed

lemma suppressed_run:
  assumes "True \<notin> set (explore_times n C source)" "length (co_split_explorations C) = SPLIT_EXPLORATION_SLOTS"
    "0 < n"
  shows "unat (se_blocks_since_exploration (co_split_explorations C ! exploration_slot source)) + n \<le> 63"
  using assms
proof (induction n arbitrary: C)
  case (Suc n)
  obtain C' where C': "should_explore_splits C source = (C', False)"
    using Suc.prems(1) by (cases "should_explore_splits C source") auto
  note step = suppressed_step [OF C' Suc.prems(2)]
  have "length (co_split_explorations C') = SPLIT_EXPLORATION_SLOTS"
    using should_explore_keeps [OF C'] Suc.prems(2) by simp
  from Suc.IH [OF _ this] Suc.prems(1) C' step show ?case by (cases n) auto
qed simp

text \<open>C21: The back-off of unproductive splits ends: whatever the state of the collator, among 64
  successive decisions for one source cohort at least one explores splits again.\<close>

theorem backoff_ends:
  assumes "collator_ok C"
  shows "True \<in> set (explore_times 64 C source)"
proof (rule ccontr)
  assume "True \<notin> set (explore_times 64 C source)"
  then show False using suppressed_run [of 64 C source] assms by (simp add: collator_ok_def)
qed

theorem backoff_ends_witness:
  "\<exists>C. collator_new (192, 1024) (locality_config_default\<lparr>lc_enabled := True\<rparr>) 100 = Inr C \<and>
     True \<in> set (explore_times 64 C 3)"
proof -
  obtain C where C: "collator_new (192, 1024) (locality_config_default\<lparr>lc_enabled := True\<rparr>) 100 = Inr C"
    by (simp add: collator_new_def locality_validate_def locality_config_default_def estimated_state_bytes_def)
  from backoff_ends [OF collator_new_ok [OF C], of 3] C show ?thesis by blast
qed

end
