(* ===== verification/Dictionary.thy ===== *)
theory Dictionary
  imports Log_Types
begin

text \<open>
  Compression dictionaries (\<^verbatim>\<open>src/dictionary.rs\<close>): the control-plane catalog that
  publishes immutable snapshots, and the byte-bounded least-recently-used cache of a stripe. The
  lock around the current snapshot is the argument \<open>poisoned\<close>; readers and writers of a snapshot
  are otherwise sequential steps.
\<close>

section \<open>The catalog\<close>

record dictionary_snapshot =
  ds_generation :: u64
  ds_dictionaries :: "dictionary_id \<rightharpoonup> bytes"
  ds_placement_dictionaries :: "compression_placement_id \<rightharpoonup> dictionary_id"

definition snapshot_default :: dictionary_snapshot where
  "snapshot_default = \<lparr>ds_generation = 0, ds_dictionaries = Map.empty, ds_placement_dictionaries = Map.empty\<rparr>"

definition dictionary_for ::
  "dictionary_snapshot \<Rightarrow> compression_placement_id \<Rightarrow> (dictionary_id \<times> bytes) option" where
  "dictionary_for s p =
     (case ds_placement_dictionaries s p of
        None \<Rightarrow> None
      | Some d \<Rightarrow> (case ds_dictionaries s d of None \<Rightarrow> None | Some payload \<Rightarrow> Some (d, payload)))"

record dictionary_publication =
  pub_generation :: u64
  pub_placement_id :: compression_placement_id
  pub_dictionary_id :: dictionary_id

definition catalog_snapshot :: "bool \<Rightarrow> dictionary_snapshot \<Rightarrow> dictionary_snapshot log_db_result" where
  "catalog_snapshot poisoned s = (if poisoned then Inl DictionaryCatalogUnavailable else Inr s)"

definition publish ::
  "bool \<Rightarrow> dictionary_snapshot \<Rightarrow> compression_placement_id \<Rightarrow> dictionary_id \<Rightarrow> bytes \<Rightarrow>
   (dictionary_snapshot \<times> dictionary_publication) log_db_result" where
  "publish poisoned s p d payload =
     (if payload = [] then Inl EmptyDictionary
      else if poisoned then Inl DictionaryCatalogUnavailable
      else if (case ds_dictionaries s d of None \<Rightarrow> False | Some existing \<Rightarrow> existing \<noteq> payload)
      then Inl (DictionaryIdConflict d)
      else let next = \<lparr>ds_generation = ds_generation s + 1,
               ds_dictionaries = (case ds_dictionaries s d of
                  None \<Rightarrow> (ds_dictionaries s)(d \<mapsto> payload) | Some _ \<Rightarrow> ds_dictionaries s),
               ds_placement_dictionaries = (ds_placement_dictionaries s)(p \<mapsto> d)\<rparr>
           in Inr (next, \<lparr>pub_generation = ds_generation next, pub_placement_id = p, pub_dictionary_id = d\<rparr>))"

text \<open>Every assigned dictionary is present, and no dictionary is empty.\<close>

definition snapshot_ok :: "dictionary_snapshot \<Rightarrow> bool" where
  "snapshot_ok s \<longleftrightarrow> ran (ds_placement_dictionaries s) \<subseteq> dom (ds_dictionaries s) \<and> [] \<notin> ran (ds_dictionaries s)"

lemma publish_Inr:
  assumes "publish poisoned s p d payload = Inr (s', pub)"
  shows "ds_dictionaries s' = (ds_dictionaries s)(d \<mapsto> payload)" "payload \<noteq> []"
    "ds_dictionaries s d = None \<or> ds_dictionaries s d = Some payload"
    "ds_placement_dictionaries s' = (ds_placement_dictionaries s)(p \<mapsto> d)"
    "ds_generation s' = ds_generation s + 1"
  using assms by (auto simp: publish_def Let_def split: if_splits option.splits)

text \<open>The snapshots a sequence of successful publications produces.\<close>

inductive published :: "dictionary_snapshot \<Rightarrow> dictionary_snapshot \<Rightarrow> bool" where
  unchanged: "published s s"
| another: "published s t \<Longrightarrow> publish False t p d payload = Inr (u, pub) \<Longrightarrow> published s u"

text \<open>C23: Dictionaries are immutable: whatever is published afterwards, an identifier that a
  snapshot resolves keeps its bytes in every later snapshot, so that a block sealed with it stays
  decodable; and every placement assigned in a later snapshot resolves to a nonempty dictionary.\<close>

theorem published_immutable:
  assumes "published s t" "snapshot_ok s"
  shows "ds_dictionaries s \<subseteq>\<^sub>m ds_dictionaries t \<and> snapshot_ok t \<and>
    (\<forall>p d. ds_placement_dictionaries t p = Some d \<longrightarrow>
       (\<exists>payload. payload \<noteq> [] \<and> dictionary_for t p = Some (d, payload)))"
proof -
  have "ds_dictionaries s \<subseteq>\<^sub>m ds_dictionaries t \<and> snapshot_ok t"
    using assms
  proof induction
    case (another s t p d payload u pub)
    note u = publish_Inr [OF another.hyps(2)]
    have "ds_dictionaries t \<subseteq>\<^sub>m ds_dictionaries u" using u(1,3) by (auto simp: map_le_def)
    moreover have "snapshot_ok u"
      using another u by (auto simp: snapshot_ok_def ran_def split: if_splits)
    ultimately show ?case using another map_le_trans by blast
  qed (auto simp: map_le_def)
  moreover have "\<exists>payload. payload \<noteq> [] \<and> dictionary_for t p = Some (d, payload)"
    if "snapshot_ok t" "ds_placement_dictionaries t p = Some d" for p d
    using that by (force simp: snapshot_ok_def dictionary_for_def ran_def dom_def split: option.splits)
  ultimately show ?thesis by blast
qed

theorem published_immutable_witness:
  "\<exists>s pub t pub'. publish False snapshot_default 7 1 [0xAA] = Inr (s, pub) \<and> publish False s 7 2 [0xBB] = Inr (t, pub') \<and>
     ds_dictionaries t 1 = Some [0xAA] \<and> dictionary_for t 7 = Some (2, [0xBB]) \<and>
     publish False t 8 1 [0xCC] = Inl (DictionaryIdConflict 1)"
proof -
  obtain s pub where s: "publish False snapshot_default 7 1 [0xAA] = Inr (s, pub)"
    "ds_dictionaries s = [1 \<mapsto> [0xAA]]" "snapshot_ok s"
    by (simp add: publish_def snapshot_default_def snapshot_ok_def ran_def Let_def)
  obtain t pub' where t: "publish False s 7 2 [0xBB] = Inr (t, pub')"
    by (simp add: publish_def s(2) Let_def)
  have "published s t" by (rule published.another [OF published.unchanged t])
  from published_immutable [OF this s(3)] have "ds_dictionaries t 1 = Some [0xAA]"
    unfolding s(2) by (simp add: map_le_def)
  then show ?thesis
    using s t publish_Inr [OF t] by (auto simp: dictionary_for_def publish_def)
qed

section \<open>The cache\<close>

lemma u64_max: "unat (- 1 :: u64) = 2 ^ 64 - 1"
  by (simp add: unsigned_minus_1_eq_mask mask_eq_exp_minus_1)


record cached_dictionary =
  cd_payload :: bytes
  cd_last_used :: u64

record dictionary_insert =
  di_dictionary_id :: dictionary_id
  di_evicted :: "dictionary_id list"

record dictionary_cache =
  dc_capacity_bytes :: nat
  dc_stored_bytes :: nat
  dc_clock :: u64
  dc_entries :: "(dictionary_id \<times> cached_dictionary) list"

definition cache_new :: "nat \<Rightarrow> dictionary_cache log_db_result" where
  "cache_new capacity =
     (if capacity = 0 then Inl (InvalidConfig ''dictionary_cache_bytes must be nonzero'')
      else Inr \<lparr>dc_capacity_bytes = capacity, dc_stored_bytes = 0, dc_clock = 0, dc_entries = []\<rparr>)"

lemma length_delete_less: "(k, v) \<in> set al \<Longrightarrow> length (AList.delete k al) < length al"
  unfolding AList.delete_eq by (rule length_filter_less) auto

text \<open>
  The eviction loop. An over-full cache has an entry (\<open>cache_insert_lru\<close>), so that the source's
  \<^verbatim>\<open>expect\<close> does not fail.
\<close>

function evict_loop ::
  "nat \<Rightarrow> nat \<Rightarrow> (dictionary_id \<times> cached_dictionary) list \<Rightarrow> dictionary_id list \<Rightarrow>
   nat \<times> (dictionary_id \<times> cached_dictionary) list \<times> dictionary_id list" where
  "evict_loop capacity stored entries evicted =
     (if stored > capacity
      then case min_by_key (\<lambda>x. cd_last_used (snd x)) entries of
             None \<Rightarrow> (stored, entries, evicted)
           | Some (d, e) \<Rightarrow>
               evict_loop capacity (stored - length (cd_payload e)) (AList.delete d entries) (evicted @ [d])
      else (stored, entries, evicted))"
  by pat_completeness auto

termination
  by (relation "measure (\<lambda>(_, _, entries, _). length entries)")
     (auto intro: length_delete_less dest: min_by_key_Some(1))

declare evict_loop.simps [simp del]

definition cache_insert ::
  "dictionary_cache \<Rightarrow> dictionary_id \<Rightarrow> bytes \<Rightarrow> (dictionary_cache \<times> dictionary_insert) log_db_result" where
  "cache_insert c d payload =
     (if payload = [] then Inl EmptyDictionary
      else if length payload > dc_capacity_bytes c
      then Inl (DictionaryTooLarge (length payload) (dc_capacity_bytes c))
      else if (case map_of (dc_entries c) d of None \<Rightarrow> False | Some e \<Rightarrow> cd_payload e \<noteq> payload)
      then Inl (DictionaryIdConflict d)
      else let stored = (case map_of (dc_entries c) d of
                 None \<Rightarrow> dc_stored_bytes c | Some e \<Rightarrow> dc_stored_bytes c - length (cd_payload e));
               clock = dc_clock c + 1;
               entries = (d, \<lparr>cd_payload = payload, cd_last_used = clock\<rparr>) # AList.delete d (dc_entries c);
               (stored, entries, evicted) =
                 evict_loop (dc_capacity_bytes c) (stored + length payload) entries []
           in Inr (c\<lparr>dc_stored_bytes := stored, dc_clock := clock, dc_entries := entries\<rparr>,
                   \<lparr>di_dictionary_id = d, di_evicted = evicted\<rparr>))"

definition cache_get :: "dictionary_cache \<Rightarrow> dictionary_id \<Rightarrow> dictionary_cache \<times> bytes option" where
  "cache_get c d =
     (let clock = dc_clock c + 1; c = c\<lparr>dc_clock := clock\<rparr> in
      case map_of (dc_entries c) d of
        None \<Rightarrow> (c, None)
      | Some e \<Rightarrow> (c\<lparr>dc_entries := AList.update d (e\<lparr>cd_last_used := clock\<rparr>) (dc_entries c)\<rparr>, Some (cd_payload e)))"

definition cache_contains :: "dictionary_cache \<Rightarrow> dictionary_id \<Rightarrow> bool" where
  "cache_contains c d \<longleftrightarrow> map_of (dc_entries c) d \<noteq> None"

abbreviation payload_bytes :: "(dictionary_id \<times> cached_dictionary) list \<Rightarrow> nat" where
  "payload_bytes entries \<equiv> sum_list (map (\<lambda>x. length (cd_payload (snd x))) entries)"

definition dictionary_cache_ok :: "dictionary_cache \<Rightarrow> bool" where
  "dictionary_cache_ok c \<longleftrightarrow>
     distinct (map fst (dc_entries c)) \<and> dc_stored_bytes c = payload_bytes (dc_entries c) \<and>
     dc_stored_bytes c \<le> dc_capacity_bytes c \<and> (\<forall>x\<in>set (dc_entries c). cd_last_used (snd x) \<le> dc_clock c)"

lemma cache_new_ok: "cache_new capacity = Inr c \<Longrightarrow> dictionary_cache_ok c"
  by (auto simp: cache_new_def dictionary_cache_ok_def split: if_splits)

lemma payload_bytes_delete:
  assumes "distinct (map fst al)" "(d, e) \<in> set al"
  shows "payload_bytes al = length (cd_payload e) + payload_bytes (AList.delete d al)"
  using assms
proof (induction al)
  case (Cons x al)
  show ?case
  proof (cases "fst x = d")
    case True
    then have "AList.delete d al = al" using Cons.prems(1) by (auto simp: AList.delete_idem)
    moreover have "x = (d, e)" using Cons.prems True by (force simp: image_iff)
    ultimately show ?thesis by simp
  next
    case False
    then have "(d, e) \<in> set al" using Cons.prems(2) by auto
    then show ?thesis using Cons False by auto
  qed
qed simp

text \<open>
  Eviction with the entry of \<open>d\<close> used last: it stops with the bytes within capacity, keeps
  that entry, and removes only entries that were used before all that stay.
\<close>

lemma evict_loop_lru:
  assumes "evict_loop capacity stored entries evicted = (stored', entries', evicted')"
    and "distinct (map fst entries)" "stored = payload_bytes entries" "(d, e) \<in> set entries"
    and "length (cd_payload e) \<le> capacity" "\<forall>x\<in>set entries. fst x \<noteq> d \<longrightarrow> cd_last_used (snd x) < cd_last_used e"
  shows "distinct (map fst entries') \<and> stored' = payload_bytes entries' \<and> stored' \<le> capacity \<and>
    (d, e) \<in> set entries' \<and> set entries' \<subseteq> set entries \<and>
    (\<exists>gone. evicted' = evicted @ gone \<and> set gone = fst ` (set entries - set entries')) \<and>
    (\<forall>x\<in>set entries - set entries'. \<forall>y\<in>set entries'. cd_last_used (snd x) \<le> cd_last_used (snd y))"
  using assms
proof (induction capacity stored entries evicted rule: evict_loop.induct)
  case (1 capacity stored entries evicted)
  show ?case
  proof (cases "stored > capacity")
    case False
    then have "stored' = stored" "entries' = entries" "evicted' = evicted"
      using "1.prems"(1) by (auto simp: evict_loop.simps [of capacity stored])
    then show ?thesis using "1.prems" False by auto
  next
    case True
    obtain x where x: "min_by_key (\<lambda>x. cd_last_used (snd x)) entries = Some x"
      using "1.prems"(4) by (cases "min_by_key (\<lambda>x. cd_last_used (snd x)) entries") auto
    obtain k f where kf: "x = (k, f)" by (cases x)
    note least = min_by_key_Some [OF x [unfolded kf]]
    have "k \<noteq> d"
    proof
      assume "k = d"
      then have "f = e" using least(1) "1.prems"(2,4) by (metis map_of_is_SomeI option.inject)
      have "y = (d, e)" if y: "y \<in> set entries" for y
      proof -
        have "cd_last_used e \<le> cd_last_used (snd y)" using least(2) y \<open>f = e\<close> by auto
        then have "fst y = d" using "1.prems"(6) y by (auto simp: not_le [symmetric])
        then show ?thesis
          using y "1.prems"(2,4) by (metis map_of_is_SomeI option.inject prod.collapse)
      qed
      then have "set entries = {(d, e)}" using "1.prems"(4) by blast
      moreover have "distinct entries" using "1.prems"(2) by (simp add: distinct_map)
      ultimately have "length entries = 1" using distinct_card [of entries] by simp
      then obtain z where "entries = [z]" by (auto simp: length_Suc_conv)
      with "1.prems"(4) have "entries = [(d, e)]" by simp
      then show False using True "1.prems"(3,5) by simp
    qed
    let ?rest = "AList.delete k entries"
    have rest: "set ?rest = {y \<in> set entries. fst y \<noteq> k}" by (auto simp: AList.delete_eq)
    have loop: "evict_loop capacity (stored - length (cd_payload f)) ?rest (evicted @ [k]) = (stored', entries', evicted')"
      using "1.prems"(1) True x kf by (simp add: evict_loop.simps [of capacity stored])
    have IH: "distinct (map fst entries') \<and> stored' = payload_bytes entries' \<and> stored' \<le> capacity \<and>
      (d, e) \<in> set entries' \<and> set entries' \<subseteq> set ?rest \<and>
      (\<exists>gone. evicted' = (evicted @ [k]) @ gone \<and> set gone = fst ` (set ?rest - set entries')) \<and>
      (\<forall>x\<in>set ?rest - set entries'. \<forall>y\<in>set entries'. cd_last_used (snd x) \<le> cd_last_used (snd y))"
    proof (rule "1.IH" [OF True x kf [symmetric] loop])
      show "distinct (map fst ?rest)" using "1.prems"(2) by (rule AList.distinct_delete)
      show "stored - length (cd_payload f) = payload_bytes ?rest"
        using "1.prems"(3) payload_bytes_delete [OF "1.prems"(2) least(1)] by simp
      show "(d, e) \<in> set ?rest" using rest "1.prems"(4) \<open>k \<noteq> d\<close> by simp
    qed (use "1.prems"(5,6) rest in auto)
    have only: "y = (k, f)" if "y \<in> set entries" "fst y = k" for y
      using that least(1) "1.prems"(2) by (metis map_of_is_SomeI option.inject prod.collapse)
    have split: "set entries - set entries' = insert (k, f) (set ?rest - set entries')"
    proof -
      have "set entries = insert (k, f) (set ?rest)" using only least(1) unfolding rest by blast
      moreover have "(k, f) \<notin> set ?rest" unfolding rest by simp
      then have "(k, f) \<notin> set entries'" using IH by blast
      ultimately show ?thesis by blast
    qed
    have sub: "set entries' \<subseteq> set entries" using IH unfolding rest by blast
    have "cd_last_used f \<le> cd_last_used (snd y)" if "y \<in> set entries'" for y
      using least(2) that sub by auto
    moreover obtain gone where "evicted' = (evicted @ [k]) @ gone" "set gone = fst ` (set ?rest - set entries')"
      using IH by blast
    then have "evicted' = evicted @ (k # gone)" "set (k # gone) = fst ` insert (k, f) (set ?rest - set entries')"
      by simp_all
    ultimately show ?thesis using IH sub unfolding split by (metis (no_types, lifting) insert_iff snd_conv)
  qed
qed

text \<open>Removing entries from an association list removes exactly their keys from the map.\<close>

lemma map_of_evicted:
  assumes "distinct (map fst old)" "distinct (map fst kept)" "set kept \<subseteq> set old"
  shows "map_of kept k = (if k \<in> fst ` (set old - set kept) then None else map_of old k)"
proof (cases "map_of kept k")
  case None
  then have "(k, e) \<notin> set kept" for e using assms(2) by auto
  moreover have "map_of old k = None" if "k \<notin> fst ` (set old - set kept)"
  proof -
    have "(k, e) \<notin> set old" for e using that calculation by (force simp: image_iff)
    then show ?thesis using assms(1) by (cases "map_of old k") auto
  qed
  ultimately show ?thesis using None by simp
next
  case (Some e)
  then have "(k, e) \<in> set kept" "(k, e) \<in> set old" using assms(3) map_of_SomeD by fast+
  moreover from this have "k \<notin> fst ` (set old - set kept)"
    using assms(1) by (auto simp: image_iff) (metis map_of_is_SomeI option.inject)
  ultimately show ?thesis using Some assms(1) by (simp add: map_of_is_SomeI)
qed

text \<open>C24: Inserting a dictionary into the cache keeps it within its byte capacity and its
  accounting exact, the new dictionary resident with its bytes, and every other resident entry
  unchanged. The evicted identifiers are exactly the entries that left, and none of them was
  used more recently than an entry that stayed. (The clock has not wrapped.)\<close>

theorem cache_insert_lru:
  assumes "cache_insert c d payload = Inr (c', ins)" "dictionary_cache_ok c" "dc_clock c < - 1"
  shows "dictionary_cache_ok c' \<and> dc_capacity_bytes c' = dc_capacity_bytes c \<and>
    map_of (dc_entries c') d = Some \<lparr>cd_payload = payload, cd_last_used = dc_clock c'\<rparr> \<and>
    (\<forall>k. k \<noteq> d \<longrightarrow> map_of (dc_entries c') k = (if k \<in> set (di_evicted ins) then None else map_of (dc_entries c) k)) \<and>
    (\<forall>k e k' e'. k \<in> set (di_evicted ins) \<longrightarrow> map_of (dc_entries c) k = Some e \<longrightarrow>
       map_of (dc_entries c') k' = Some e' \<longrightarrow> cd_last_used e \<le> cd_last_used e')"
proof -
  define new where "new = \<lparr>cd_payload = payload, cd_last_used = dc_clock c + 1\<rparr>"
  let ?old = "AList.delete d (dc_entries c)"
  let ?entries = "(d, new) # ?old"
  note ok = assms(2) [unfolded dictionary_cache_ok_def]
  have clock: "dc_clock c < dc_clock c + 1" using assms(3) by (simp add: word_less_nat_alt unat_word_ariths u64_max)
  have d: "distinct (map fst ?entries)"
    using ok by (simp add: AList.distinct_delete AList.delete_notin_dom)
  obtain stored evicted where loop:
    "evict_loop (dc_capacity_bytes c) (payload_bytes ?entries) ?entries [] = (stored, dc_entries c', evicted)"
    and c': "c' = c\<lparr>dc_stored_bytes := stored, dc_clock := dc_clock c + 1, dc_entries := dc_entries c'\<rparr>"
      "ins = \<lparr>di_dictionary_id = d, di_evicted = evicted\<rparr>" "length payload \<le> dc_capacity_bytes c"
  proof -
    have "(case map_of (dc_entries c) d of None \<Rightarrow> dc_stored_bytes c
        | Some e \<Rightarrow> dc_stored_bytes c - length (cd_payload e)) = payload_bytes ?old"
      using ok payload_bytes_delete [of "dc_entries c" d]
      by (auto simp: map_of_eq_None_iff split: option.splits dest: map_of_SomeD)
    then show thesis using that assms(1)
      by (auto simp: cache_insert_def Let_def new_def add.commute split: if_splits prod.splits)
  qed
  have "\<forall>x\<in>set ?entries. fst x \<noteq> d \<longrightarrow> cd_last_used (snd x) < cd_last_used new"
    using ok clock by (auto simp: new_def AList.delete_eq intro: le_less_trans)
  from evict_loop_lru [OF loop d refl, of d new] this c'(3)
  have lru: "distinct (map fst (dc_entries c'))" "stored = payload_bytes (dc_entries c')"
    "stored \<le> dc_capacity_bytes c" "(d, new) \<in> set (dc_entries c')" "set (dc_entries c') \<subseteq> set ?entries"
    "set evicted = fst ` (set ?entries - set (dc_entries c'))"
    "\<forall>x\<in>set ?entries - set (dc_entries c'). \<forall>y\<in>set (dc_entries c'). cd_last_used (snd x) \<le> cd_last_used (snd y)"
    by (auto simp: new_def)
  have resident: "map_of (dc_entries c') k = (if k \<in> set evicted then None else map_of ?entries k)" for k
    using map_of_evicted [OF d lru(1) lru(5)] unfolding lru(6) .
  have here: "map_of (dc_entries c') d = Some new" using lru(1,4) by (rule map_of_is_SomeI)
  have old: "map_of ?entries k = map_of (dc_entries c) k" if "k \<noteq> d" for k
    using that by (simp add: AList.delete_conv')
  have order: "cd_last_used e \<le> cd_last_used e'"
    if *: "k \<in> set evicted" "map_of (dc_entries c) k = Some e" "map_of (dc_entries c') k' = Some e'" for k e k' e'
  proof -
    have "k \<noteq> d" using resident [of d] here *(1) by auto
    then have "(k, e) \<in> set ?entries" using old *(2) by (metis map_of_SomeD)
    moreover have "(k, e) \<notin> set (dc_entries c')"
      using resident [of k] *(1) lru(1) by (metis map_of_is_SomeI option.distinct(1))
    ultimately show ?thesis using bspec [OF bspec [OF lru(7)], of "(k, e)" "(k', e')"] map_of_SomeD [OF *(3)] by simp
  qed
  have "cd_last_used (snd x) \<le> dc_clock c + 1" if "x \<in> set (dc_entries c')" for x
    using that lru(5) ok clock by (force simp: new_def AList.delete_eq)
  then have "dictionary_cache_ok c'" unfolding dictionary_cache_ok_def by (subst (1 2 3 4 5 6) c'(1)) (use lru(1-3) in simp)
  moreover have "map_of (dc_entries c') d = Some \<lparr>cd_payload = payload, cd_last_used = dc_clock c'\<rparr>"
    unfolding here by (subst c'(1)) (simp add: new_def)
  moreover have "dc_capacity_bytes c' = dc_capacity_bytes c" by (subst c'(1)) simp
  ultimately show ?thesis using resident old order unfolding c'(2) by auto
qed

theorem cache_insert_lru_witness:
  "\<exists>c' ins. cache_insert \<lparr>dc_capacity_bytes = 3, dc_stored_bytes = 3, dc_clock = 2,
       dc_entries = [(2, \<lparr>cd_payload = [0], cd_last_used = 2\<rparr>), (1, \<lparr>cd_payload = [0, 0], cd_last_used = 1\<rparr>)]\<rparr>
       3 [7, 8] = Inr (c', ins) \<and>
     di_evicted ins = [1] \<and> dictionary_cache_ok c' \<and> map_of (dc_entries c') 2 = Some \<lparr>cd_payload = [0], cd_last_used = 2\<rparr>"
proof -
  let ?c = "\<lparr>dc_capacity_bytes = 3, dc_stored_bytes = 3, dc_clock = 2,
       dc_entries = [(2, \<lparr>cd_payload = [0], cd_last_used = 2\<rparr>), (1, \<lparr>cd_payload = [0, 0], cd_last_used = 1\<rparr>)]\<rparr>"
  obtain c' ins where run: "cache_insert ?c 3 [7, 8] = Inr (c', ins)" "di_evicted ins = [1]"
    by (simp add: cache_insert_def evict_loop.simps)
  have "dictionary_cache_ok ?c" by (simp add: dictionary_cache_ok_def)
  moreover have "dc_clock ?c < - 1" by simp
  ultimately show ?thesis using cache_insert_lru [OF run(1)] run by auto
qed

lemma in_set_update: "x \<in> set (AList.update k v al) \<Longrightarrow> x \<in> set al \<or> x = (k, v)"
  by (induction al) (auto split: if_splits)

text \<open>Reading refreshes recency and nothing else.\<close>

lemma cache_get_ok:
  assumes "cache_get c d = (c', r)" "dictionary_cache_ok c" "dc_clock c < - 1"
  shows "dictionary_cache_ok c' \<and> dc_capacity_bytes c' = dc_capacity_bytes c \<and> dc_clock c' = dc_clock c + 1 \<and>
    r = map_option cd_payload (map_of (dc_entries c) d) \<and>
    (\<forall>k. map_option cd_payload (map_of (dc_entries c') k) = map_option cd_payload (map_of (dc_entries c) k))"
proof -
  note ok = assms(2) [unfolded dictionary_cache_ok_def]
  have clock: "dc_clock c \<le> dc_clock c + 1" using assms(3) by (simp add: word_le_nat_alt word_less_nat_alt unat_word_ariths u64_max)
  have sum: "payload_bytes (AList.update d (e\<lparr>cd_last_used := t\<rparr>) al) = payload_bytes al"
    if "map_of al d = Some e" "distinct (map fst al)" for e t al
    using that by (induction al) auto
  show ?thesis
  proof (cases "map_of (dc_entries c) d")
    case None
    have "cd_last_used (snd x) \<le> dc_clock c + 1" if "x \<in> set (dc_entries c)" for x
      using that ok clock by (meson order.trans)
    then show ?thesis using None assms(1) ok by (auto simp: cache_get_def Let_def dictionary_cache_ok_def)
  next
    case (Some e)
    have "cd_last_used (snd x) \<le> dc_clock c + 1"
      if "x \<in> set (AList.update d (e\<lparr>cd_last_used := dc_clock c + 1\<rparr>) (dc_entries c))" for x
    proof -
      have "x \<in> set (dc_entries c) \<or> x = (d, e\<lparr>cd_last_used := dc_clock c + 1\<rparr>)" using that by (rule in_set_update)
      moreover have "cd_last_used (snd x) \<le> dc_clock c + 1" if "x \<in> set (dc_entries c)"
        using that ok clock by (meson order.trans)
      ultimately show ?thesis by auto
    qed
    then show ?thesis
      using assms(1) ok Some sum [OF Some, of "dc_clock c + 1"]
      by (auto simp: cache_get_def Let_def dictionary_cache_ok_def distinct_update update_conv')
  qed
qed

end
