(* ===== verification/Active_Block.thy ===== *)
theory Active_Block
  imports Locality Dictionary
begin

text \<open>
  Compression blocks on their way through a stripe: the active blocks that collect records
  (\<^verbatim>\<open>ActiveBlock\<close> in \<^verbatim>\<open>src/stripe.rs\<close>), and the catalog of sealed blocks with
  their payloads staged until they are offloaded (\<^verbatim>\<open>src/block.rs\<close>).
\<close>

section \<open>Sealed blocks\<close>

datatype compression_codec = Zstd

record block_descriptor =
  bd_block_id :: u64
  bd_stream_shard_id :: shard_id
  bd_topic_partition :: topic_partition
  bd_source_compression_cohort :: compression_cohort_id
  bd_placement_id :: compression_placement_id
  bd_dictionary_id :: "dictionary_id option"
  bd_compression_codec :: compression_codec
  bd_compression_level :: int
  bd_first_offset :: logical_offset
  bd_last_offset :: logical_offset
  bd_record_count :: u32
  bd_source_bytes :: u64
  bd_structural_bytes :: u64
  bd_stored_bytes :: u64
  bd_min_timestamp :: u64
  bd_max_timestamp :: u64
  bd_compression_temperature :: u16
  bd_compression_shape_hash :: u64
  bd_temperature_variance_q8 :: u16
  bd_max_temperature_deviation :: u8
  bd_object_key :: "rstr option"
  bd_object_offset :: "u64 option"

record block_catalog =
  bc_next_block_id :: u64
  bc_blocks :: "u64 \<rightharpoonup> block_descriptor"
  bc_staged_payloads :: "u64 \<rightharpoonup> bytes"

definition catalog_default :: block_catalog where
  "catalog_default = \<lparr>bc_next_block_id = 0, bc_blocks = Map.empty, bc_staged_payloads = Map.empty\<rparr>"

definition catalog_seal :: "block_descriptor \<Rightarrow> bytes \<Rightarrow> block_catalog \<Rightarrow> block_catalog \<times> block_descriptor" where
  "catalog_seal d payload c =
     (let i = bc_next_block_id c; d = d\<lparr>bd_block_id := i\<rparr>
      in (c\<lparr>bc_next_block_id := i + 1, bc_blocks := (bc_blocks c)(i \<mapsto> d),
            bc_staged_payloads := (bc_staged_payloads c)(i \<mapsto> payload)\<rparr>, d))"

definition mark_offloaded_range :: "u64 \<Rightarrow> rstr \<Rightarrow> u64 \<Rightarrow> block_catalog \<Rightarrow> block_catalog log_db_result" where
  "mark_offloaded_range i key off c =
     and_then (ok_or (bc_blocks c i) (UnknownBlock i)) (\<lambda>d.
       Inr (c\<lparr>bc_blocks := (bc_blocks c)(i \<mapsto> d\<lparr>bd_object_key := Some key, bd_object_offset := Some off\<rparr>),
              bc_staged_payloads := (bc_staged_payloads c)(i := None)\<rparr>))"

definition mark_offloaded :: "u64 \<Rightarrow> rstr \<Rightarrow> block_catalog \<Rightarrow> block_catalog log_db_result" where
  "mark_offloaded i key c = mark_offloaded_range i key 0 c"

text \<open>One change of the catalog, while identifiers of 64 bits last.\<close>

inductive catalog_step :: "block_catalog \<Rightarrow> block_catalog \<Rightarrow> bool" where
  step_seal: "bd_object_key d = None \<Longrightarrow> bc_next_block_id c < - 1 \<Longrightarrow> catalog_seal d payload c = (c', d') \<Longrightarrow> catalog_step c c'"
| step_offload: "mark_offloaded_range i key off c = Inr c' \<Longrightarrow> catalog_step c c'"

inductive_cases catalog_stepE: "catalog_step c c'"

definition catalog_ok :: "block_catalog \<Rightarrow> bool" where
  "catalog_ok c \<longleftrightarrow>
     (\<forall>i. bc_blocks c i \<noteq> None \<longleftrightarrow> i < bc_next_block_id c) \<and>
     (\<forall>i d. bc_blocks c i = Some d \<longrightarrow>
        bd_block_id d = i \<and> (bc_staged_payloads c i = None \<longleftrightarrow> bd_object_key d \<noteq> None)) \<and>
     (\<forall>i. bc_blocks c i = None \<longrightarrow> bc_staged_payloads c i = None)"

lemma catalog_default_ok: "catalog_ok catalog_default"
  by (simp add: catalog_ok_def catalog_default_def)

lemma catalog_seal_ok:
  assumes "catalog_ok c" "catalog_seal d payload c = (c', d')" "bd_object_key d = None"
    and "bc_next_block_id c < - 1"
  shows "catalog_ok c' \<and> bc_next_block_id c' = bc_next_block_id c + 1 \<and> bc_blocks c (bc_next_block_id c) = None \<and>
    d' = d\<lparr>bd_block_id := bc_next_block_id c\<rparr> \<and>
    bc_blocks c' = (bc_blocks c)(bc_next_block_id c \<mapsto> d') \<and>
    bc_staged_payloads c' = (bc_staged_payloads c)(bc_next_block_id c \<mapsto> payload)"
proof -
  let ?n = "bc_next_block_id c"
  have c': "c' = c\<lparr>bc_next_block_id := ?n + 1, bc_blocks := (bc_blocks c)(?n \<mapsto> d'),
      bc_staged_payloads := (bc_staged_payloads c)(?n \<mapsto> payload)\<rparr>" "d' = d\<lparr>bd_block_id := ?n\<rparr>"
    using assms(2) by (auto simp: catalog_seal_def Let_def)
  have less: "i < ?n + 1 \<longleftrightarrow> i < ?n \<or> i = ?n" for i
    using assms(4) by (auto simp: word_less_nat_alt unat_word_ariths u64_max word_unat_eq_iff)
  have ok: "bc_blocks c i \<noteq> None \<longleftrightarrow> i < ?n" for i using assms(1) by (simp add: catalog_ok_def)
  have "catalog_ok c'"
    using assms(1,3) unfolding c' catalog_ok_def by (auto simp: less split: if_splits)
  then show ?thesis using c' ok [of ?n] by simp
qed

lemma catalog_offload_ok:
  assumes "catalog_ok c" "mark_offloaded_range i key off c = Inr c'"
  shows "catalog_ok c' \<and> (\<exists>d. bc_blocks c i = Some d \<and>
    bc_blocks c' = (bc_blocks c)(i \<mapsto> d\<lparr>bd_object_key := Some key, bd_object_offset := Some off\<rparr>) \<and>
    bc_staged_payloads c' = (bc_staged_payloads c)(i := None))"
  using assms by (auto simp: mark_offloaded_range_def and_then_eq_Inr catalog_ok_def split: if_splits)

lemma catalog_step_ok: "catalog_step c c' \<Longrightarrow> catalog_ok c \<Longrightarrow> catalog_ok c'"
  by (erule catalog_stepE) (auto dest: catalog_seal_ok catalog_offload_ok)

text \<open>C25: A sealed block never changes and its payload stays staged until it is offloaded: after any
  changes of the catalog the block is still there under its identifier, either untouched with the
  same payload, or differing only in the object key and offset, and then the payload is gone.
  Offloading is the only way to lose a payload.\<close>

theorem staged_until_offloaded:
  assumes "catalog_step\<^sup>*\<^sup>* c c'" "catalog_ok c" "bc_blocks c i = Some d" "bc_staged_payloads c i = Some payload"
  shows "catalog_ok c' \<and>
    (bc_blocks c' i = Some d \<and> bc_staged_payloads c' i = Some payload \<or>
     (\<exists>key off. bc_blocks c' i = Some (d\<lparr>bd_object_key := Some key, bd_object_offset := Some off\<rparr>) \<and>
        bc_staged_payloads c' i = None))"
  using assms(1)
proof (induction rule: rtranclp_induct)
  case base
  then show ?case using assms(2-4) by simp
next
  case (step b e)
  from step.hyps(2) show ?case
  proof cases
    case (step_seal x p x')
    have "bc_blocks b i \<noteq> None" using step.IH by auto
    then show ?thesis using catalog_seal_ok [OF _ step_seal(3,1,2)] step.IH by auto
  next
    case (step_offload j key off)
    obtain x where x: "catalog_ok e" "bc_blocks b j = Some x"
      "bc_blocks e = (bc_blocks b)(j \<mapsto> x\<lparr>bd_object_key := Some key, bd_object_offset := Some off\<rparr>)"
      "bc_staged_payloads e = (bc_staged_payloads b)(j := None)"
      using catalog_offload_ok [OF _ step_offload] step.IH by blast
    show ?thesis
    proof (cases "i = j")
      case True
      then have "x\<lparr>bd_object_key := Some key, bd_object_offset := Some off\<rparr> =
          d\<lparr>bd_object_key := Some key, bd_object_offset := Some off\<rparr>"
        using step.IH x(2) by auto
      then show ?thesis using True x by auto
    next
      case False
      then show ?thesis using step.IH x by simp
    qed
  qed
qed

definition sample_descriptor :: block_descriptor where
  "sample_descriptor =
     \<lparr>bd_block_id = 0, bd_stream_shard_id = 0, bd_topic_partition = (0, 0), bd_source_compression_cohort = 0,
      bd_placement_id = 0, bd_dictionary_id = None, bd_compression_codec = Zstd, bd_compression_level = 1,
      bd_first_offset = 3, bd_last_offset = 5, bd_record_count = 2, bd_source_bytes = 60,
      bd_structural_bytes = 40, bd_stored_bytes = 2, bd_min_timestamp = 7, bd_max_timestamp = 9,
      bd_compression_temperature = 0, bd_compression_shape_hash = 0, bd_temperature_variance_q8 = 0,
      bd_max_temperature_deviation = 0, bd_object_key = None, bd_object_offset = None\<rparr>"

theorem staged_until_offloaded_witness:
  "\<exists>c c'. catalog_seal sample_descriptor [1, 2] catalog_default = (c, sample_descriptor) \<and>
     mark_offloaded_range 0 [107] 4 c = Inr c' \<and> catalog_ok c' \<and>
     bc_blocks c' 0 = Some (sample_descriptor\<lparr>bd_object_key := Some [107], bd_object_offset := Some 4\<rparr>) \<and>
     bc_staged_payloads c' 0 = None"
proof -
  define c where "c = \<lparr>bc_next_block_id = 1, bc_blocks = [0 \<mapsto> sample_descriptor],
      bc_staged_payloads = [0 \<mapsto> [1, 2]]\<rparr>"
  have c: "catalog_seal sample_descriptor [1, 2] catalog_default = (c, sample_descriptor)"
    "bc_blocks c 0 = Some sample_descriptor" "bc_staged_payloads c 0 = Some [1, 2]"
    by (simp_all add: c_def catalog_seal_def catalog_default_def sample_descriptor_def Let_def)
  have ok: "catalog_ok c"
    using catalog_seal_ok [OF catalog_default_ok c(1)] by (simp add: sample_descriptor_def catalog_default_def word_less_nat_alt u64_max)
  define c' where "c' = c\<lparr>bc_blocks := [0 \<mapsto>
      sample_descriptor\<lparr>bd_object_key := Some [107], bd_object_offset := Some 4\<rparr>], bc_staged_payloads := Map.empty\<rparr>"
  have c': "mark_offloaded_range 0 [107] 4 c = Inr c'" "bc_staged_payloads c' 0 = None"
    "bc_blocks c' 0 = Some (sample_descriptor\<lparr>bd_object_key := Some [107], bd_object_offset := Some 4\<rparr>)"
    by (simp_all add: c'_def c_def mark_offloaded_range_def fun_upd_idem_iff)
  have "catalog_step\<^sup>*\<^sup>* c c'" using step_offload [OF c'(1)] by blast
  then have "catalog_ok c'" using staged_until_offloaded [OF _ ok c(2,3), of c'] by blast
  then show ?thesis using c(1) c' by blast
qed

section \<open>Active blocks\<close>

record pending_record =
  pr_record :: durable_log_record
  pr_source_bytes :: u64
  pr_fingerprint :: message_fingerprint

definition pending_locality :: "pending_record \<Rightarrow> locality_record" where
  "pending_locality p = \<lparr>lr_fingerprint = pr_fingerprint p, lr_source_bytes = pr_source_bytes p\<rparr>"

record active_block =
  ab_first_offset :: logical_offset
  ab_last_offset :: logical_offset
  ab_record_count :: u32
  ab_source_bytes :: u64
  ab_min_timestamp :: u64
  ab_max_timestamp :: u64
  ab_dictionary_payload :: "bytes option"
  ab_rebalance_passes :: u8
  ab_records :: "pending_record list"

abbreviation pr_offset :: "pending_record \<Rightarrow> logical_offset" where
  "pr_offset p \<equiv> record_offset (pr_record p)"

abbreviation pr_timestamp :: "pending_record \<Rightarrow> u64" where
  "pr_timestamp p \<equiv> timestamp_unix_nanos (pr_record p)"

definition active_new :: "pending_record \<Rightarrow> bytes option \<Rightarrow> active_block" where
  "active_new p dictionary =
     \<lparr>ab_first_offset = pr_offset p, ab_last_offset = pr_offset p, ab_record_count = 1,
      ab_source_bytes = pr_source_bytes p, ab_min_timestamp = pr_timestamp p,
      ab_max_timestamp = pr_timestamp p, ab_dictionary_payload = dictionary,
      ab_rebalance_passes = 0, ab_records = [p]\<rparr>"

text \<open>
  The record count is kept with a checked addition. It counts the records (\<open>active_ok\<close>), so that
  the addition is exact while a block has fewer than \<open>2\<^sup>3\<^sup>2\<close> records.
\<close>

definition active_append :: "pending_record \<Rightarrow> active_block \<Rightarrow> active_block" where
  "active_append p b =
     b\<lparr>ab_first_offset := min (ab_first_offset b) (pr_offset p),
       ab_last_offset := max (ab_last_offset b) (pr_offset p),
       ab_record_count := ab_record_count b + 1,
       ab_source_bytes := saturating_add (ab_source_bytes b) (pr_source_bytes p),
       ab_min_timestamp := min (ab_min_timestamp b) (pr_timestamp p),
       ab_max_timestamp := max (ab_max_timestamp b) (pr_timestamp p),
       ab_records := ab_records b @ [p]\<rparr>"

definition active_from_records :: "pending_record list \<Rightarrow> bytes option \<Rightarrow> u8 \<Rightarrow> active_block" where
  "active_from_records ps dictionary passes =
     (let ps = (if list_ex (\<lambda>w. pr_offset (w ! 0) > pr_offset (w ! 1)) (windows 2 ps)
                then sort_by (\<lambda>a b. cmp (pr_offset a) (pr_offset b)) ps else ps);
          b = (active_new (hd ps) dictionary)\<lparr>ab_rebalance_passes := passes\<rparr>
      in foldl (\<lambda>b p. active_append p b) b (tl ps))"

fun merge_pending :: "pending_record list \<Rightarrow> pending_record list \<Rightarrow> pending_record list" where
  "merge_pending (l # ls) (r # rs) =
     (if pr_offset l \<le> pr_offset r then l # merge_pending ls (r # rs) else r # merge_pending (l # ls) rs)"
| "merge_pending [] rs = rs"
| "merge_pending ls [] = ls"

definition active_append_block :: "active_block \<Rightarrow> active_block \<Rightarrow> active_block" where
  "active_append_block b other =
     b\<lparr>ab_first_offset := min (ab_first_offset b) (ab_first_offset other),
       ab_last_offset := max (ab_last_offset b) (ab_last_offset other),
       ab_record_count := ab_record_count b + ab_record_count other,
       ab_source_bytes := saturating_add (ab_source_bytes b) (ab_source_bytes other),
       ab_min_timestamp := min (ab_min_timestamp b) (ab_min_timestamp other),
       ab_max_timestamp := max (ab_max_timestamp b) (ab_max_timestamp other),
       ab_rebalance_passes := max (ab_rebalance_passes b) (ab_rebalance_passes other),
       ab_records := merge_pending (ab_records b) (ab_records other)\<rparr>"

text \<open>
  What a block's summary says: offsets ascend, and every number summarizes exactly the records.
\<close>

abbreviation sat_sum :: "u64 list \<Rightarrow> nat" where
  "sat_sum xs \<equiv> min (sum_list (map unat xs)) (2 ^ 64 - 1)"

definition active_ok :: "active_block \<Rightarrow> bool" where
  "active_ok b \<longleftrightarrow>
     ab_records b \<noteq> [] \<and> sorted (map pr_offset (ab_records b)) \<and>
     ab_first_offset b = Min (pr_offset ` set (ab_records b)) \<and>
     ab_last_offset b = Max (pr_offset ` set (ab_records b)) \<and>
     ab_record_count b = of_nat (length (ab_records b)) \<and>
     unat (ab_source_bytes b) = sat_sum (map pr_source_bytes (ab_records b)) \<and>
     ab_min_timestamp b = Min (pr_timestamp ` set (ab_records b)) \<and>
     ab_max_timestamp b = Max (pr_timestamp ` set (ab_records b))"

lemma sat_sum_add:
  "unat (a :: u64) = sat_sum xs \<Longrightarrow> unat b = sat_sum ys \<Longrightarrow> unat (saturating_add a b) = sat_sum (xs @ ys)"
  by (simp add: unat_saturating_add)

lemma active_new_ok: "active_ok (active_new p dictionary)"
  using unat_bound [of "pr_source_bytes p"] by (simp add: active_ok_def active_new_def)

lemma active_append_ok:
  assumes "active_ok b" "\<forall>r\<in>set (ab_records b). pr_offset r \<le> pr_offset p"
  shows "active_ok (active_append p b)"
proof -
  note ok = assms(1) [unfolded active_ok_def]
  have "unat (saturating_add (ab_source_bytes b) (pr_source_bytes p)) =
      sat_sum (map pr_source_bytes (ab_records b) @ [pr_source_bytes p])"
    by (rule sat_sum_add) (use ok unat_bound [of "pr_source_bytes p"] in simp_all)
  then show ?thesis
    using ok assms(2) by (simp add: active_ok_def active_append_def sorted_append Min_insert Max_insert min.commute max.commute)
qed

lemma mset_merge_pending: "mset (merge_pending ls rs) = mset ls + mset rs"
  by (induction ls rs rule: merge_pending.induct) simp_all

lemma set_merge_pending [simp]: "set (merge_pending ls rs) = set ls \<union> set rs"
  using mset_merge_pending [of ls rs] by (metis set_mset_mset set_mset_union)

lemma sorted_merge_pending:
  "sorted (map pr_offset ls) \<Longrightarrow> sorted (map pr_offset rs) \<Longrightarrow> sorted (map pr_offset (merge_pending ls rs))"
  by (induction ls rs rule: merge_pending.induct) auto

lemma sat_sum_mset: "mset xs = mset ys \<Longrightarrow> sat_sum xs = sat_sum ys"
  by (metis mset_map sum_mset_sum_list)

lemma active_append_block_ok:
  assumes "active_ok b" "active_ok other"
  shows "active_ok (active_append_block b other)"
    "mset (ab_records (active_append_block b other)) = mset (ab_records b) + mset (ab_records other)"
proof -
  note ok = assms(1) [unfolded active_ok_def] and ok' = assms(2) [unfolded active_ok_def]
  let ?m = "merge_pending (ab_records b) (ab_records other)"
  have mset: "mset ?m = mset (ab_records b) + mset (ab_records other)" by (rule mset_merge_pending)
  then show "mset (ab_records (active_append_block b other)) = mset (ab_records b) + mset (ab_records other)"
    by (simp add: active_append_block_def)
  have "unat (saturating_add (ab_source_bytes b) (ab_source_bytes other)) =
      sat_sum (map pr_source_bytes (ab_records b) @ map pr_source_bytes (ab_records other))"
    by (rule sat_sum_add) (use ok ok' in simp_all)
  also have "\<dots> = sat_sum (map pr_source_bytes ?m)" by (rule sat_sum_mset) (simp add: mset)
  finally have "unat (saturating_add (ab_source_bytes b) (ab_source_bytes other)) = sat_sum (map pr_source_bytes ?m)" .
  moreover have "length ?m = length (ab_records b) + length (ab_records other)"
    using mset by (metis size_mset size_union)
  moreover have "?m \<noteq> []" using ok mset by auto
  ultimately show "active_ok (active_append_block b other)"
    using ok ok' sorted_merge_pending [of "ab_records b" "ab_records other"]
    by (simp add: active_ok_def active_append_block_def image_Un Min_Un Max_Un)
qed

lemma active_appends_ok:
  assumes "active_ok b" "sorted (map pr_offset ps)" "\<forall>r\<in>set (ab_records b). \<forall>p\<in>set ps. pr_offset r \<le> pr_offset p"
  shows "active_ok (foldl (\<lambda>b p. active_append p b) b ps) \<and>
    ab_records (foldl (\<lambda>b p. active_append p b) b ps) = ab_records b @ ps \<and>
    ab_rebalance_passes (foldl (\<lambda>b p. active_append p b) b ps) = ab_rebalance_passes b \<and>
    ab_dictionary_payload (foldl (\<lambda>b p. active_append p b) b ps) = ab_dictionary_payload b"
  using assms
proof (induction ps arbitrary: b)
  case (Cons p ps)
  have "active_ok (active_append p b)" using Cons.prems by (intro active_append_ok) auto
  then show ?case using Cons.IH [of "active_append p b"] Cons.prems by (simp add: active_append_def)
qed simp

text \<open>Records handed over in any order form a block of exactly these records.\<close>

lemma active_from_records_ok:
  assumes "ps \<noteq> []"
  shows "active_ok (active_from_records ps dictionary passes)"
    "mset (ab_records (active_from_records ps dictionary passes)) = mset ps"
    "ab_rebalance_passes (active_from_records ps dictionary passes) = passes"
    "ab_dictionary_payload (active_from_records ps dictionary passes) = dictionary"
proof -
  define qs where "qs = (if list_ex (\<lambda>w. pr_offset (w ! 0) > pr_offset (w ! 1)) (windows 2 ps)
      then sort_by (\<lambda>a b. cmp (pr_offset a) (pr_offset b)) ps else ps)"
  have sorted: "sorted (map pr_offset qs)"
  proof (cases "list_ex (\<lambda>w. pr_offset (w ! 0) > pr_offset (w ! 1)) (windows 2 ps)")
    case True
    then show ?thesis using sorted_by_key [of pr_offset ps] by (simp add: qs_def sorted_map)
  next
    case False
    then have "qs = ps" by (simp add: qs_def)
    moreover have "pr_offset (ps ! i) \<le> pr_offset (ps ! Suc i)" if "Suc i < length ps" for i
      using False that unfolding windows_adjacent by (force simp: not_less)
    ultimately show ?thesis by (simp add: sorted_iff_nth_Suc)
  qed
  have qs: "mset qs = mset ps" by (simp add: qs_def)
  then have "qs \<noteq> []" using assms by auto
  then obtain q qs' where q: "qs = q # qs'" by (cases qs) auto
  let ?b = "(active_new q dictionary)\<lparr>ab_rebalance_passes := passes\<rparr>"
  have eq: "active_from_records ps dictionary passes = foldl (\<lambda>b p. active_append p b) ?b qs'"
    unfolding active_from_records_def Let_def qs_def [symmetric] q by simp
  have "active_ok ?b" using active_new_ok [of q dictionary] by (simp add: active_ok_def)
  moreover have "ab_records ?b = [q]" by (simp add: active_new_def)
  ultimately have "active_ok (active_from_records ps dictionary passes) \<and>
      ab_records (active_from_records ps dictionary passes) = qs \<and>
      ab_rebalance_passes (active_from_records ps dictionary passes) = passes \<and>
      ab_dictionary_payload (active_from_records ps dictionary passes) = dictionary"
    using active_appends_ok [of ?b qs'] sorted unfolding eq q by (simp add: active_new_def)
  then show "active_ok (active_from_records ps dictionary passes)"
    "mset (ab_records (active_from_records ps dictionary passes)) = mset ps"
    "ab_rebalance_passes (active_from_records ps dictionary passes) = passes"
    "ab_dictionary_payload (active_from_records ps dictionary passes) = dictionary"
    using qs by simp_all
qed

end
