(* ===== verification/Hot_Postings.thy ===== *)
theory Hot_Postings
  imports Query Postings
begin

text \<open>
  Posting lists of the hot index of a stripe (\<^verbatim>\<open>HotPostingList\<close> and the range helpers of
  \<^verbatim>\<open>src/stripe.rs\<close>): runs of record ordinals appended in order, read through a half-open
  window of ordinals.
\<close>

section \<open>Posting lists\<close>

record hot_run =
  hr_first :: u32
  hr_last :: u32

record hot_posting =
  hp_runs :: "hot_run list"
  hp_cardinality :: nat

definition hot_posting_default :: hot_posting where
  "hot_posting_default = \<lparr>hp_runs = [], hp_cardinality = 0\<rparr>"

definition push_range :: "u32 \<Rightarrow> u32 \<Rightarrow> hot_posting \<Rightarrow> hot_posting" where
  "push_range first final_ordinal h =
     (let added = unat (final_ordinal - first) + 1; runs = hp_runs h in
      if runs \<noteq> [] \<and> checked_add (hr_last (last runs)) 1 = Some first
      then \<lparr>hp_runs = butlast runs @ [(last runs)\<lparr>hr_last := final_ordinal\<rparr>],
            hp_cardinality = hp_cardinality h + added\<rparr>
      else \<lparr>hp_runs = runs @ [\<lparr>hr_first = first, hr_last = final_ordinal\<rparr>],
            hp_cardinality = hp_cardinality h + added\<rparr>)"

definition hot_push :: "u32 \<Rightarrow> hot_posting \<Rightarrow> hot_posting" where
  "hot_push x = push_range x x"

definition is_empty_in :: "hot_posting \<Rightarrow> u32 \<Rightarrow> u32 \<Rightarrow> bool" where
  "is_empty_in h start_ordinal end_ordinal =
     (case binary_search_by (\<lambda>r. if hr_last r < start_ordinal then Less
        else if hr_first r \<ge> end_ordinal then Greater else Equal) (hp_runs h) of
        Inl _ \<Rightarrow> True | Inr _ \<Rightarrow> False)"

text \<open>The inclusive range \<^verbatim>\<open>first..=last\<close>.\<close>

definition inclusive_range :: "u32 \<Rightarrow> u32 \<Rightarrow> u32 list" where
  "inclusive_range a b = map of_nat [unat a ..< Suc (unat b)]"

fun collect_oldest :: "u32 \<Rightarrow> u32 \<Rightarrow> nat \<Rightarrow> u32 list \<Rightarrow> hot_run list \<Rightarrow> u32 list" where
  "collect_oldest s e n acc [] = acc"
| "collect_oldest s e n acc (r # rs) =
     (if hr_last r < s then collect_oldest s e n acc rs
      else if hr_first r \<ge> e \<or> length acc = n then acc
      else collect_oldest s e n
        (acc @ take (n - length acc) (inclusive_range (max (hr_first r) s) (min (hr_last r) (saturating_sub e 1)))) rs)"

fun collect_newest :: "u32 \<Rightarrow> u32 \<Rightarrow> nat \<Rightarrow> u32 list \<Rightarrow> hot_run list \<Rightarrow> u32 list" where
  "collect_newest s e n acc [] = acc"
| "collect_newest s e n acc (r # rs) =
     (if hr_first r \<ge> e then collect_newest s e n acc rs
      else if hr_last r < s \<or> length acc = n then acc
      else collect_newest s e n
        (acc @ take (n - length acc)
          (rev (inclusive_range (max (hr_first r) s) (min (hr_last r) (saturating_sub e 1))))) rs)"

definition collect_in :: "hot_posting \<Rightarrow> u32 \<Rightarrow> u32 \<Rightarrow> query_order \<Rightarrow> nat option \<Rightarrow> u32 list" where
  "collect_in h s e order limit =
     (let n = (case limit of None \<Rightarrow> usize_max | Some l \<Rightarrow> l) in
      case order of
        OldestFirst \<Rightarrow> collect_oldest s e n [] (hp_runs h)
      | NewestFirst \<Rightarrow> collect_newest s e n [] (rev (hp_runs h)))"

function intersect_ordinal_loop ::
  "u32 list \<Rightarrow> hot_run list \<Rightarrow> u32 \<Rightarrow> nat \<Rightarrow> nat \<Rightarrow> nat \<Rightarrow> u32 list" where
  "intersect_ordinal_loop cs rs e ci ri wi =
     (if ci < length cs \<and> ri < length rs
      then let c = cs ! ci; r = rs ! ri in
           if c \<ge> e \<or> hr_first r \<ge> e then take wi cs
           else if c < hr_first r then intersect_ordinal_loop cs rs e (ci + 1) ri wi
           else if c > hr_last r then intersect_ordinal_loop cs rs e ci (ri + 1) wi
           else intersect_ordinal_loop (cs[wi := c]) rs e (ci + 1) ri (wi + 1)
      else take wi cs)"
  by pat_completeness auto
termination
  by (relation "measure (\<lambda>(cs, rs, _, ci, ri, _). (length cs - ci) + (length rs - ri))")
     (auto simp: Let_def)

declare intersect_ordinal_loop.simps [simp del]

definition intersect_ordinal_runs :: "u32 \<Rightarrow> u32 \<Rightarrow> u32 list \<Rightarrow> hot_posting \<Rightarrow> u32 list" where
  "intersect_ordinal_runs s e cs h =
     intersect_ordinal_loop cs (hp_runs h) e 0 (partition_point (\<lambda>r. hr_last r < s) (hp_runs h)) 0"

section \<open>The ordinals of a posting\<close>

definition hot_run_ordinals :: "hot_run \<Rightarrow> u32 list" where
  "hot_run_ordinals r = inclusive_range (hr_first r) (hr_last r)"

abbreviation hot_vec :: "hot_posting \<Rightarrow> u32 list" where
  "hot_vec h \<equiv> concat (map hot_run_ordinals (hp_runs h))"

definition hot_runs_ok :: "hot_run list \<Rightarrow> bool" where
  "hot_runs_ok rs \<longleftrightarrow> (\<forall>r\<in>set rs. hr_first r \<le> hr_last r) \<and> sorted_wrt (\<lambda>r s. hr_last r < hr_first s) rs"

definition hot_ok :: "hot_posting \<Rightarrow> bool" where
  "hot_ok h \<longleftrightarrow> hot_runs_ok (hp_runs h) \<and> hp_cardinality h = length (hot_vec h)"

lemma set_inclusive_range [simp]: "set (inclusive_range a b) = {a .. b}"
proof -
  have "x \<in> of_nat ` {unat a ..< Suc (unat b)} \<longleftrightarrow> a \<le> x \<and> x \<le> b" for x :: u32
  proof
    assume "x \<in> of_nat ` {unat a ..< Suc (unat b)}"
    then obtain n where n: "x = of_nat n" "unat a \<le> n" "n \<le> unat b" by auto
    have "n < 2 ^ 32" using n(3) unat_bound [of b] by simp
    then have "unat x = n" using n(1) by (simp add: unat_of_nat)
    with n show "a \<le> x \<and> x \<le> b" by (simp add: word_le_nat_alt)
  next
    assume "a \<le> x \<and> x \<le> b"
    then show "x \<in> of_nat ` {unat a ..< Suc (unat b)}"
      by (intro image_eqI [of _ _ "unat x"]) (auto simp: word_le_nat_alt)
  qed
  then show ?thesis by (auto simp only: inclusive_range_def set_map set_upt set_eq_iff atLeastAtMost_iff)
qed

lemma length_inclusive_range: "a \<le> b \<Longrightarrow> length (inclusive_range a b) = unat (b - a) + 1"
  by (simp add: inclusive_range_def unat_sub word_le_nat_alt)

lemma ascending_inclusive_range [simp]: "ascending (inclusive_range a b)"
proof -
  have "\<forall>n\<in>set [unat a ..< Suc (unat b)]. n < 2 ^ 32" using unat_bound [of b] by auto
  then have "sorted_wrt (\<lambda>m n. (of_nat m :: u32) < of_nat n) [unat a ..< Suc (unat b)]"
    by (intro sorted_wrt_mono_rel [OF _ sorted_wrt_upt]) (auto simp: word_less_nat_alt unat_of_nat)
  then show ?thesis by (simp add: inclusive_range_def sorted_wrt_map)
qed

lemma filter_inclusive_range:
  assumes "a < e"
  shows "filter (\<lambda>x. s \<le> x \<and> x < e) (inclusive_range a b) = inclusive_range (max a s) (min b (saturating_sub e 1))"
proof (rule ascending_unique)
  have "unat (saturating_sub e 1) = unat e - 1" by (simp add: unat_saturating_sub)
  then have le: "x < e \<longleftrightarrow> x \<le> saturating_sub e 1" for x
    using assms by (auto simp: word_less_nat_alt word_le_nat_alt)
  show "set (filter (\<lambda>x. s \<le> x \<and> x < e) (inclusive_range a b)) =
      set (inclusive_range (max a s) (min b (saturating_sub e 1)))"
    unfolding set_filter set_inclusive_range le by auto
qed (simp_all add: sorted_wrt_filter)

lemma hot_runs_ok_Cons:
  "hot_runs_ok (r # rs) \<longleftrightarrow> hr_first r \<le> hr_last r \<and> (\<forall>s\<in>set rs. hr_last r < hr_first s) \<and> hot_runs_ok rs"
  by (auto simp: hot_runs_ok_def)

lemma hot_runs_ok_snoc:
  "hot_runs_ok (rs @ [r]) \<longleftrightarrow> hot_runs_ok rs \<and> hr_first r \<le> hr_last r \<and> (\<forall>s\<in>set rs. hr_last s < hr_first r)"
  by (auto simp: hot_runs_ok_def sorted_wrt_append)

lemma set_hot_run_ordinals [simp]: "set (hot_run_ordinals r) = {hr_first r .. hr_last r}"
  by (simp add: hot_run_ordinals_def)

lemma ascending_hot_vec: "hot_runs_ok rs \<Longrightarrow> ascending (concat (map hot_run_ordinals rs))"
proof (induction rs)
  case (Cons r rs)
  then have "x < y" if "x \<in> set (hot_run_ordinals r)" "s \<in> set rs" "y \<in> set (hot_run_ordinals s)" for x y s
    using that by (auto simp: hot_runs_ok_Cons intro: le_less_trans less_le_trans)
  moreover have "ascending (hot_run_ordinals r)" by (simp add: hot_run_ordinals_def)
  ultimately show ?case using Cons by (auto simp: sorted_wrt_append hot_runs_ok_Cons)
qed simp

section \<open>Appending\<close>

lemma inclusive_range_append:
  assumes "a \<le> b" "checked_add b 1 = Some c" "c \<le> d"
  shows "inclusive_range a b @ inclusive_range c d = inclusive_range a d"
proof -
  have c: "unat c = Suc (unat b)" using assms(2) by (simp add: checked_add_Some)
  have "[unat a ..< Suc (unat b)] @ [Suc (unat b) ..< Suc (unat d)] = [unat a ..< Suc (unat d)]"
    using assms c upt_add_eq_append [of "unat a" "Suc (unat b)" "unat d - unat b"] by (simp add: word_le_nat_alt)
  then show ?thesis unfolding inclusive_range_def c by (metis map_append)
qed

lemma push_range_ok:
  assumes "hot_ok h" "first \<le> final_ordinal" "\<forall>x\<in>set (hot_vec h). x < first"
  shows "hot_ok (push_range first final_ordinal h)"
    "hot_vec (push_range first final_ordinal h) = hot_vec h @ inclusive_range first final_ordinal"
proof -
  note ok = assms(1) [unfolded hot_ok_def]
  have below: "hr_last r < first" if "r \<in> set (hp_runs h)" for r
    using that ok assms(3) by (auto simp: hot_runs_ok_def)
  have "hot_ok (push_range first final_ordinal h) \<and>
    hot_vec (push_range first final_ordinal h) = hot_vec h @ inclusive_range first final_ordinal"
  proof (cases "hp_runs h \<noteq> [] \<and> checked_add (hr_last (last (hp_runs h))) 1 = Some first")
    case False
    then have "push_range first final_ordinal h = \<lparr>hp_runs = hp_runs h @ [\<lparr>hr_first = first, hr_last = final_ordinal\<rparr>],
        hp_cardinality = hp_cardinality h + (unat (final_ordinal - first) + 1)\<rparr>"
      unfolding push_range_def Let_def by (simp only: if_False)
    then show ?thesis using ok assms(2) below
      by (simp add: hot_ok_def hot_runs_ok_snoc hot_run_ordinals_def length_inclusive_range)
  next
    case True
    define r where "r = last (hp_runs h)"
    have runs: "hp_runs h = butlast (hp_runs h) @ [r]" using True by (simp add: r_def)
    then have rs: "hot_runs_ok (butlast (hp_runs h) @ [r])" using ok by simp
    have r: "hr_first r \<le> hr_last r" "checked_add (hr_last r) 1 = Some first"
      using rs True by (simp only: hot_runs_ok_snoc, simp add: r_def)
    have push: "push_range first final_ordinal h = \<lparr>hp_runs = butlast (hp_runs h) @ [r\<lparr>hr_last := final_ordinal\<rparr>],
        hp_cardinality = hp_cardinality h + (unat (final_ordinal - first) + 1)\<rparr>"
      using True by (simp add: push_range_def Let_def r_def)
    have vec: "hot_vec h = concat (map hot_run_ordinals (butlast (hp_runs h))) @ inclusive_range (hr_first r) (hr_last r)"
      by (subst runs) (simp add: hot_run_ordinals_def)
    have app: "hot_vec (push_range first final_ordinal h) = hot_vec h @ inclusive_range first final_ordinal"
      unfolding push vec using inclusive_range_append [OF r assms(2)] by (simp add: hot_run_ordinals_def)
    moreover have "hr_first r \<le> final_ordinal"
      using r(1) below [of r] runs assms(2) by (metis in_set_conv_decomp le_less_trans less_imp_le order.trans)
    then have "hot_runs_ok (hp_runs (push_range first final_ordinal h))"
      using rs by (simp add: push hot_runs_ok_snoc)
    moreover have "hp_cardinality (push_range first final_ordinal h) = length (hot_vec (push_range first final_ordinal h))"
      unfolding app using ok assms(2) by (simp add: push length_inclusive_range)
    ultimately show ?thesis by (simp add: hot_ok_def)
  qed
  then show "hot_ok (push_range first final_ordinal h)"
    "hot_vec (push_range first final_ordinal h) = hot_vec h @ inclusive_range first final_ordinal" by blast+
qed

section \<open>Reading a window\<close>

abbreviation in_window :: "u32 \<Rightarrow> u32 \<Rightarrow> u32 \<Rightarrow> bool" where
  "in_window s e x \<equiv> s \<le> x \<and> x < e"

lemma no_window_before: "hr_last r < s \<Longrightarrow> filter (in_window s e) (hot_run_ordinals r) = []"
  by (auto simp: filter_empty_conv)

lemma no_window_behind: "hr_first r \<ge> e \<Longrightarrow> filter (in_window s e) (hot_run_ordinals r) = []"
  by (auto simp: filter_empty_conv)

lemma window_of_run:
  "hr_first r < e \<Longrightarrow> filter (in_window s e) (hot_run_ordinals r) =
   inclusive_range (max (hr_first r) s) (min (hr_last r) (saturating_sub e 1))"
  by (simp add: hot_run_ordinals_def filter_inclusive_range)

lemma no_window_rest:
  "\<forall>r\<in>set rs. filter P (hot_run_ordinals r) = [] \<Longrightarrow> filter P (concat (map hot_run_ordinals rs)) = []"
  by (induction rs) auto

lemma take_limited:
  assumes "length acc \<le> n"
  shows "take n ((acc @ take (n - length acc) w) @ zs) = take n (acc @ w @ zs)"
  using assms by (cases "length w \<le> n - length acc") simp_all

lemma collect_oldest_take:
  assumes "hot_runs_ok rs" "length acc \<le> n"
  shows "collect_oldest s e n acc rs = take n (acc @ filter (in_window s e) (concat (map hot_run_ordinals rs)))"
  using assms
proof (induction rs arbitrary: acc)
  case (Cons r rs)
  have ok: "hot_runs_ok rs" "hr_first r \<le> hr_last r" using Cons.prems by (simp_all add: hot_runs_ok_Cons)
  consider (before) "hr_last r < s" | (behind) "\<not> hr_last r < s" "hr_first r \<ge> e"
    | (full) "\<not> hr_last r < s" "length acc = n" | (inside) "\<not> hr_last r < s" "\<not> (hr_first r \<ge> e \<or> length acc = n)"
    by blast
  then show ?case
  proof cases
    case before
    then show ?thesis using Cons.IH [OF ok(1) Cons.prems(2)] no_window_before [OF before, of e] by simp
  next
    case behind
    have "filter (in_window s e) (concat (map hot_run_ordinals (r # rs))) = []"
    proof (rule no_window_rest, rule ballI)
      fix t assume "t \<in> set (r # rs)"
      then have "hr_first r \<le> hr_first t" using Cons.prems(1) ok(2) by (auto simp: hot_runs_ok_Cons intro: order.trans less_imp_le)
      then show "filter (in_window s e) (hot_run_ordinals t) = []" using behind(2) by (intro no_window_behind) simp
    qed
    then show ?thesis using behind Cons.prems(2) by simp
  next
    case full
    then show ?thesis by simp
  next
    case inside
    let ?w = "filter (in_window s e) (hot_run_ordinals r)"
    have "length (acc @ take (n - length acc) ?w) \<le> n" using Cons.prems(2) by simp
    note IH = Cons.IH [OF ok(1) this]
    have "collect_oldest s e n acc (r # rs) = collect_oldest s e n (acc @ take (n - length acc) ?w) rs"
      using inside window_of_run [of r e s] by auto
    also note IH
    also note take_limited [OF Cons.prems(2)]
    finally show ?thesis by simp
  qed
qed simp

lemma collect_newest_take:
  assumes "hot_runs_ok (rev rs)" "length acc \<le> n"
  shows "collect_newest s e n acc rs = take n (acc @ rev (filter (in_window s e) (concat (map hot_run_ordinals (rev rs)))))"
  using assms
proof (induction rs arbitrary: acc)
  case (Cons r rs)
  have ok: "hot_runs_ok (rev rs)" "hr_first r \<le> hr_last r" "\<forall>t\<in>set rs. hr_last t < hr_first r"
    using Cons.prems by (simp_all add: hot_runs_ok_snoc)
  consider (behind) "hr_first r \<ge> e" | (before) "\<not> hr_first r \<ge> e" "hr_last r < s"
    | (full) "\<not> hr_first r \<ge> e" "length acc = n" | (inside) "\<not> hr_first r \<ge> e" "\<not> (hr_last r < s \<or> length acc = n)"
    by blast
  then show ?case
  proof cases
    case behind
    then show ?thesis using Cons.IH [OF ok(1) Cons.prems(2)] no_window_behind [OF behind, of s] by simp
  next
    case before
    have "filter (in_window s e) (concat (map hot_run_ordinals (rev (r # rs)))) = []"
    proof (rule no_window_rest, rule ballI)
      fix t assume "t \<in> set (rev (r # rs))"
      then have "hr_last t \<le> hr_last r" using ok by (auto intro: order.trans less_imp_le)
      then show "filter (in_window s e) (hot_run_ordinals t) = []" using before(2) by (intro no_window_before) simp
    qed
    then show ?thesis using before Cons.prems(2) by simp
  next
    case full
    then show ?thesis by simp
  next
    case inside
    let ?w = "rev (filter (in_window s e) (hot_run_ordinals r))"
    have "length (acc @ take (n - length acc) ?w) \<le> n" using Cons.prems(2) by simp
    note IH = Cons.IH [OF ok(1) this]
    have "collect_newest s e n acc (r # rs) = collect_newest s e n (acc @ take (n - length acc) ?w) rs"
      using inside window_of_run [of r e s] by auto
    also note IH
    also note take_limited [OF Cons.prems(2)]
    finally show ?thesis by simp
  qed
qed simp

lemma length_ascending: "ascending (xs :: u32 list) \<Longrightarrow> length xs \<le> 2 ^ 32"
proof -
  assume "ascending xs"
  then have "distinct xs" by (simp add: strict_sorted_iff)
  then have "length xs = card (set xs)" by (simp add: distinct_card)
  also have "\<dots> \<le> card (UNIV :: u32 set)" by (intro card_mono) simp_all
  finally show ?thesis by (simp add: card_word)
qed

lemma collect_in_window:
  assumes "hot_ok h"
  shows "collect_in h s e order limit =
    truncate_opt limit (in_order (order = NewestFirst) (filter (in_window s e) (hot_vec h)))"
proof -
  let ?w = "filter (in_window s e) (hot_vec h)"
  have ok: "hot_runs_ok (hp_runs h)" using assms by (simp add: hot_ok_def)
  have "length ?w \<le> 2 ^ 32" using length_ascending [OF ascending_hot_vec [OF ok]] by (meson le_trans length_filter_le)
  then have "length ?w \<le> usize_max" by simp
  then show ?thesis
    using collect_oldest_take [OF ok, of "[]"] collect_newest_take [of "rev (hp_runs h)" "[]"] ok
    by (cases order; cases limit) (simp_all add: collect_in_def in_order_def truncate_opt_def)
qed

text \<open>The early test is sound; on an empty window inside a run it may miss.\<close>

lemma is_empty_in_sound:
  assumes "hot_ok h" "s \<le> e" "is_empty_in h s e"
  shows "filter (in_window s e) (hot_vec h) = []"
proof -
  let ?f = "\<lambda>r. if hr_last r < s then Less else if hr_first r \<ge> e then Greater else Equal"
  note ok = assms(1) [unfolded hot_ok_def hot_runs_ok_def]
  have "monotone_cmp ?f (hp_runs h)"
    unfolding monotone_cmp_def
  proof (rule sorted_wrt_mono_rel)
    show "sorted_wrt (\<lambda>r t. hr_last r < hr_first t) (hp_runs h)" using ok by blast
    fix r t assume *: "r \<in> set (hp_runs h)" "t \<in> set (hp_runs h)" "hr_last r < hr_first t"
    have le: "hr_first r \<le> hr_last r" "hr_first t \<le> hr_last t" using ok * by auto
    then show "(?f t = Less \<longrightarrow> ?f r = Less) \<and> (?f r = Greater \<longrightarrow> ?f t = Greater)"
      using *(3) assms(2) by (auto split: if_splits)
  qed
  from binary_search_by_cases [OF this] assms(3) obtain i where
    "\<forall>j<length (hp_runs h). ?f (hp_runs h ! j) = (if j < i then Less else Greater)"
    by (auto simp: is_empty_in_def split: sum.splits)
  then have "?f r \<noteq> Equal" if "r \<in> set (hp_runs h)" for r
    using that by (metis (no_types, lifting) in_set_conv_nth ordering.distinct(1,5))
  then have "filter (in_window s e) (hot_run_ordinals r) = []" if "r \<in> set (hp_runs h)" for r
    using that no_window_before [of r s e] no_window_behind [of e r s] by (metis (full_types))
  then show ?thesis by (intro no_window_rest) blast
qed

section \<open>Intersection in a window\<close>

lemma intersect_ordinal_loop_filter:
  assumes "wi \<le> ci" "ascending (drop ci cs)" "hot_runs_ok (drop ri rs)" "\<forall>c\<in>set (drop ci cs). c < e"
  shows "intersect_ordinal_loop cs rs e ci ri wi =
    take wi cs @ filter (\<lambda>c. c \<in> set (concat (map hot_run_ordinals (drop ri rs)))) (drop ci cs)"
  using assms
proof (induction cs rs e ci ri wi rule: intersect_ordinal_loop.induct)
  case (1 cs rs e ci ri wi)
  show ?case
  proof (cases "ci < length cs \<and> ri < length rs")
    case False
    then show ?thesis by (auto simp: intersect_ordinal_loop.simps [of cs])
  next
    case True
    note cs = ascending_drop_nth [OF "1.prems"(2) conjunct1 [OF True]]
    let ?c = "cs ! ci" and ?r = "rs ! ri"
    let ?in = "\<lambda>n c. c \<in> set (concat (map hot_run_ordinals (drop n rs)))"
    have rs: "drop ri rs = ?r # drop (Suc ri) rs" using True by (simp add: Cons_nth_drop_Suc)
    have ok: "hr_first ?r \<le> hr_last ?r" "hot_runs_ok (drop (Suc ri) rs)"
      "\<forall>t\<in>set (drop (Suc ri) rs). hr_last ?r < hr_first t"
      using "1.prems"(3) unfolding rs hot_runs_ok_Cons by auto
    have split: "?in ri c \<longleftrightarrow> (hr_first ?r \<le> c \<and> c \<le> hr_last ?r) \<or> ?in (Suc ri) c" for c
      unfolding rs by simp
    have later: "hr_last ?r < c" if "?in (Suc ri) c" for c
      using that ok(3) by (auto intro: less_le_trans)
    have ge: "hr_first ?r \<le> c" if "?in ri c" for c
      using that later [of c] ok(1) unfolding split by (meson less_imp_le order.trans)
    have c: "?c < e" "\<forall>c\<in>set (drop (Suc ci) cs). c < e" using "1.prems"(4) unfolding cs(1) by auto
    have fits: "\<not> e \<le> ?c" using c(1) by (simp add: not_le)
    consider (stop) "hr_first ?r \<ge> e" | (before) "\<not> hr_first ?r \<ge> e" "?c < hr_first ?r"
      | (behind) "\<not> hr_first ?r \<ge> e" "\<not> ?c < hr_first ?r" "?c > hr_last ?r"
      | (inside) "\<not> hr_first ?r \<ge> e" "\<not> ?c < hr_first ?r" "\<not> ?c > hr_last ?r"
      by blast
    then show ?thesis
    proof cases
      case stop
      have "\<not> ?in ri c" if "c < e" for c
        using that stop ge [of c] by (meson leD order.trans)
      then have "filter (?in ri) (drop ci cs) = []" using "1.prems"(4) by (auto simp: filter_empty_conv)
      moreover have "intersect_ordinal_loop cs rs e ci ri wi = take wi cs"
        using True stop by (simp add: intersect_ordinal_loop.simps [of cs rs e ci ri] Let_def)
      ultimately show ?thesis by simp
    next
      case before
      then have "\<not> ?in ri ?c" using ge [of ?c] by (meson leD)
      moreover have "intersect_ordinal_loop cs rs e ci ri wi = intersect_ordinal_loop cs rs e (ci + 1) ri wi"
        using True before fits by (simp add: intersect_ordinal_loop.simps [of cs rs e ci ri] Let_def)
      ultimately show ?thesis
        using "1.IH"(1) [OF True refl refl _ before(2)] before fits c "1.prems" cs(2) unfolding cs(1) by simp
    next
      case behind
      have "filter (?in ri) (drop ci cs) = filter (?in (Suc ri)) (drop ci cs)"
        using behind(3) cs(3) unfolding split cs(1) by (intro filter_cong refl) force
      moreover have "intersect_ordinal_loop cs rs e ci ri wi = intersect_ordinal_loop cs rs e ci (ri + 1) wi"
        using True behind fits by (simp add: intersect_ordinal_loop.simps [of cs rs e ci ri] Let_def)
      ultimately show ?thesis
        using "1.IH"(2) [OF True refl refl _ behind(2,3)] behind fits "1.prems" ok(2) by simp
    next
      case inside
      then have "?in ri ?c" unfolding split by (simp add: not_less)
      moreover have "intersect_ordinal_loop cs rs e ci ri wi =
          intersect_ordinal_loop (cs[wi := ?c]) rs e (ci + 1) ri (wi + 1)"
        using True inside fits by (simp add: intersect_ordinal_loop.simps [of cs rs e ci ri] Let_def)
      ultimately show ?thesis
        using "1.IH"(3) [OF True refl refl _ inside(2,3)] inside fits c "1.prems" cs(2)
          in_place_keep [OF "1.prems"(1) conjunct1 [OF True]]
        unfolding cs(1) by simp
    qed
  qed
qed

lemma intersect_ordinal_runs_filter:
  assumes "ascending cs" "\<forall>c\<in>set cs. in_window s e c" "hot_ok h"
  shows "intersect_ordinal_runs s e cs h = filter (\<lambda>c. c \<in> set (hot_vec h)) cs"
proof -
  note ok = assms(3) [unfolded hot_ok_def hot_runs_ok_def]
  let ?n = "partition_point (\<lambda>r. hr_last r < s) (hp_runs h)"
  have sorted: "sorted_wrt (\<lambda>r t. hr_last t < s \<longrightarrow> hr_last r < s) (hp_runs h)"
  proof (rule sorted_wrt_mono_rel)
    show "sorted_wrt (\<lambda>r t. hr_last r < hr_first t) (hp_runs h)" using ok by blast
    fix r t assume "r \<in> set (hp_runs h)" "t \<in> set (hp_runs h)" "hr_last r < hr_first t"
    moreover from this have "hr_first t \<le> hr_last t" using ok by blast
    ultimately show "hr_last t < s \<longrightarrow> hr_last r < s" by auto
  qed
  note point = partition_point_nth [OF sorted]
  have skipped: "hr_last r < s" if "r \<in> set (take ?n (hp_runs h))" for r
    using that point by (auto simp: in_set_conv_nth)
  have runs: "hot_runs_ok (drop ?n (hp_runs h))"
    using ok by (auto simp: hot_runs_ok_def sorted_wrt_drop dest: in_set_dropD)
  have "set (hot_vec h) = set (concat (map hot_run_ordinals (take ?n (hp_runs h)))) \<union>
      set (concat (map hot_run_ordinals (drop ?n (hp_runs h))))"
    by (metis append_take_drop_id concat_append map_append set_append)
  moreover have "c \<notin> set (concat (map hot_run_ordinals (take ?n (hp_runs h))))" if "c \<in> set cs" for c
  proof
    assume "c \<in> set (concat (map hot_run_ordinals (take ?n (hp_runs h))))"
    then obtain r where "r \<in> set (take ?n (hp_runs h))" "c \<le> hr_last r" by auto
    then have "c < s" using skipped by (meson le_less_trans)
    moreover have "s \<le> c" using that assms(2) by blast
    ultimately show False by simp
  qed
  ultimately have "filter (\<lambda>c. c \<in> set (hot_vec h)) cs =
      filter (\<lambda>c. c \<in> set (concat (map hot_run_ordinals (drop ?n (hp_runs h))))) cs"
    by (intro filter_cong refl) blast
  then show ?thesis
    using intersect_ordinal_loop_filter [of 0 0 cs ?n "hp_runs h" e] assms(1,2) runs
    by (simp add: intersect_ordinal_runs_def)
qed

interpretation hot_sets: windowed_intersection "in_window s e" hot_ok "\<lambda>h. set (hot_vec h)" "intersect_ordinal_runs s e" for s e
  by unfold_locales (rule intersect_ordinal_runs_filter)

end
