(* ===== verification/Hot_Index.thy ===== *)
theory Hot_Index
  imports Hot_Postings Locality Sealed_Query
begin

text \<open>
  The hot index of one partition of a stripe (\<^verbatim>\<open>PartitionIndex\<close>, \<^verbatim>\<open>index_terms\<close>,
  \<^verbatim>\<open>index_fields\<close>, \<^verbatim>\<open>publish_homogeneous_posting_range\<close> and
  \<^verbatim>\<open>query_ordinals\<close> of \<^verbatim>\<open>src/stripe.rs\<close>) with the two caches that spare the
  analysis of repeated messages and field sets. A record's fields are shared, and their address
  selects the slot of the field cache: it is the argument \<open>address\<close>, and no property depends on
  it.
\<close>

section \<open>Records of a partition\<close>

record indexed_record =
  ir_record :: durable_log_record
  ir_tentative_placement :: compression_placement
  ir_temperature :: compression_temperature
  ir_final_placement :: "compression_placement option"

record partition_index =
  pi_records :: "indexed_record list"
  pi_term_ids :: "rstr \<rightharpoonup> nat"
  pi_term_postings :: "hot_posting list"
  pi_field_ids :: "rstr \<rightharpoonup> rstr \<rightharpoonup> nat"
  pi_field_postings :: "hot_posting list"
  pi_indexed_through :: "logical_offset option"

definition partition_default :: partition_index where
  "partition_default = \<lparr>pi_records = [], pi_term_ids = Map.empty, pi_term_postings = [],
     pi_field_ids = Map.empty, pi_field_postings = [], pi_indexed_through = None\<rparr>"

abbreviation ir_offset :: "indexed_record \<Rightarrow> logical_offset" where
  "ir_offset r \<equiv> record_offset (ir_record r)"

definition partition_record :: "partition_index \<Rightarrow> logical_offset \<Rightarrow> indexed_record option" where
  "partition_record P off = find_by_key ir_offset off (pi_records P)"

definition partition_last_offset :: "partition_index \<Rightarrow> logical_offset option" where
  "partition_last_offset P = (if pi_records P = [] then None else Some (ir_offset (last (pi_records P))))"

section \<open>Caches\<close>

abbreviation FIELD_CACHE_ENTRIES :: nat where "FIELD_CACHE_ENTRIES \<equiv> 1024"

type_synonym message_cache = "nat \<rightharpoonup> topic_partition \<times> rstr \<times> nat list"
type_synonym field_cache = "nat \<rightharpoonup> topic_partition \<times> metadata_field list \<times> nat list"

definition hot_message_slot :: "topic_partition \<Rightarrow> bytes \<Rightarrow> nat" where
  "hot_message_slot tp msg =
     (let h = of_nat (length msg) XOR (ucast (snd tp) * 0x9e3779b97f4a7c15) :: u64;
          h = (if length msg \<ge> 16
               then h XOR (word_rotl 17 (le_word (take 8 msg)) XOR
                           word_rotl 41 (le_word (drop (length msg - 8) msg)))
               else mix_bytes h msg);
          h = h XOR drop_bit 33 h;
          h = h * 0xff51afd7ed558ccd
      in unat h mod MESSAGE_TERM_CACHE_ENTRIES)"

definition field_cache_slot :: "topic_partition \<Rightarrow> u64 \<Rightarrow> nat" where
  "field_cache_slot tp address =
     unat (word_rotl 17 address XOR (ucast (snd tp) * 0x9e3779b9)) mod FIELD_CACHE_ENTRIES"

section \<open>Indexing a record\<close>

definition intern_hot_term :: "ucd \<Rightarrow> partition_index \<times> nat list \<Rightarrow> rstr \<Rightarrow> partition_index \<times> nat list" where
  "intern_hot_term U = (\<lambda>(P, ids) t.
     let n = normalize_term U t;
         (P, i) = (case pi_term_ids P n of
            Some i \<Rightarrow> (P, i)
          | None \<Rightarrow>
             (P\<lparr>pi_term_ids := (pi_term_ids P)(n \<mapsto> length (pi_term_postings P)),
                pi_term_postings := pi_term_postings P @ [hot_posting_default]\<rparr>,
              length (pi_term_postings P)))
     in (P, if i \<in> set ids then ids else ids @ [i]))"

definition push_each :: "(hot_posting \<Rightarrow> hot_posting) \<Rightarrow> hot_posting list \<Rightarrow> nat list \<Rightarrow> hot_posting list" where
  "push_each push = foldl (\<lambda>ps i. ps[i := push (ps ! i)])"

definition resolve_hot_terms ::
  "ucd \<Rightarrow> topic_partition \<Rightarrow> rstr \<Rightarrow> message_cache \<times> partition_index \<Rightarrow>
   (message_cache \<times> partition_index) \<times> nat list" where
  "resolve_hot_terms U tp msg = (\<lambda>(cache, P).
     let slot = hot_message_slot tp (str_bytes msg);
         miss = (let (P, ids) = foldl (intern_hot_term U) (P, []) (scan_message_terms U msg)
                 in ((cache(slot \<mapsto> (tp, msg, ids)), P), ids))
     in case cache slot of
          Some (tp', m, ids) \<Rightarrow> if tp' = tp \<and> m = msg then ((cache, P), ids) else miss
        | None \<Rightarrow> miss)"

definition index_terms ::
  "ucd \<Rightarrow> durable_log_record \<Rightarrow> u32 \<Rightarrow> message_cache \<times> partition_index \<Rightarrow>
   (message_cache \<times> partition_index) \<times> nat list" where
  "index_terms U r x st =
     (let ((cache, P), ids) = resolve_hot_terms U (rr_topic_partition (record_ref r)) (message r) st
      in ((cache, P\<lparr>pi_term_postings := push_each (hot_push x) (pi_term_postings P) ids\<rparr>), ids))"

text \<open>A field that repeats an earlier one of the record is skipped.\<close>

definition intern_hot_field ::
  "metadata_field list \<Rightarrow> partition_index \<times> nat list \<Rightarrow> nat \<times> metadata_field \<Rightarrow> partition_index \<times> nat list" where
  "intern_hot_field fs = (\<lambda>(P, ids) (index, f).
     if list_ex (\<lambda>g. field_key g = field_key f \<and> field_value g = field_value f) (take index fs) then (P, ids)
     else case Option.bind (pi_field_ids P (field_key f)) (\<lambda>vs. vs (field_value f)) of
            Some i \<Rightarrow> (P, ids @ [i])
          | None \<Rightarrow>
             let i = length (pi_field_postings P);
                 vs = (case pi_field_ids P (field_key f) of None \<Rightarrow> Map.empty | Some vs \<Rightarrow> vs)
             in (P\<lparr>pi_field_ids := (pi_field_ids P)(field_key f \<mapsto> vs(field_value f \<mapsto> i)),
                   pi_field_postings := pi_field_postings P @ [hot_posting_default]\<rparr>, ids @ [i]))"

definition resolve_hot_fields ::
  "u64 \<Rightarrow> topic_partition \<Rightarrow> metadata_field list \<Rightarrow> field_cache \<times> partition_index \<Rightarrow>
   (field_cache \<times> partition_index) \<times> nat list" where
  "resolve_hot_fields address tp fs = (\<lambda>(cache, P).
     let slot = field_cache_slot tp address;
         miss = (let (P, ids) = foldl (intern_hot_field fs) (P, []) (enumerate 0 fs)
                 in ((cache(slot \<mapsto> (tp, fs, ids)), P), ids))
     in case cache slot of
          Some (tp', gs, ids) \<Rightarrow> if tp' = tp \<and> gs = fs then ((cache, P), ids) else miss
        | None \<Rightarrow> miss)"

definition index_fields ::
  "u64 \<Rightarrow> durable_log_record \<Rightarrow> u32 \<Rightarrow> field_cache \<times> partition_index \<Rightarrow>
   (field_cache \<times> partition_index) \<times> nat list" where
  "index_fields address r x st =
     (let ((cache, P), ids) = resolve_hot_fields address (rr_topic_partition (record_ref r)) (record_fields r) st
      in ((cache, P\<lparr>pi_field_postings := push_each (hot_push x) (pi_field_postings P) ids\<rparr>), ids))"

text \<open>Publishing the ordinals of records that repeat the message and fields of an indexed one.\<close>

definition publish_homogeneous_posting_range ::
  "u32 \<Rightarrow> u32 \<Rightarrow> logical_offset \<Rightarrow> nat list \<Rightarrow> nat list \<Rightarrow> partition_index \<Rightarrow> partition_index" where
  "publish_homogeneous_posting_range first_ordinal last_ordinal last_offset term_ids field_ids P =
     P\<lparr>pi_term_postings := push_each (push_range first_ordinal last_ordinal) (pi_term_postings P) term_ids,
       pi_field_postings := push_each (push_range first_ordinal last_ordinal) (pi_field_postings P) field_ids,
       pi_indexed_through := Some last_offset\<rparr>"

section \<open>Querying\<close>

definition ordinal_record_window ::
  "indexed_record list \<Rightarrow> logical_offset option \<Rightarrow> logical_offset option \<Rightarrow> nat \<times> nat" where
  "ordinal_record_window rs start_offset end_offset =
     (let si = (case start_offset of None \<Rightarrow> 0 | Some s \<Rightarrow> partition_point (\<lambda>r. ir_offset r < s) rs);
          ei = (case end_offset of None \<Rightarrow> length rs | Some e \<Rightarrow> partition_point (\<lambda>r. ir_offset r < e) rs)
      in (min si ei, ei))"

definition collect_ordered_range :: "nat \<times> nat \<Rightarrow> query_order \<Rightarrow> nat option \<Rightarrow> u32 list" where
  "collect_ordered_range win order limit =
     (let xs = [fst win ..< snd win];
          n = min (case limit of None \<Rightarrow> length xs | Some l \<Rightarrow> l) (length xs)
      in case order of
           OldestFirst \<Rightarrow> map of_nat (take n xs)
         | NewestFirst \<Rightarrow> map of_nat (take n (rev xs)))"

text \<open>The postings of the required constraints, or nothing when one is missing or empty.\<close>

fun gather_postings :: "('c \<Rightarrow> hot_posting option) \<Rightarrow> u32 \<Rightarrow> u32 \<Rightarrow> 'c list \<Rightarrow> hot_posting list option" where
  "gather_postings lookup s e [] = Some []"
| "gather_postings lookup s e (c # cs) =
     (case lookup c of
        None \<Rightarrow> None
      | Some h \<Rightarrow> if is_empty_in h s e then None
          else map_option (\<lambda>hs. h # hs) (gather_postings lookup s e cs))"

definition term_posting :: "ucd \<Rightarrow> partition_index \<Rightarrow> rstr \<Rightarrow> hot_posting option" where
  "term_posting U P t =
     Option.bind (pi_term_ids P (normalize_term U t)) (list_get (pi_term_postings P))"

definition field_posting :: "partition_index \<Rightarrow> rstr \<times> rstr \<Rightarrow> hot_posting option" where
  "field_posting P = (\<lambda>(k, v).
     Option.bind (Option.bind (pi_field_ids P k) (\<lambda>vs. vs v)) (list_get (pi_field_postings P)))"

text \<open>The last steps of a lookup: residual filter, order, limit.\<close>

definition finish_ordinals ::
  "ucd \<Rightarrow> regex_match \<Rightarrow> log_query \<Rightarrow> partition_index \<Rightarrow> u32 list \<Rightarrow> u32 list" where
  "finish_ordinals U rx q P xs =
     (let rs = pi_records P;
          view = (\<lambda>x. durable_view (ir_record (rs ! unat x)));
          xs = (if needs_record_filter q
                then filter (\<lambda>x. unat x < length rs \<and> matches_index_candidate U rx q (view x)) xs else xs);
          xs = (if q_sort q = SortTimestamp then sort_by (\<lambda>l r. query_compare q (view l) (view r)) xs
                else if q_order q = NewestFirst then rev xs else xs)
      in truncate_opt (q_limit q) xs)"

definition query_ordinals :: "ucd \<Rightarrow> regex_match \<Rightarrow> log_query \<Rightarrow> partition_index \<Rightarrow> u32 list" where
  "query_ordinals U rx q P =
     (if q_limit q = Some 0 \<or> has_invalid_range q then []
      else let c = required_index_constraints q in
      if rc_impossible c then []
      else let win = ordinal_record_window (pi_records P) (q_start_offset q) (q_end_offset q);
               s = of_nat (fst win); e = of_nat (snd win) in
      case gather_postings (term_posting U P) s e (rc_terms c) of
        None \<Rightarrow> []
      | Some ts \<Rightarrow>
      case gather_postings (field_posting P) s e (rc_fields c) of
        None \<Rightarrow> []
      | Some fs \<Rightarrow>
      case sort_by (\<lambda>a b. cmp (hp_cardinality a) (hp_cardinality b)) (ts @ fs) of
        [] \<Rightarrow>
          if \<not> needs_record_filter q then collect_ordered_range win (q_order q) (q_limit q)
          else finish_ordinals U rx q P (map of_nat [fst win ..< snd win])
      | h # hs \<Rightarrow>
          if hs = [] \<and> \<not> needs_record_filter q then collect_in h s e (q_order q) (q_limit q)
          else finish_ordinals U rx q P
            (intersect_all (intersect_ordinal_runs s e) (collect_in h s e OldestFirst None) hs))"

definition query_partition :: "ucd \<Rightarrow> regex_match \<Rightarrow> log_query \<Rightarrow> partition_index \<Rightarrow> durable_log_record list" where
  "query_partition U rx q P =
     map (\<lambda>x. ir_record (pi_records P ! unat x))
       (filter (\<lambda>x. unat x < length (pi_records P)) (query_ordinals U rx q P))"

section \<open>Tables of keys\<close>

text \<open>
  A table \<open>ids\<close> gives keys the numbers of their postings; \<open>keys j\<close> are the keys of record \<open>j\<close>.
  The table is right for the first \<open>n\<close> records when each posting holds exactly the ordinals of
  the records with its key. A list of numbers resolves a set of keys when it names each of them
  once.
\<close>

definition hot_table :: "(nat \<Rightarrow> 'k set) \<Rightarrow> nat \<Rightarrow> ('k \<rightharpoonup> nat) \<Rightarrow> hot_posting list \<Rightarrow> bool" where
  "hot_table keys n ids ps \<longleftrightarrow>
     inj_on ids (dom ids) \<and>
     (\<forall>k i. ids k = Some i \<longrightarrow>
        i < length ps \<and> hot_ok (ps ! i) \<and> hot_vec (ps ! i) = ordinals (\<lambda>j. k \<in> keys j) n) \<and>
     (\<forall>j<n. keys j \<subseteq> dom ids)"

definition resolves :: "('k \<rightharpoonup> nat) \<Rightarrow> 'k set \<Rightarrow> nat list \<Rightarrow> bool" where
  "resolves ids K xs \<longleftrightarrow> distinct xs \<and> Some ` set xs = ids ` K"

lemma hot_table_cong:
  assumes "\<And>j. j < n \<Longrightarrow> keys j = keys' j"
  shows "hot_table keys n ids ps = hot_table keys' n ids ps"
proof -
  have "ordinals (\<lambda>j. k \<in> keys j) n = ordinals (\<lambda>j. k \<in> keys' j) n" for k
    by (rule ordinals_cong) (simp add: assms)
  then show ?thesis by (simp add: hot_table_def assms)
qed

lemma hot_table_empty: "hot_table keys 0 Map.empty []"
  by (simp add: hot_table_def)

lemma resolves_mono:
  assumes "resolves ids K xs" "ids \<subseteq>\<^sub>m ids'"
  shows "resolves ids' K xs"
proof -
  have "ids' k = ids k" if "k \<in> K" for k
  proof -
    have "ids k \<in> Some ` set xs" using that assms(1) by (simp add: resolves_def)
    then obtain i where "ids k = Some i" by auto
    then show ?thesis using assms(2) by (metis domI map_le_def)
  qed
  then show ?thesis using assms(1) by (simp add: resolves_def)
qed

lemma resolves_bound: "hot_table keys n ids ps \<Longrightarrow> resolves ids K xs \<Longrightarrow> i \<in> set xs \<Longrightarrow> i < length ps"
  unfolding hot_table_def resolves_def by (metis imageE imageI)

lemma resolves_member:
  assumes "hot_table keys n ids ps" "resolves ids K xs" "ids k = Some i"
  shows "i \<in> set xs \<longleftrightarrow> k \<in> K"
proof
  assume "i \<in> set xs"
  then have "ids k \<in> ids ` K" using assms(2,3) by (metis imageI resolves_def)
  then obtain k' where "k' \<in> K" "ids k' = ids k" by auto
  moreover have "k' \<in> dom ids" "k \<in> dom ids" using calculation(2) assms(3) by auto
  ultimately show "k \<in> K" using assms(1) by (metis hot_table_def inj_onD)
next
  assume "k \<in> K"
  then have "Some i \<in> Some ` set xs" using assms(2,3) by (metis imageI resolves_def)
  then show "i \<in> set xs" by auto
qed

text \<open>A key without a number gets the next one, with an empty posting.\<close>

lemma hot_table_intern:
  assumes "hot_table keys n ids ps" "ids k = None"
  shows "hot_table keys n (ids(k \<mapsto> length ps)) (ps @ [hot_posting_default])"
    "ids \<subseteq>\<^sub>m ids(k \<mapsto> length ps)"
proof -
  have none: "ordinals (\<lambda>j. k \<in> keys j) n = []"
    using assms by (auto simp: hot_table_def ordinals_def filter_empty_conv)
  have fresh: "ids l \<noteq> Some (length ps)" "Some (length ps) \<noteq> ids l" for l
    using assms(1) unfolding hot_table_def by (metis less_irrefl)+
  have "inj_on (ids(k \<mapsto> length ps)) (dom (ids(k \<mapsto> length ps)))"
  proof (rule inj_onI)
    fix a b assume ab: "a \<in> dom (ids(k \<mapsto> length ps))" "b \<in> dom (ids(k \<mapsto> length ps))"
      and eq: "(ids(k \<mapsto> length ps)) a = (ids(k \<mapsto> length ps)) b"
    show "a = b"
    proof (cases "a = k \<or> b = k")
      case True
      then show ?thesis using eq fresh by (auto split: if_splits)
    next
      case False
      then show ?thesis using ab eq assms(1) by (auto simp: hot_table_def dest: inj_onD)
    qed
  qed
  moreover have "hot_ok hot_posting_default" "hot_vec hot_posting_default = []"
    by (simp_all add: hot_posting_default_def hot_ok_def hot_runs_ok_def)
  then have "i < length (ps @ [hot_posting_default]) \<and> hot_ok ((ps @ [hot_posting_default]) ! i) \<and>
      hot_vec ((ps @ [hot_posting_default]) ! i) = ordinals (\<lambda>j. l \<in> keys j) n"
    if "(ids(k \<mapsto> length ps)) l = Some i" for l i
    using that assms(1) none by (cases "l = k") (simp_all add: hot_table_def nth_append less_SucI)
  moreover have "keys j \<subseteq> dom (ids(k \<mapsto> length ps))" if "j < n" for j
    using assms(1) that by (auto simp: hot_table_def)
  ultimately show "hot_table keys n (ids(k \<mapsto> length ps)) (ps @ [hot_posting_default])"
    unfolding hot_table_def by blast
  show "ids \<subseteq>\<^sub>m ids(k \<mapsto> length ps)" using assms(2) by (auto simp: map_le_def)
qed

lemma resolves_intern:
  assumes "hot_table keys n ids ps" "resolves ids K xs"
  shows "ids k = Some i \<Longrightarrow> i \<notin> set xs \<Longrightarrow> resolves ids (insert k K) (xs @ [i])"
    and "ids k = Some i \<Longrightarrow> i \<in> set xs \<Longrightarrow> resolves ids (insert k K) xs"
    and "ids k = None \<Longrightarrow> resolves (ids(k \<mapsto> length ps)) (insert k K) (xs @ [length ps])"
proof -
  show "ids k = Some i \<Longrightarrow> i \<notin> set xs \<Longrightarrow> resolves ids (insert k K) (xs @ [i])"
    using assms(2) by (simp add: resolves_def)
  show "ids k = Some i \<Longrightarrow> i \<in> set xs \<Longrightarrow> resolves ids (insert k K) xs"
    using assms(2) by (auto simp: resolves_def)
  assume none: "ids k = None"
  then have "resolves (ids(k \<mapsto> length ps)) K xs"
    by (rule resolves_mono [OF assms(2) hot_table_intern(2) [OF assms(1)]])
  moreover have "length ps \<notin> set xs" using resolves_bound [OF assms] by blast
  ultimately show "resolves (ids(k \<mapsto> length ps)) (insert k K) (xs @ [length ps])"
    unfolding resolves_def image_insert set_append image_Un by simp
qed

lemma push_each_nth:
  assumes "distinct xs" "\<forall>i\<in>set xs. i < length ps"
  shows "length (push_each f ps xs) = length ps"
    "j < length ps \<Longrightarrow> push_each f ps xs ! j = (if j \<in> set xs then f (ps ! j) else ps ! j)"
proof -
  have "length (push_each f ps xs) = length ps \<and>
      (j < length ps \<longrightarrow> push_each f ps xs ! j = (if j \<in> set xs then f (ps ! j) else ps ! j))"
    using assms by (induction xs arbitrary: ps) (auto simp: push_each_def nth_list_update)
  then show "length (push_each f ps xs) = length ps"
    "j < length ps \<Longrightarrow> push_each f ps xs ! j = (if j \<in> set xs then f (ps ! j) else ps ! j)"
    by simp_all
qed

text \<open>Pushing a range of ordinals into the postings of the records' common keys.\<close>

lemma ordinals_range:
  assumes "n \<le> m" "m < 2 ^ 32"
    and "\<And>j. j < n \<Longrightarrow> P' j = P j" "\<And>j. n \<le> j \<Longrightarrow> j \<le> m \<Longrightarrow> P' j = b"
  shows "ordinals P' (Suc m) = ordinals P n @ (if b then inclusive_range (of_nat n) (of_nat m) else [])"
proof -
  have split: "[0 ..< Suc m] = [0 ..< n] @ [n ..< Suc m]"
    using assms(1) by (metis le_SucI le_add_diff_inverse upt_add_eq_append zero_le)
  have "filter P' [0 ..< n] = filter P [0 ..< n]" using assms(3) by (intro filter_cong) auto
  moreover have "filter P' [n ..< Suc m] = (if b then [n ..< Suc m] else [])"
    using assms(4) by (cases b) (auto simp: filter_empty_conv intro!: filter_True simp del: upt_Suc)
  moreover have "unat (of_nat n :: u32) = n" "unat (of_nat m :: u32) = m"
    using assms(1,2) by (simp_all add: unat_of_nat)
  ultimately show ?thesis
    unfolding ordinals_def split filter_append map_append by (simp add: inclusive_range_def del: upt_Suc)
qed

lemma hot_table_push:
  assumes tab: "hot_table keys n ids ps" and res: "resolves ids K xs" and n: "n \<le> m" "m < 2 ^ 32"
    and keys: "\<And>j. j < n \<Longrightarrow> keys' j = keys j" "\<And>j. n \<le> j \<Longrightarrow> j \<le> m \<Longrightarrow> keys' j = K"
  shows "hot_table keys' (Suc m) ids (push_each (push_range (of_nat n) (of_nat m)) ps xs)"
proof -
  let ?ps = "push_each (push_range (of_nat n) (of_nat m)) ps xs"
  have d: "distinct xs" "\<forall>i\<in>set xs. i < length ps"
    using res resolves_bound [OF tab res] by (auto simp: resolves_def)
  have word: "unat (of_nat n :: u32) = n" "unat (of_nat m :: u32) = m" using n by (simp_all add: unat_of_nat)
  have post: "i < length ?ps \<and> hot_ok (?ps ! i) \<and> hot_vec (?ps ! i) = ordinals (\<lambda>j. k \<in> keys' j) (Suc m)"
    if k: "ids k = Some i" for k i
  proof -
    have old: "i < length ps" "hot_ok (ps ! i)" "hot_vec (ps ! i) = ordinals (\<lambda>j. k \<in> keys j) n"
      using tab k by (auto simp: hot_table_def)
    have new: "ordinals (\<lambda>j. k \<in> keys' j) (Suc m) =
        hot_vec (ps ! i) @ (if k \<in> K then inclusive_range (of_nat n) (of_nat m) else [])"
      unfolding old(3) using keys by (intro ordinals_range [OF n]) simp_all
    have "\<forall>x\<in>set (hot_vec (ps ! i)). x < of_nat n"
      unfolding old(3) using n word by (auto simp: set_ordinals word_less_nat_alt)
    moreover have "(of_nat n :: u32) \<le> of_nat m" using n word by (simp add: word_le_nat_alt)
    ultimately show ?thesis
      using push_each_nth(2) [OF d old(1)] push_each_nth(1) [OF d] old(1,2) resolves_member [OF tab res k] new
        push_range_ok [OF old(2), of "of_nat n" "of_nat m"]
      by (cases "k \<in> K") simp_all
  qed
  have "keys' j \<subseteq> dom ids" if "j < Suc m" for j
  proof (cases "j < n")
    case True
    then show ?thesis using tab keys(1) by (simp add: hot_table_def)
  next
    case False
    have "ids k \<noteq> None" if "k \<in> K" for k
      using that res unfolding resolves_def by (metis imageE imageI option.distinct(1))
    then show ?thesis using keys(2) [of j] False \<open>j < Suc m\<close> by auto
  qed
  then show ?thesis using post tab by (simp add: hot_table_def)
qed

section \<open>The index of a partition\<close>

abbreviation field_pairs :: "metadata_field list \<Rightarrow> (rstr \<times> rstr) set" where
  "field_pairs fs \<equiv> (\<lambda>f. (field_key f, field_value f)) ` set fs"

definition field_ids_of :: "(rstr \<rightharpoonup> rstr \<rightharpoonup> nat) \<Rightarrow> rstr \<times> rstr \<rightharpoonup> nat" where
  "field_ids_of ids = (\<lambda>(k, v). Option.bind (ids k) (\<lambda>vs. vs v))"

definition term_keys :: "ucd \<Rightarrow> indexed_record list \<Rightarrow> nat \<Rightarrow> rstr set" where
  "term_keys U rs j = set (message_terms U (message (ir_record (rs ! j))))"

definition field_keys :: "indexed_record list \<Rightarrow> nat \<Rightarrow> (rstr \<times> rstr) set" where
  "field_keys rs j = field_pairs (record_fields (ir_record (rs ! j)))"

definition indexed_upto :: "ucd \<Rightarrow> nat \<Rightarrow> partition_index \<Rightarrow> bool" where
  "indexed_upto U n P \<longleftrightarrow>
     hot_table (term_keys U (pi_records P)) n (pi_term_ids P) (pi_term_postings P) \<and>
     hot_table (field_keys (pi_records P)) n (field_ids_of (pi_field_ids P)) (pi_field_postings P)"

definition caches_ok :: "ucd \<Rightarrow> topic_partition \<Rightarrow> message_cache \<Rightarrow> field_cache \<Rightarrow> partition_index \<Rightarrow> bool" where
  "caches_ok U tp mc fc P \<longleftrightarrow>
     (\<forall>s m xs. mc s = Some (tp, m, xs) \<longrightarrow> resolves (pi_term_ids P) (set (message_terms U m)) xs) \<and>
     (\<forall>s fs xs. fc s = Some (tp, fs, xs) \<longrightarrow> resolves (field_ids_of (pi_field_ids P)) (field_pairs fs) xs)"

lemma field_ids_of_insert:
  "field_ids_of (ids(k \<mapsto> (case ids k of None \<Rightarrow> Map.empty | Some vs \<Rightarrow> vs)(v \<mapsto> i))) =
   (field_ids_of ids)((k, v) \<mapsto> i)"
  by (auto simp: field_ids_of_def fun_eq_iff split: option.splits)

lemma intern_hot_terms:
  assumes "foldl (intern_hot_term U) (P, xs) ts = (P', xs')"
    and "hot_table keys n (pi_term_ids P) (pi_term_postings P)" "resolves (pi_term_ids P) K xs"
  shows "\<exists>ids ps. P' = P\<lparr>pi_term_ids := ids, pi_term_postings := ps\<rparr> \<and> pi_term_ids P \<subseteq>\<^sub>m ids \<and>
    hot_table keys n ids ps \<and> resolves ids (K \<union> normalize_term U ` set ts) xs'"
  using assms
proof (induction ts arbitrary: P xs K)
  case Nil
  then show ?case by (intro exI [of _ "pi_term_ids P"] exI [of _ "pi_term_postings P"]) simp
next
  case (Cons t ts)
  let ?k = "normalize_term U t" and ?l = "length (pi_term_postings P)"
  show ?case
  proof (cases "pi_term_ids P ?k")
    case (Some i)
    let ?xs = "if i \<in> set xs then xs else xs @ [i]"
    have "foldl (intern_hot_term U) (P, ?xs) ts = (P', xs')"
      using Cons.prems(1) Some by (simp add: intern_hot_term_def)
    moreover have "resolves (pi_term_ids P) (insert ?k K) ?xs"
      using resolves_intern(1,2) [OF Cons.prems(2,3) Some] by simp
    ultimately show ?thesis using Cons.IH [OF _ Cons.prems(2), of ?xs "insert ?k K"] by simp
  next
    case None
    let ?Q = "P\<lparr>pi_term_ids := (pi_term_ids P)(?k \<mapsto> ?l),
      pi_term_postings := pi_term_postings P @ [hot_posting_default]\<rparr>"
    have "?l \<notin> set xs" using resolves_bound [OF Cons.prems(2,3)] by blast
    then have "foldl (intern_hot_term U) (?Q, xs @ [?l]) ts = (P', xs')"
      using Cons.prems(1) None by (simp add: intern_hot_term_def Let_def)
    moreover have "resolves (pi_term_ids ?Q) (insert ?k K) (xs @ [?l])"
      using resolves_intern(3) [OF Cons.prems(2,3) None] by simp
    moreover have "hot_table keys n (pi_term_ids ?Q) (pi_term_postings ?Q)"
      using hot_table_intern(1) [OF Cons.prems(2) None] by simp
    ultimately obtain ids ps where "P' = ?Q\<lparr>pi_term_ids := ids, pi_term_postings := ps\<rparr>"
      "pi_term_ids ?Q \<subseteq>\<^sub>m ids" "hot_table keys n ids ps"
      "resolves ids (insert ?k K \<union> normalize_term U ` set ts) xs'"
      using Cons.IH by blast
    moreover from this(2) have "pi_term_ids P \<subseteq>\<^sub>m ids"
      using hot_table_intern(2) [OF Cons.prems(2) None] by (auto intro: map_le_trans)
    ultimately show ?thesis by (intro exI [of _ ids] exI [of _ ps]) simp
  qed
qed

lemma intern_hot_fields:
  assumes "foldl (intern_hot_field fs) (P, xs) (enumerate (length gs) hs) = (P', xs')" "fs = gs @ hs"
    and "hot_table keys n (field_ids_of (pi_field_ids P)) (pi_field_postings P)"
    and "resolves (field_ids_of (pi_field_ids P)) (field_pairs gs) xs"
  shows "\<exists>ids ps. P' = P\<lparr>pi_field_ids := ids, pi_field_postings := ps\<rparr> \<and>
    field_ids_of (pi_field_ids P) \<subseteq>\<^sub>m field_ids_of ids \<and>
    hot_table keys n (field_ids_of ids) ps \<and> resolves (field_ids_of ids) (field_pairs fs) xs'"
  using assms
proof (induction hs arbitrary: P xs gs)
  case Nil
  then show ?case by (intro exI [of _ "pi_field_ids P"] exI [of _ "pi_field_postings P"]) simp
next
  case (Cons f hs)
  let ?k = "(field_key f, field_value f)" and ?l = "length (pi_field_postings P)"
  let ?old = "field_ids_of (pi_field_ids P)"
  have rest: "enumerate (length gs) (f # hs) = (length gs, f) # enumerate (length (gs @ [f])) hs"
    by simp
  have pairs: "field_pairs (gs @ [f]) = insert ?k (field_pairs gs)" by auto
  have seen: "list_ex (\<lambda>g. field_key g = field_key f \<and> field_value g = field_value f) (take (length gs) fs)
      \<longleftrightarrow> ?k \<in> field_pairs gs"
    unfolding Cons.prems(2) by (auto simp: list_ex_iff intro: rev_image_eqI)
  have fs: "fs = (gs @ [f]) @ hs" using Cons.prems(2) by simp
  note IH = Cons.IH [OF _ fs, unfolded pairs]
  show ?case
  proof (cases "?k \<in> field_pairs gs")
    case True
    then have "foldl (intern_hot_field fs) (P, xs) (enumerate (length (gs @ [f])) hs) = (P', xs')"
      using Cons.prems(1) seen unfolding rest by (simp add: intern_hot_field_def)
    moreover have "resolves ?old (insert ?k (field_pairs gs)) xs" using True Cons.prems(4) by (simp add: insert_absorb)
    ultimately show ?thesis using Cons.prems(3) by (intro IH)
  next
    case new: False
    show ?thesis
    proof (cases "?old ?k")
      case (Some i)
      then have "foldl (intern_hot_field fs) (P, xs @ [i]) (enumerate (length (gs @ [f])) hs) = (P', xs')"
        using Cons.prems(1) seen new unfolding rest by (simp add: intern_hot_field_def field_ids_of_def)
      moreover have "i \<notin> set xs" using resolves_member [OF Cons.prems(3,4) Some] new by blast
      ultimately show ?thesis
        using Cons.prems(3) resolves_intern(1) [OF Cons.prems(3,4) Some] by (intro IH)
    next
      case None
      let ?vs = "case pi_field_ids P (field_key f) of None \<Rightarrow> Map.empty | Some vs \<Rightarrow> vs"
      let ?Q = "P\<lparr>pi_field_ids := (pi_field_ids P)(field_key f \<mapsto> ?vs(field_value f \<mapsto> ?l)),
        pi_field_postings := pi_field_postings P @ [hot_posting_default]\<rparr>"
      have ids: "field_ids_of (pi_field_ids ?Q) = ?old(?k \<mapsto> ?l)" using field_ids_of_insert by simp
      have "foldl (intern_hot_field fs) (?Q, xs @ [?l]) (enumerate (length (gs @ [f])) hs) = (P', xs')"
        using Cons.prems(1) seen new None unfolding rest
        by (simp add: intern_hot_field_def field_ids_of_def Let_def)
      moreover have "hot_table keys n (field_ids_of (pi_field_ids ?Q)) (pi_field_postings ?Q)"
        unfolding ids using hot_table_intern(1) [OF Cons.prems(3) None] by simp
      moreover have "resolves (field_ids_of (pi_field_ids ?Q)) (insert ?k (field_pairs gs)) (xs @ [?l])"
        unfolding ids using resolves_intern(3) [OF Cons.prems(3,4) None] by simp
      ultimately obtain ids ps where "P' = ?Q\<lparr>pi_field_ids := ids, pi_field_postings := ps\<rparr>"
        "field_ids_of (pi_field_ids ?Q) \<subseteq>\<^sub>m field_ids_of ids" "hot_table keys n (field_ids_of ids) ps"
        "resolves (field_ids_of ids) (field_pairs fs) xs'"
        using IH by blast
      moreover from this(2) have "?old \<subseteq>\<^sub>m field_ids_of ids"
        unfolding ids using hot_table_intern(2) [OF Cons.prems(3) None] by (rule map_le_trans [rotated])
      ultimately show ?thesis by (intro exI [of _ ids] exI [of _ ps]) simp
    qed
  qed
qed

lemma resolves_empty: "resolves ids {} []"
  by (simp add: resolves_def)

lemma resolve_hot_terms_ok:
  assumes "resolve_hot_terms U tp msg (mc, P) = ((mc', P'), xs)"
    and "hot_table keys n (pi_term_ids P) (pi_term_postings P)" "caches_ok U tp mc fc P"
  shows "\<exists>ids ps. P' = P\<lparr>pi_term_ids := ids, pi_term_postings := ps\<rparr> \<and> hot_table keys n ids ps \<and>
    resolves ids (set (message_terms U msg)) xs \<and> caches_ok U tp mc' fc P' \<and>
    (\<forall>s tp' v. tp' \<noteq> tp \<longrightarrow> mc' s = Some (tp', v) \<longrightarrow> mc s = Some (tp', v))"
proof -
  let ?slot = "hot_message_slot tp (str_bytes msg)"
  obtain Q ys where fold: "foldl (intern_hot_term U) (P, []) (scan_message_terms U msg) = (Q, ys)"
    by (cases "foldl (intern_hot_term U) (P, []) (scan_message_terms U msg)")
  consider (hit) "mc ?slot = Some (tp, msg, xs)" "mc' = mc" "P' = P"
    | (miss) "mc' = mc(?slot \<mapsto> (tp, msg, ys))" "P' = Q" "xs = ys"
  proof (cases "\<exists>zs. mc ?slot = Some (tp, msg, zs)")
    case True
    then obtain zs where zs: "mc ?slot = Some (tp, msg, zs)" by blast
    then have "((mc, P), zs) = ((mc', P'), xs)" using assms(1) by (simp add: resolve_hot_terms_def Let_def)
    then show thesis using zs by (intro hit) simp_all
  next
    case False
    then have "((mc(?slot \<mapsto> (tp, msg, ys)), Q), ys) = ((mc', P'), xs)"
      using assms(1) fold by (cases "mc ?slot") (auto simp: resolve_hot_terms_def Let_def)
    then show thesis using miss by blast
  qed
  then show ?thesis
  proof cases
    case hit
    then show ?thesis using assms(2,3)
      by (intro exI [of _ "pi_term_ids P"] exI [of _ "pi_term_postings P"]) (auto simp: caches_ok_def)
  next
    case miss
    obtain ids ps where Q: "Q = P\<lparr>pi_term_ids := ids, pi_term_postings := ps\<rparr>" "pi_term_ids P \<subseteq>\<^sub>m ids"
      "hot_table keys n ids ps" "resolves ids (set (message_terms U msg)) ys"
      using intern_hot_terms [OF fold assms(2) resolves_empty] by (auto simp: message_terms_def)
    have "caches_ok U tp mc' fc P'"
      unfolding miss(1,2) Q(1) using assms(3) Q(4) resolves_mono [OF _ Q(2)] by (auto simp: caches_ok_def)
    then show ?thesis using Q miss by (intro exI [of _ ids] exI [of _ ps]) (auto split: if_splits)
  qed
qed

lemma resolve_hot_fields_ok:
  assumes "resolve_hot_fields address tp fs (fc, P) = ((fc', P'), xs)"
    and "hot_table keys n (field_ids_of (pi_field_ids P)) (pi_field_postings P)" "caches_ok U tp mc fc P"
  shows "\<exists>ids ps. P' = P\<lparr>pi_field_ids := ids, pi_field_postings := ps\<rparr> \<and>
    hot_table keys n (field_ids_of ids) ps \<and> resolves (field_ids_of ids) (field_pairs fs) xs \<and>
    caches_ok U tp mc fc' P' \<and>
    (\<forall>s tp' v. tp' \<noteq> tp \<longrightarrow> fc' s = Some (tp', v) \<longrightarrow> fc s = Some (tp', v))"
proof -
  let ?slot = "field_cache_slot tp address"
  obtain Q ys where fold: "foldl (intern_hot_field fs) (P, []) (enumerate 0 fs) = (Q, ys)"
    by (cases "foldl (intern_hot_field fs) (P, []) (enumerate 0 fs)")
  consider (hit) "fc ?slot = Some (tp, fs, xs)" "fc' = fc" "P' = P"
    | (miss) "fc' = fc(?slot \<mapsto> (tp, fs, ys))" "P' = Q" "xs = ys"
  proof (cases "\<exists>zs. fc ?slot = Some (tp, fs, zs)")
    case True
    then obtain zs where zs: "fc ?slot = Some (tp, fs, zs)" by blast
    then have "((fc, P), zs) = ((fc', P'), xs)" using assms(1) by (simp add: resolve_hot_fields_def Let_def)
    then show thesis using zs by (intro hit) simp_all
  next
    case False
    then have "((fc(?slot \<mapsto> (tp, fs, ys)), Q), ys) = ((fc', P'), xs)"
      using assms(1) fold by (cases "fc ?slot") (auto simp: resolve_hot_fields_def Let_def)
    then show thesis using miss by blast
  qed
  then show ?thesis
  proof cases
    case hit
    then show ?thesis using assms(2,3)
      by (intro exI [of _ "pi_field_ids P"] exI [of _ "pi_field_postings P"]) (auto simp: caches_ok_def)
  next
    case miss
    obtain ids ps where Q: "Q = P\<lparr>pi_field_ids := ids, pi_field_postings := ps\<rparr>"
      "field_ids_of (pi_field_ids P) \<subseteq>\<^sub>m field_ids_of ids" "hot_table keys n (field_ids_of ids) ps"
      "resolves (field_ids_of ids) (field_pairs fs) ys"
      using intern_hot_fields [of fs P "[]" "[]" fs Q ys, OF _ _ assms(2)] fold resolves_empty by auto
    have "caches_ok U tp mc fc' P'"
      unfolding miss(1,2) Q(1) using assms(3) Q(4) resolves_mono [OF _ Q(2)] by (auto simp: caches_ok_def)
    then show ?thesis using Q miss by (intro exI [of _ ids] exI [of _ ps]) (auto split: if_splits)
  qed
qed

lemma hot_push_range: "hot_push x = push_range x x"
  by (simp add: hot_push_def)

text \<open>Indexing record \<open>n\<close> extends the tables by it, and the caches stay right.\<close>

lemma hot_index_terms_ok:
  assumes "index_terms U r (of_nat n) (mc, P) = ((mc', P'), xs)" "rr_topic_partition (record_ref r) = tp"
    and "hot_table (term_keys U (pi_records P)) n (pi_term_ids P) (pi_term_postings P)" "n < 2 ^ 32"
    and "message r = message (ir_record (pi_records P ! n))" "caches_ok U tp mc fc P"
  shows "\<exists>ids ps. P' = P\<lparr>pi_term_ids := ids, pi_term_postings := ps\<rparr> \<and>
    hot_table (term_keys U (pi_records P)) (Suc n) ids ps \<and>
    resolves ids (set (message_terms U (message r))) xs \<and> caches_ok U tp mc' fc P' \<and>
    (\<forall>s tp' v. tp' \<noteq> tp \<longrightarrow> mc' s = Some (tp', v) \<longrightarrow> mc s = Some (tp', v))"
proof -
  obtain Q where res: "resolve_hot_terms U tp (message r) (mc, P) = ((mc', Q), xs)"
    and P': "P' = Q\<lparr>pi_term_postings := push_each (hot_push (of_nat n)) (pi_term_postings Q) xs\<rparr>"
    using assms(1,2) by (auto simp: index_terms_def split: prod.splits)
  obtain ids ps where Q: "Q = P\<lparr>pi_term_ids := ids, pi_term_postings := ps\<rparr>"
    "hot_table (term_keys U (pi_records P)) n ids ps" "resolves ids (set (message_terms U (message r))) xs"
    "caches_ok U tp mc' fc Q" "\<forall>s tp' v. tp' \<noteq> tp \<longrightarrow> mc' s = Some (tp', v) \<longrightarrow> mc s = Some (tp', v)"
    using resolve_hot_terms_ok [OF res assms(3,6)] by blast
  have "hot_table (term_keys U (pi_records P)) (Suc n) ids (push_each (hot_push (of_nat n)) ps xs)"
    unfolding hot_push_range using assms(4)
    by (rule hot_table_push [OF Q(2,3) order_refl]) (simp_all add: term_keys_def assms(5) le_antisym)
  moreover have "caches_ok U tp mc' fc P'" using Q(4) unfolding P' by (simp add: caches_ok_def)
  ultimately show ?thesis using Q P' by (intro exI [of _ ids] exI) auto
qed

lemma hot_index_fields_ok:
  assumes "index_fields address r (of_nat n) (fc, P) = ((fc', P'), xs)" "rr_topic_partition (record_ref r) = tp"
    and "hot_table (field_keys (pi_records P)) n (field_ids_of (pi_field_ids P)) (pi_field_postings P)" "n < 2 ^ 32"
    and "record_fields r = record_fields (ir_record (pi_records P ! n))" "caches_ok U tp mc fc P"
  shows "\<exists>ids ps. P' = P\<lparr>pi_field_ids := ids, pi_field_postings := ps\<rparr> \<and>
    hot_table (field_keys (pi_records P)) (Suc n) (field_ids_of ids) ps \<and>
    resolves (field_ids_of ids) (field_pairs (record_fields r)) xs \<and> caches_ok U tp mc fc' P' \<and>
    (\<forall>s tp' v. tp' \<noteq> tp \<longrightarrow> fc' s = Some (tp', v) \<longrightarrow> fc s = Some (tp', v))"
proof -
  obtain Q where res: "resolve_hot_fields address tp (record_fields r) (fc, P) = ((fc', Q), xs)"
    and P': "P' = Q\<lparr>pi_field_postings := push_each (hot_push (of_nat n)) (pi_field_postings Q) xs\<rparr>"
    using assms(1,2) by (auto simp: index_fields_def split: prod.splits)
  obtain ids ps where Q: "Q = P\<lparr>pi_field_ids := ids, pi_field_postings := ps\<rparr>"
    "hot_table (field_keys (pi_records P)) n (field_ids_of ids) ps"
    "resolves (field_ids_of ids) (field_pairs (record_fields r)) xs" "caches_ok U tp mc fc' Q"
    "\<forall>s tp' v. tp' \<noteq> tp \<longrightarrow> fc' s = Some (tp', v) \<longrightarrow> fc s = Some (tp', v)"
    using resolve_hot_fields_ok [OF res assms(3,6)] by blast
  have "hot_table (field_keys (pi_records P)) (Suc n) (field_ids_of ids) (push_each (hot_push (of_nat n)) ps xs)"
    unfolding hot_push_range using assms(4)
    by (rule hot_table_push [OF Q(2,3) order_refl]) (simp_all add: field_keys_def assms(5) le_antisym)
  moreover have "caches_ok U tp mc fc' P'" using Q(4) unfolding P' by (simp add: caches_ok_def)
  ultimately show ?thesis using Q P' by (intro exI [of _ ids] exI) auto
qed

text \<open>Publishing a range of records that repeat one message and one set of fields.\<close>

lemma publish_range_ok:
  assumes "indexed_upto U n P" "n \<le> m" "m < 2 ^ 32"
    and "resolves (pi_term_ids P) K xs" "resolves (field_ids_of (pi_field_ids P)) F ys"
    and "\<And>j. n \<le> j \<Longrightarrow> j \<le> m \<Longrightarrow> term_keys U (pi_records P) j = K \<and> field_keys (pi_records P) j = F"
  shows "indexed_upto U (Suc m) (publish_homogeneous_posting_range (of_nat n) (of_nat m) off xs ys P)"
  using assms hot_table_push [of "term_keys U (pi_records P)" n "pi_term_ids P" "pi_term_postings P" K xs m]
    hot_table_push [of "field_keys (pi_records P)" n "field_ids_of (pi_field_ids P)" "pi_field_postings P" F ys m]
  by (simp add: indexed_upto_def publish_homogeneous_posting_range_def)

section \<open>Queries are exact\<close>

text \<open>
  A partition at rest: fewer than \<open>2\<^sup>3\<^sup>2\<close> records of ascending offsets, all indexed. Messages have
  no letter that lowercasing changes although it is not uppercase.
\<close>

definition partition_ok :: "ucd \<Rightarrow> partition_index \<Rightarrow> bool" where
  "partition_ok U P \<longleftrightarrow>
     length (pi_records P) < 2 ^ 32 \<and> sorted_wrt (<) (map ir_offset (pi_records P)) \<and>
     (\<forall>r\<in>set (pi_records P). lower_stable U (message (ir_record r))) \<and>
     indexed_upto U (length (pi_records P)) P"

definition required_at :: "ucd \<Rightarrow> log_query \<Rightarrow> indexed_record list \<Rightarrow> nat \<Rightarrow> bool" where
  "required_at U q rs j \<longleftrightarrow>
     (\<forall>t\<in>set (rc_terms (required_index_constraints q)). normalize_term U t \<in> term_keys U rs j) \<and>
     (\<forall>f\<in>set (rc_fields (required_index_constraints q)). f \<in> field_keys rs j)"

lemma records_at: "map (\<lambda>x. rs ! unat x) (ordinals (\<lambda>j. Q (rs ! j)) (length rs)) = filter Q rs"
  if "length rs \<le> 2 ^ 32"
proof -
  have "unat (of_nat j :: u32) = j" if "j < length rs" for j
    using that \<open>length rs \<le> 2 ^ 32\<close> by (rule unat_u32)
  then have "map (\<lambda>x. rs ! unat x) (ordinals (\<lambda>j. Q (rs ! j)) (length rs)) =
      map ((!) rs) (filter (\<lambda>j. Q (rs ! j)) [0 ..< length rs])"
    by (simp add: ordinals_def)
  also have "\<dots> = filter Q (map ((!) rs) [0 ..< length rs])" by (simp add: filter_map comp_def)
  finally show ?thesis by (simp add: map_nth)
qed

lemma ordinals_filter: "n \<le> 2 ^ 32 \<Longrightarrow> filter (\<lambda>x. Q (unat x)) (ordinals P n) = ordinals (\<lambda>j. P j \<and> Q j) n"
  by (rule ascending_unique) (auto simp: set_ordinals ascending_ordinals sorted_wrt_filter)

text \<open>The window of ordinals that an offset range selects.\<close>

lemma record_window:
  assumes "sorted_wrt (<) (map ir_offset rs)" "ordinal_record_window rs s e = (a, b)"
  shows "a \<le> b" "b \<le> length rs"
    "j < length rs \<Longrightarrow> a \<le> j \<and> j < b \<longleftrightarrow>
       is_none_or s (\<lambda>s. s \<le> ir_offset (rs ! j)) \<and> is_none_or e (\<lambda>e. ir_offset (rs ! j) < e)"
proof -
  have "sorted_wrt (\<lambda>r t. ir_offset t < x \<longrightarrow> ir_offset r < x) rs" for x
    by (rule sorted_wrt_mono_rel [OF _ assms(1) [unfolded sorted_wrt_map]]) auto
  note pp = partition_point_nth [OF this]
  let ?s = "case s of None \<Rightarrow> 0 | Some s \<Rightarrow> partition_point (\<lambda>r. ir_offset r < s) rs"
  let ?e = "case e of None \<Rightarrow> length rs | Some e \<Rightarrow> partition_point (\<lambda>r. ir_offset r < e) rs"
  have ab: "a = min ?s ?e" "b = ?e" using assms(2) unfolding ordinal_record_window_def Let_def by blast+
  show "a \<le> b" "b \<le> length rs" using pp(1) unfolding ab by (auto split: option.splits)
  assume j: "j < length rs"
  have "?s \<le> j \<longleftrightarrow> is_none_or s (\<lambda>s. s \<le> ir_offset (rs ! j))"
    using pp(2) [OF j] by (cases s) (simp_all add: not_less [symmetric])
  moreover have "j < ?e \<longleftrightarrow> is_none_or e (\<lambda>e. ir_offset (rs ! j) < e)"
    using pp(2) [OF j] j by (cases e) simp_all
  ultimately show "a \<le> j \<and> j < b \<longleftrightarrow>
       is_none_or s (\<lambda>s. s \<le> ir_offset (rs ! j)) \<and> is_none_or e (\<lambda>e. ir_offset (rs ! j) < e)"
    unfolding ab by auto
qed

text \<open>
  Gathering the postings of constraints \<open>cs\<close>, each of which stands for a property of records.
\<close>

lemma gather_postings_cases:
  assumes "\<And>c. c \<in> set cs \<Longrightarrow> (case lookup c of None \<Rightarrow> ordinals (prop c) n = []
      | Some h \<Rightarrow> hot_ok h \<and> hot_vec h = ordinals (prop c) n)" "s \<le> e"
  shows "case gather_postings lookup s e cs of
      None \<Rightarrow> \<exists>c\<in>set cs. filter (in_window s e) (ordinals (prop c) n) = []
    | Some hs \<Rightarrow> list_all2 (\<lambda>c h. hot_ok h \<and> hot_vec h = ordinals (prop c) n) cs hs"
  using assms(1)
proof (induction cs)
  case (Cons c cs)
  show ?case
  proof (cases "lookup c")
    case None
    then show ?thesis using Cons.prems [of c] by simp
  next
    case (Some h)
    then have h: "hot_ok h" "hot_vec h = ordinals (prop c) n" using Cons.prems [of c] by simp_all
    show ?thesis
    proof (cases "is_empty_in h s e")
      case True
      then show ?thesis using Some is_empty_in_sound [OF h(1) assms(2) True] h(2) by simp
    next
      case False
      then show ?thesis using Cons Some h by (auto split: option.splits)
    qed
  qed
qed simp

lemma table_lookup:
  assumes "hot_table keys n ids ps"
  shows "case Option.bind (ids k) (list_get ps) of None \<Rightarrow> ordinals (\<lambda>j. k \<in> keys j) n = []
    | Some h \<Rightarrow> hot_ok h \<and> hot_vec h = ordinals (\<lambda>j. k \<in> keys j) n"
proof (cases "ids k")
  case None
  then show ?thesis using assms by (auto simp: hot_table_def ordinals_def filter_empty_conv)
next
  case (Some i)
  then show ?thesis using assms by (simp add: hot_table_def list_get_def)
qed

lemma matches_at:
  assumes "ucd_sane U" "stable_query U q" "partition_ok U P" "j < length (pi_records P)"
    and "\<not> rc_impossible (required_index_constraints q)"
    and "ordinal_record_window (pi_records P) (q_start_offset q) (q_end_offset q) = (a, b)"
  shows "query_matches U rx q (durable_view (ir_record (pi_records P ! j))) \<longleftrightarrow>
    (a \<le> j \<and> j < b \<and> required_at U q (pi_records P) j) \<and>
    (needs_record_filter q \<longrightarrow> matches_index_candidate U rx q (durable_view (ir_record (pi_records P ! j))))"
proof -
  let ?r = "pi_records P ! j" and ?c = "required_index_constraints q"
  let ?v = "durable_view (ir_record ?r)"
  have r: "lower_stable U (message (ir_record ?r))" and asc: "sorted_wrt (<) (map ir_offset (pi_records P))"
    using assms(3,4) by (simp_all add: partition_ok_def)
  have "normalize_term U t \<in> term_keys U (pi_records P) j \<longleftrightarrow> message_has_term U (view_message ?v) t"
    if "t \<in> set (rc_terms ?c)" for t
    using message_has_term_normalized [OF assms(1) r, of t] assms(2) that
    by (simp add: stable_query_def term_keys_def)
  moreover have "f \<in> field_keys (pi_records P) j \<longleftrightarrow> f \<in> set (view_fields ?v)" for f
    by (simp add: field_keys_def)
  ultimately have req: "required_at U q (pi_records P) j \<longleftrightarrow> satisfies_constraints U ?c ?v"
    using assms(5) by (auto simp: required_at_def satisfies_constraints_def)
  have win: "a \<le> j \<and> j < b \<longleftrightarrow> offset_matches q (view_offset ?v)"
    using record_window(3) [OF asc assms(6,4)] by (simp add: offset_matches_def)
  show ?thesis
  proof (cases "needs_record_filter q")
    case True
    then show ?thesis using candidate_matches_iff [of U rx q ?v] req win
      by (auto simp: matches_index_candidate_def)
  next
    case False
    then have "timestamp_matches q (view_timestamp ?v)" "cursor_matches q ?v"
      "predicate_is_index_only_conjunction (q_predicate q)"
      by (auto simp: needs_record_filter_def timestamp_matches_def cursor_matches_def)
    then show ?thesis using False index_only_matches_iff [of q U rx ?v] req win by auto
  qed
qed

abbreviation matching :: "ucd \<Rightarrow> regex_match \<Rightarrow> log_query \<Rightarrow> partition_index \<Rightarrow> u32 list" where
  "matching U rx q P \<equiv>
     ordinals (\<lambda>j. query_matches U rx q (durable_view (ir_record (pi_records P ! j)))) (length (pi_records P))"

definition ordered_ordinals :: "log_query \<Rightarrow> partition_index \<Rightarrow> u32 list \<Rightarrow> u32 list" where
  "ordered_ordinals q P xs = truncate_opt (q_limit q)
     (if q_sort q = SortTimestamp
      then sort_by (\<lambda>l r. query_compare q (durable_view (ir_record (pi_records P ! unat l)))
             (durable_view (ir_record (pi_records P ! unat r)))) xs
      else in_order (q_order q = NewestFirst) xs)"

text \<open>Candidates that satisfy the required constraints in the window are finished exactly.\<close>

lemma finish_exact:
  assumes "ucd_sane U" "stable_query U q" "partition_ok U P"
    and "\<not> rc_impossible (required_index_constraints q)"
    and "ordinal_record_window (pi_records P) (q_start_offset q) (q_end_offset q) = (a, b)"
    and C: "C = ordinals (\<lambda>j. a \<le> j \<and> j < b \<and> required_at U q (pi_records P) j) (length (pi_records P))"
  shows "finish_ordinals U rx q P C = ordered_ordinals q P (matching U rx q P)"
    "\<not> needs_record_filter q \<Longrightarrow> C = matching U rx q P"
proof -
  let ?rs = "pi_records P"
  have n: "length ?rs \<le> 2 ^ 32" using assms(3) by (simp add: partition_ok_def)
  note at = matches_at [OF assms(1-3) _ assms(4,5)]
  show plain: "C = matching U rx q P" if "\<not> needs_record_filter q"
    unfolding C by (rule ordinals_cong) (use at that in simp)
  have "filter (\<lambda>x. unat x < length ?rs \<and> matches_index_candidate U rx q (durable_view (ir_record (?rs ! unat x)))) C =
      matching U rx q P" if needs: "needs_record_filter q"
    unfolding C
    by (subst ordinals_filter [OF n, of "\<lambda>j. j < length ?rs \<and> matches_index_candidate U rx q (durable_view (ir_record (?rs ! j)))"])
       (rule ordinals_cong, use at needs in auto)
  then show "finish_ordinals U rx q P C = ordered_ordinals q P (matching U rx q P)"
    using plain by (cases "needs_record_filter q")
      (simp_all add: finish_ordinals_def ordered_ordinals_def in_order_def Let_def)
qed

lemma ordered_ordinals_select:
  assumes "partition_ok U P"
  shows "map (\<lambda>x. ir_record (pi_records P ! unat x))
      (filter (\<lambda>x. unat x < length (pi_records P)) (ordered_ordinals q P (matching U rx q P))) =
    select U rx durable_view q (map ir_record (pi_records P))"
proof -
  let ?rs = "map ir_record (pi_records P)" and ?M = "matching U rx q P"
  let ?Q = "\<lambda>r. query_matches U rx q (durable_view r)"
  have n: "length ?rs \<le> 2 ^ 32" and asc: "sorted_wrt (<) (map (view_offset \<circ> durable_view) ?rs)"
    using assms by (simp_all add: partition_ok_def comp_def)
  have M: "unat x < length ?rs" if "x \<in> set ?M" for x using that n by (simp add: set_ordinals)
  have "map (\<lambda>x. ?rs ! unat x) ?M = filter ?Q ?rs"
    using records_at [OF n, of ?Q] ordinals_cong [of "length ?rs"
        "\<lambda>j. ?Q (ir_record (pi_records P ! j))" "\<lambda>j. ?Q (?rs ! j)"] by simp
  moreover have "map (\<lambda>x. ?rs ! unat x) ?M = map (\<lambda>x. ir_record (pi_records P ! unat x)) ?M"
    using M by (intro map_cong refl) simp
  ultimately have recs: "map (\<lambda>x. ir_record (pi_records P ! unat x)) ?M = filter ?Q ?rs" by simp
  have sub: "set (ordered_ordinals q P ?M) \<subseteq> set ?M"
    by (auto simp: ordered_ordinals_def truncate_opt_def in_order_def dest: in_set_takeD split: option.splits if_splits)
  have "map (\<lambda>x. ir_record (pi_records P ! unat x))
      (filter (\<lambda>x. unat x < length (pi_records P)) (ordered_ordinals q P ?M)) =
      map (\<lambda>x. ir_record (pi_records P ! unat x)) (ordered_ordinals q P ?M)"
    using sub M by (subst filter_True) auto
  also have "\<dots> = select U rx durable_view q ?rs"
  proof (cases "q_sort q = SortTimestamp")
    case True
    have "map (\<lambda>x. ir_record (pi_records P ! unat x)) (ordered_ordinals q P ?M) = truncate_opt (q_limit q)
        (sort_by (\<lambda>l r. query_compare q (durable_view l) (durable_view r))
          (map (\<lambda>x. ir_record (pi_records P ! unat x)) ?M))"
      using True sort_by_map [of "\<lambda>x. ir_record (pi_records P ! unat x)"
          "\<lambda>l r. query_compare q (durable_view l) (durable_view r)" ?M]
      by (simp add: ordered_ordinals_def truncate_opt_def take_map [symmetric] split: option.splits)
    then show ?thesis unfolding recs by (simp add: select_def)
  next
    case False
    let ?X = "in_order (q_order q = NewestFirst) (filter ?Q ?rs)"
    have sort: "q_sort q = SortOffset" using False by (cases "q_sort q") simp_all
    have "map (\<lambda>x. ir_record (pi_records P ! unat x)) (ordered_ordinals q P ?M) = truncate_opt (q_limit q) ?X"
      using False unfolding recs [symmetric]
      by (simp add: ordered_ordinals_def truncate_opt_def take_map in_order_map split: option.splits)
    moreover have "sorted_wrt (\<lambda>a b. view_offset (durable_view a) < view_offset (durable_view b)) (filter ?Q ?rs)"
      using asc by (simp add: sorted_wrt_map sorted_wrt_filter)
    then have "sorted_wrt (\<lambda>a b. query_compare q (durable_view a) (durable_view b) = Less) ?X"
      using sort by (simp add: in_order_def offset_compare sorted_wrt_rev)
    moreover have d: "distinct (map (view_offset \<circ> durable_view) ?rs)"
      using asc strict_sorted_iff by blast
    then have dX: "distinct (map (view_offset \<circ> durable_view) ?X)"
      unfolding distinct_in_order by (rule distinct_map_filter)
    ultimately have "map (\<lambda>x. ir_record (pi_records P ! unat x)) (ordered_ordinals q P ?M) =
        select U rx durable_view q ?X" by (simp add: select_sorted)
    also have "\<dots> = select U rx durable_view q ?rs" by (rule select_cong_matches [OF d dX]) auto
    finally show ?thesis .
  qed
  finally show ?thesis .
qed

lemma ordered_none: "ordered_ordinals q P [] = []"
  by (simp add: ordered_ordinals_def sort_by_def in_order_def truncate_opt_def split: option.splits)

lemma matching_none:
  "(\<And>j. j < length (pi_records P) \<Longrightarrow> \<not> query_matches U rx q (durable_view (ir_record (pi_records P ! j)))) \<Longrightarrow>
   matching U rx q P = []"
  by (simp add: ordinals_def filter_empty_conv)

lemma collect_ordered_range_window:
  "collect_ordered_range (a, b) order limit =
   truncate_opt limit (in_order (order = NewestFirst) (map of_nat [a ..< b]))"
  by (cases order; cases limit)
     (auto simp: collect_ordered_range_def Let_def truncate_opt_def in_order_def take_map rev_map min_def)

lemma window_word:
  assumes "b \<le> n" "n < 2 ^ 32" "a \<le> b"
  shows "in_window (of_nat a) (of_nat b) x \<longleftrightarrow> a \<le> unat x \<and> unat x < b"
  using assms by (simp add: word_le_nat_alt word_less_nat_alt unat_of_nat)

lemma list_all2_right:
  assumes "list_all2 R xs ys" "y \<in> set ys"
  shows "\<exists>x\<in>set xs. R x y"
  using assms by (induction rule: list_all2_induct) auto

text \<open>The shortest posting, intersected with the others, leaves the ordinals with all properties.\<close>

lemma intersect_required:
  assumes posts: "list_all2 (\<lambda>p h. hot_ok h \<and> hot_vec h = ordinals p n) ps hs" and n: "n \<le> 2 ^ 32"
    and hs: "set (h # rest) = set hs"
  shows "intersect_all (intersect_ordinal_runs s e) (collect_in h s e OldestFirst None) rest =
    filter (in_window s e) (ordinals (\<lambda>j. \<forall>p\<in>set ps. p j) n)"
proof -
  have ok: "\<forall>k\<in>set (h # rest). hot_ok k" unfolding hs using list_all2_right [OF posts] by blast
  have first: "collect_in h s e OldestFirst None = filter (in_window s e) (hot_vec h)"
    using collect_in_window [of h s e OldestFirst None] ok by (simp add: in_order_def truncate_opt_def)
  have asc: "ascending (hot_vec h)" using ok by (simp add: hot_ok_def ascending_hot_vec)
  have members: "(\<forall>k\<in>set (h # rest). x \<in> set (hot_vec k)) \<longleftrightarrow> unat x < n \<and> (\<forall>p\<in>set ps. p (unat x))" for x
  proof -
    have "(\<forall>k\<in>set hs. x \<in> set (hot_vec k)) \<longleftrightarrow> (\<forall>p\<in>set ps. x \<in> set (ordinals p n))"
      using posts by (induction rule: list_all2_induct) (simp_all only: list.set ball_simps simp_thms)
    moreover have "ps \<noteq> []" using hs posts by auto
    then obtain p where "p \<in> set ps" by (cases ps) auto
    ultimately show ?thesis unfolding hs by (auto simp: set_ordinals [OF n])
  qed
  have "intersect_all (intersect_ordinal_runs s e) (filter (in_window s e) (hot_vec h)) rest =
      filter (\<lambda>x. \<forall>k\<in>set rest. x \<in> set (hot_vec k)) (filter (in_window s e) (hot_vec h))"
    by (rule hot_sets.all_within) (use asc ok in \<open>auto intro: sorted_wrt_filter\<close>)
  also have "\<dots> = filter (in_window s e) (ordinals (\<lambda>j. \<forall>p\<in>set ps. p j) n)"
  proof (rule ascending_unique)
    show "ascending (filter (\<lambda>x. \<forall>k\<in>set rest. x \<in> set (hot_vec k)) (filter (in_window s e) (hot_vec h)))"
      using asc by (intro sorted_wrt_filter)
    show "ascending (filter (in_window s e) (ordinals (\<lambda>j. \<forall>p\<in>set ps. p j) n))"
      using ascending_ordinals [OF n] by (intro sorted_wrt_filter)
    show "set (filter (\<lambda>x. \<forall>k\<in>set rest. x \<in> set (hot_vec k)) (filter (in_window s e) (hot_vec h))) =
      set (filter (in_window s e) (ordinals (\<lambda>j. \<forall>p\<in>set ps. p j) n))"
      using members by (auto simp: set_ordinals [OF n])
  qed
  finally show ?thesis unfolding first .
qed

text \<open>What a partition's postings say about the required terms and fields.\<close>

abbreviation has_term :: "ucd \<Rightarrow> partition_index \<Rightarrow> rstr \<Rightarrow> nat \<Rightarrow> bool" where
  "has_term U P t j \<equiv> normalize_term U t \<in> term_keys U (pi_records P) j"

abbreviation has_field :: "partition_index \<Rightarrow> rstr \<times> rstr \<Rightarrow> nat \<Rightarrow> bool" where
  "has_field P f j \<equiv> f \<in> field_keys (pi_records P) j"

lemma gather_required:
  assumes "partition_ok U P" "s \<le> e"
  shows "case gather_postings (term_posting U P) s e ts of
      None \<Rightarrow> \<exists>t\<in>set ts. filter (in_window s e) (ordinals (has_term U P t) (length (pi_records P))) = []
    | Some hs \<Rightarrow> list_all2 (\<lambda>t h. hot_ok h \<and> hot_vec h = ordinals (has_term U P t) (length (pi_records P))) ts hs"
    "case gather_postings (field_posting P) s e fs of
      None \<Rightarrow> \<exists>f\<in>set fs. filter (in_window s e) (ordinals (has_field P f) (length (pi_records P))) = []
    | Some hs \<Rightarrow> list_all2 (\<lambda>f h. hot_ok h \<and> hot_vec h = ordinals (has_field P f) (length (pi_records P))) fs hs"
proof -
  have tabs: "hot_table (term_keys U (pi_records P)) (length (pi_records P)) (pi_term_ids P) (pi_term_postings P)"
    "hot_table (field_keys (pi_records P)) (length (pi_records P)) (field_ids_of (pi_field_ids P)) (pi_field_postings P)"
    using assms(1) by (simp_all add: partition_ok_def indexed_upto_def)
  show "case gather_postings (term_posting U P) s e ts of
      None \<Rightarrow> \<exists>t\<in>set ts. filter (in_window s e) (ordinals (has_term U P t) (length (pi_records P))) = []
    | Some hs \<Rightarrow> list_all2 (\<lambda>t h. hot_ok h \<and> hot_vec h = ordinals (has_term U P t) (length (pi_records P))) ts hs"
    by (rule gather_postings_cases [OF _ assms(2)])
       (use table_lookup [OF tabs(1)] in \<open>simp add: term_posting_def\<close>)
  have "field_posting P = (\<lambda>f. Option.bind (field_ids_of (pi_field_ids P) f) (list_get (pi_field_postings P)))"
    by (auto simp: field_posting_def field_ids_of_def)
  then show "case gather_postings (field_posting P) s e fs of
      None \<Rightarrow> \<exists>f\<in>set fs. filter (in_window s e) (ordinals (has_field P f) (length (pi_records P))) = []
    | Some hs \<Rightarrow> list_all2 (\<lambda>f h. hot_ok h \<and> hot_vec h = ordinals (has_field P f) (length (pi_records P))) fs hs"
    using table_lookup [OF tabs(2)] by (intro gather_postings_cases [OF _ assms(2)]) simp
qed

lemma window_words:
  assumes "partition_ok U P" "ordinal_record_window (pi_records P) s e = (a, b)"
  shows "(of_nat a :: u32) \<le> of_nat b"
    "in_window (of_nat a) (of_nat b) x \<longleftrightarrow> a \<le> unat x \<and> unat x < b"
proof -
  have n: "length (pi_records P) < 2 ^ 32" and asc: "sorted_wrt (<) (map ir_offset (pi_records P))"
    using assms(1) by (simp_all add: partition_ok_def)
  note ab = record_window(1,2) [OF asc assms(2)]
  show "(of_nat a :: u32) \<le> of_nat b" using ab n by (simp add: word_le_nat_alt unat_of_nat)
  show "in_window (of_nat a) (of_nat b) x \<longleftrightarrow> a \<le> unat x \<and> unat x < b"
    using window_word [OF ab(2) n ab(1)] .
qed

lemma window_ordinals:
  assumes "partition_ok U P" "ordinal_record_window (pi_records P) s e = (a, b)"
  shows "filter (in_window (of_nat a) (of_nat b)) (ordinals p (length (pi_records P))) =
    ordinals (\<lambda>j. a \<le> j \<and> j < b \<and> p j) (length (pi_records P))"
proof -
  have n: "length (pi_records P) \<le> 2 ^ 32" using assms(1) by (simp add: partition_ok_def)
  have "filter (in_window (of_nat a) (of_nat b)) (ordinals p (length (pi_records P))) =
      filter (\<lambda>x. a \<le> unat x \<and> unat x < b) (ordinals p (length (pi_records P)))"
    using window_words(2) [OF assms] by (intro filter_cong refl) simp
  also have "\<dots> = ordinals (\<lambda>j. a \<le> j \<and> j < b \<and> p j) (length (pi_records P))"
    using ordinals_filter [OF n, of "\<lambda>j. a \<le> j \<and> j < b" p] by (simp add: conj_ac)
  finally show ?thesis .
qed

lemma unmatched_gather:
  assumes "ucd_sane U" "stable_query U q" "partition_ok U P"
    and "ordinal_record_window (pi_records P) (q_start_offset q) (q_end_offset q) = (a, b)"
    and "\<not> rc_impossible (required_index_constraints q)"
  shows "gather_postings (term_posting U P) (of_nat a) (of_nat b) (rc_terms (required_index_constraints q)) = None \<Longrightarrow>
      matching U rx q P = []"
    "gather_postings (field_posting P) (of_nat a) (of_nat b) (rc_fields (required_index_constraints q)) = None \<Longrightarrow>
      matching U rx q P = []"
proof -
  note at = matches_at [OF assms(1-3) _ assms(5,4)]
  have none: "\<not> (a \<le> j \<and> j < b \<and> p j)" if "j < length (pi_records P)"
    "filter (in_window (of_nat a) (of_nat b)) (ordinals p (length (pi_records P))) = []" for p j
    using that unfolding window_ordinals [OF assms(3,4)] by (auto simp: ordinals_def filter_empty_conv)
  note gather = gather_required [OF assms(3) window_words(1) [OF assms(3,4)]]
  show "matching U rx q P = []"
    if *: "gather_postings (term_posting U P) (of_nat a) (of_nat b) (rc_terms (required_index_constraints q)) = None"
  proof (rule matching_none)
    fix j assume j: "j < length (pi_records P)"
    obtain t where "t \<in> set (rc_terms (required_index_constraints q))"
      "filter (in_window (of_nat a) (of_nat b)) (ordinals (has_term U P t) (length (pi_records P))) = []"
      using gather(1) [of "rc_terms (required_index_constraints q)"] * by auto
    then show "\<not> query_matches U rx q (durable_view (ir_record (pi_records P ! j)))"
      using none [OF j, of "has_term U P t"] at [OF j] unfolding required_at_def by blast
  qed
  show "matching U rx q P = []"
    if *: "gather_postings (field_posting P) (of_nat a) (of_nat b) (rc_fields (required_index_constraints q)) = None"
  proof (rule matching_none)
    fix j assume j: "j < length (pi_records P)"
    obtain f where "f \<in> set (rc_fields (required_index_constraints q))"
      "filter (in_window (of_nat a) (of_nat b)) (ordinals (has_field P f) (length (pi_records P))) = []"
      using gather(2) [of "rc_fields (required_index_constraints q)"] * by auto
    then show "\<not> query_matches U rx q (durable_view (ir_record (pi_records P ! j)))"
      using none [OF j, of "has_field P f"] at [OF j] unfolding required_at_def by blast
  qed
qed

text \<open>Postings sorted by cardinality are intersected to the candidates.\<close>

lemma gathered_candidates:
  assumes "partition_ok U P" "ordinal_record_window (pi_records P) s e = (a, b)"
    and "gather_postings (term_posting U P) (of_nat a) (of_nat b) (rc_terms (required_index_constraints q)) = Some ts"
    and "gather_postings (field_posting P) (of_nat a) (of_nat b) (rc_fields (required_index_constraints q)) = Some fs"
    and "set (h # hs) = set (ts @ fs)"
  shows "intersect_all (intersect_ordinal_runs (of_nat a) (of_nat b))
      (collect_in h (of_nat a) (of_nat b) OldestFirst None) hs =
    ordinals (\<lambda>j. a \<le> j \<and> j < b \<and> required_at U q (pi_records P) j) (length (pi_records P)) \<and> hot_ok h"
proof -
  let ?c = "required_index_constraints q" and ?n = "length (pi_records P)"
  let ?ps = "map (has_term U P) (rc_terms ?c) @ map (has_field P) (rc_fields ?c)"
  have n: "?n \<le> 2 ^ 32" using assms(1) by (simp add: partition_ok_def)
  note gather = gather_required [OF assms(1) window_words(1) [OF assms(1,2)]]
  have "list_all2 (\<lambda>p h. hot_ok h \<and> hot_vec h = ordinals p ?n) (map (has_term U P) (rc_terms ?c)) ts"
    "list_all2 (\<lambda>p h. hot_ok h \<and> hot_vec h = ordinals p ?n) (map (has_field P) (rc_fields ?c)) fs"
    using gather(1) [of "rc_terms ?c"] gather(2) [of "rc_fields ?c"] assms(3,4) by (simp_all add: list_all2_map1)
  then have posts: "list_all2 (\<lambda>p h. hot_ok h \<and> hot_vec h = ordinals p ?n) ?ps (ts @ fs)"
    by (rule list_all2_appendI)
  have "hot_ok h" using list_all2_right [OF posts, of h] assms(5) by auto
  from posts have "intersect_all (intersect_ordinal_runs (of_nat a) (of_nat b))
      (collect_in h (of_nat a) (of_nat b) OldestFirst None) hs =
      filter (in_window (of_nat a) (of_nat b)) (ordinals (\<lambda>j. \<forall>p\<in>set ?ps. p j) ?n)"
    using n assms(5) by (rule intersect_required)
  also have "\<dots> = ordinals (\<lambda>j. a \<le> j \<and> j < b \<and> (\<forall>p\<in>set ?ps. p j)) ?n"
    by (rule window_ordinals [OF assms(1,2)])
  also have "(\<lambda>j. a \<le> j \<and> j < b \<and> (\<forall>p\<in>set ?ps. p j)) =
      (\<lambda>j. a \<le> j \<and> j < b \<and> required_at U q (pi_records P) j)"
    by (auto simp: required_at_def fun_eq_iff)
  finally show ?thesis using \<open>hot_ok h\<close> by blast
qed

lemma filter_interval: "b \<le> n \<Longrightarrow> filter (\<lambda>j. a \<le> j \<and> j < b) [0 ..< n] = [a ..< b]" for b :: nat
  by (rule sorted_distinct_set_unique) (auto intro: sorted_wrt_filter)

lemma gather_empty: "gather_postings lookup s e cs = Some [] \<longleftrightarrow> cs = []"
  by (cases cs) (auto split: option.splits if_splits)

lemma gathered_exact:
  assumes "ucd_sane U" "stable_query U q" "partition_ok U P"
    and win: "ordinal_record_window (pi_records P) (q_start_offset q) (q_end_offset q) = (a, b)"
    and imp: "\<not> rc_impossible (required_index_constraints q)"
    and ts: "gather_postings (term_posting U P) (of_nat a) (of_nat b) (rc_terms (required_index_constraints q)) = Some ts"
    and fs: "gather_postings (field_posting P) (of_nat a) (of_nat b) (rc_fields (required_index_constraints q)) = Some fs"
    and sorted: "sort_by (\<lambda>a b. cmp (hp_cardinality a) (hp_cardinality b)) (ts @ fs) = hs"
  shows "hs = [] \<Longrightarrow> \<not> needs_record_filter q \<Longrightarrow>
      collect_ordered_range (a, b) (q_order q) (q_limit q) = ordered_ordinals q P (matching U rx q P)"
    "hs = [] \<Longrightarrow> finish_ordinals U rx q P (map of_nat [a ..< b]) = ordered_ordinals q P (matching U rx q P)"
    "hs = [h] \<Longrightarrow> \<not> needs_record_filter q \<Longrightarrow>
      collect_in h (of_nat a) (of_nat b) (q_order q) (q_limit q) = ordered_ordinals q P (matching U rx q P)"
    "hs = h # hs' \<Longrightarrow> finish_ordinals U rx q P (intersect_all (intersect_ordinal_runs (of_nat a) (of_nat b))
        (collect_in h (of_nat a) (of_nat b) OldestFirst None) hs') = ordered_ordinals q P (matching U rx q P)"
proof -
  let ?c = "required_index_constraints q" and ?rs = "pi_records P"
  let ?C = "ordinals (\<lambda>j. a \<le> j \<and> j < b \<and> required_at U q ?rs j) (length ?rs)"
  note finish = finish_exact [OF assms(1-3) imp win, of ?C, OF refl]
  have set: "set hs = set (ts @ fs)" using sorted by (metis set_sort_by)
  have ab: "b \<le> length ?rs" using record_window(2) [OF _ win] assms(3) by (simp add: partition_ok_def)
  have plain: "ordered_ordinals q P (matching U rx q P) = truncate_opt (q_limit q) (in_order (q_order q = NewestFirst) ?C)"
    if "\<not> needs_record_filter q"
    using finish(2) [OF that] that by (auto simp: ordered_ordinals_def needs_record_filter_def)
  show "finish_ordinals U rx q P (intersect_all (intersect_ordinal_runs (of_nat a) (of_nat b))
        (collect_in h (of_nat a) (of_nat b) OldestFirst None) hs') = ordered_ordinals q P (matching U rx q P)"
    if "hs = h # hs'"
    using gathered_candidates [OF assms(3) win ts fs] set that finish(1) by simp
  show "collect_in h (of_nat a) (of_nat b) (q_order q) (q_limit q) = ordered_ordinals q P (matching U rx q P)"
    if h: "hs = [h]" and f: "\<not> needs_record_filter q"
  proof -
    note cand = gathered_candidates [OF assms(3) win ts fs, of h "[]"]
    have "filter (in_window (of_nat a) (of_nat b)) (hot_vec h) = ?C"
      using cand set h collect_in_window [of h "of_nat a" "of_nat b" OldestFirst None]
      by (simp add: in_order_def truncate_opt_def)
    then show ?thesis
      using cand set h collect_in_window [of h "of_nat a" "of_nat b" "q_order q" "q_limit q"] plain [OF f] by simp
  qed
  have whole: "map of_nat [a ..< b] = ?C" if "hs = []"
  proof -
    have "rc_terms ?c = []" "rc_fields ?c = []" using set that ts fs by (simp_all add: gather_empty)
    then show ?thesis using filter_interval [OF ab, of a] by (simp add: ordinals_def required_at_def)
  qed
  show "finish_ordinals U rx q P (map of_nat [a ..< b]) = ordered_ordinals q P (matching U rx q P)" if "hs = []"
    using whole [OF that] finish(1) by simp
  show "collect_ordered_range (a, b) (q_order q) (q_limit q) = ordered_ordinals q P (matching U rx q P)"
    if "hs = []" "\<not> needs_record_filter q"
    using whole [OF that(1)] plain [OF that(2)] by (simp add: collect_ordered_range_window)
qed

lemma query_ordinals_exact:
  assumes "ucd_sane U" "stable_query U q" "partition_ok U P"
  shows "query_ordinals U rx q P = ordered_ordinals q P (matching U rx q P)"
proof -
  let ?rs = "pi_records P" and ?c = "required_index_constraints q" and ?M = "matching U rx q P"
  let ?n = "length ?rs"
  obtain a b where win: "ordinal_record_window ?rs (q_start_offset q) (q_end_offset q) = (a, b)"
    by (cases "ordinal_record_window ?rs (q_start_offset q) (q_end_offset q)")
  show ?thesis
  proof (cases "q_limit q = Some 0 \<or> has_invalid_range q \<or> rc_impossible ?c")
    case none: True
    have "ordered_ordinals q P ?M = []"
    proof (cases "q_limit q = Some 0")
      case False
      have "?M = []"
        by (rule matching_none)
           (use none False invalid_range_no_match matches_satisfies_required in \<open>auto simp: satisfies_constraints_def\<close>)
      then show ?thesis by (simp only: ordered_none)
    qed (simp add: ordered_ordinals_def truncate_opt_def)
    then show ?thesis using none by (auto simp: query_ordinals_def Let_def)
  next
    case go: False
    show ?thesis
    proof (cases "gather_postings (term_posting U P) (of_nat a) (of_nat b) (rc_terms ?c)")
      case None
      then show ?thesis using go win unmatched_gather(1) [OF assms win, of rx] ordered_none [of q P]
        by (simp add: query_ordinals_def Let_def)
    next
      case (Some ts)
      show ?thesis
      proof (cases "gather_postings (field_posting P) (of_nat a) (of_nat b) (rc_fields ?c)")
        case None
        then show ?thesis using go win Some unmatched_gather(2) [OF assms win, of rx] ordered_none [of q P]
          by (simp add: query_ordinals_def Let_def)
      next
        case fs: (Some fs)
        then show ?thesis using go win Some gathered_exact [OF assms win _ Some fs refl, where rx = rx]
          by (simp add: query_ordinals_def Let_def split: list.splits)
      qed
    qed
  qed
qed

lemma query_partition_exact:
  assumes "ucd_sane U" "stable_query U q" "partition_ok U P"
  shows "query_partition U rx q P = select U rx durable_view q (map ir_record (pi_records P))"
  unfolding query_partition_def query_ordinals_exact [OF assms] by (rule ordered_ordinals_select [OF assms(3)])

end
