(* ===== verification/Block_Codec.thy ===== *)
theory Block_Codec
  imports Directory_Codec
begin

text \<open>
  The byte primitives of structural blocks (\<^verbatim>\<open>src/structural.rs\<close>): variable-length integers,
  length-prefixed sections and text. They follow the format of \<open>Index_Codec\<close> with errors of
  their own; what that theory reads, they read alike.
\<close>

section \<open>Writing\<close>

function write_multibyte_varint :: "u64 \<Rightarrow> bytes" where
  "write_multibyte_varint v =
     (if v \<ge> 0x80 then (((ucast v :: u8) AND 0x7f) OR 0x80) # write_multibyte_varint (drop_bit 7 v)
      else [ucast v])"
  by pat_completeness auto
termination
proof (relation "measure unat")
  fix v :: u64 assume "v \<ge> 0x80"
  then have "0x80 \<le> unat v" by (simp add: word_le_nat_alt)
  then show "(drop_bit 7 v, v) \<in> measure unat"
    by (simp add: drop_bit_eq_div unat_div)
qed simp

declare write_multibyte_varint.simps [simp del]

definition block_write_varint :: "u64 \<Rightarrow> bytes" where
  "block_write_varint v = (if v < 0x80 then [ucast v] else write_multibyte_varint v)"

definition block_append_bytes :: "bytes \<Rightarrow> bytes log_db_result" where
  "block_append_bytes bs =
     and_then (ok_or (try_word (length bs)) RecordTooLarge) (\<lambda>n. Inr (block_write_varint n @ bs))"

section \<open>Reading\<close>

definition block_read_byte :: "(log_db_error, u8) decoder" where
  "block_read_byte bs cur =
     (if cur < length bs then Inr (bs ! cur, cur + 1)
      else Inl (InvalidBlockEncoding ''truncated block''))"

function block_varint_loop :: "bytes \<Rightarrow> nat \<Rightarrow> u64 \<Rightarrow> nat \<Rightarrow> log_db_error + (u64 \<times> nat)" where
  "block_varint_loop bs cur value shift =
     (case block_read_byte bs cur of
        Inl e \<Rightarrow> Inl e
      | Inr (byte, cur) \<Rightarrow>
          let payload = ucast (byte AND 0x7f) :: u64 in
          if shift > 63 \<or> (shift = 63 \<and> payload > 1)
          then Inl (InvalidBlockEncoding ''varint overflow'')
          else let value = value OR push_bit shift payload in
            if byte AND 0x80 = 0 then Inr (value, cur)
            else if shift + 7 > 63 then Inl (InvalidBlockEncoding ''varint is too long'')
            else block_varint_loop bs cur value (shift + 7))"
  by pat_completeness auto
termination by (relation "measure (\<lambda>(_, _, _, shift). 64 - shift)") auto

declare block_varint_loop.simps [simp del]

definition block_read_varint :: "(log_db_error, u64) decoder" where
  "block_read_varint bs cur = block_varint_loop bs cur 0 0"

definition block_read_u32 :: "(log_db_error, u32) decoder" where
  "block_read_u32 bs cur =
     and_then (block_read_varint bs cur) (\<lambda>(v, cur).
     and_then (ok_or (try_word (unat v)) (InvalidBlockEncoding ''value does not fit u32''))
       (\<lambda>w. Inr (w, cur)))"

definition block_read_usize :: "(log_db_error, nat) decoder" where
  "block_read_usize bs cur = and_then (block_read_varint bs cur) (\<lambda>(v, cur). Inr (unat v, cur))"

definition block_read_bytes :: "(log_db_error, bytes) decoder" where
  "block_read_bytes bs cur =
     and_then (block_read_usize bs cur) (\<lambda>(n, cur).
     if cur + n > usize_max then Inl (InvalidBlockEncoding ''section length overflow'')
     else case slice_get bs cur (cur + n) of
       None \<Rightarrow> Inl (InvalidBlockEncoding ''truncated section'')
     | Some v \<Rightarrow> Inr (v, cur + n))"

definition read_section :: "(log_db_error, bytes) decoder" where
  "read_section = block_read_bytes"

definition block_decode_text :: "bytes \<Rightarrow> rstr log_db_result" where
  "block_decode_text bs = ok_or (from_utf8 bs) (InvalidBlockEncoding ''invalid UTF-8 text'')"

definition read_arc_str :: "(log_db_error, rstr) decoder" where
  "read_arc_str bs cur =
     and_then (block_read_bytes bs cur) (\<lambda>(v, cur).
     and_then (ok_or (from_utf8 v) (InvalidBlockEncoding ''embedded string is invalid UTF-8'')) (\<lambda>s. Inr (s, cur)))"

definition ensure_count_within :: "nat \<Rightarrow> nat \<Rightarrow> string \<Rightarrow> unit log_db_result" where
  "ensure_count_within n remaining label =
     (if n \<le> remaining then Inr () else Inl (InvalidBlockEncoding label))"

definition require_consumed :: "bytes \<Rightarrow> nat \<Rightarrow> unit log_db_result" where
  "require_consumed bs cur =
     (if cur = length bs then Inr () else Inl (InvalidBlockEncoding ''trailing component bytes''))"

definition validate_u32_length :: "nat \<Rightarrow> unit log_db_result" where
  "validate_u32_length n = (if n < 2 ^ 32 then Inr () else Inl RecordTooLarge)"

section \<open>Round trips\<close>

lemma multibyte_varint: "write_multibyte_varint v = write_varint v"
proof (induction v rule: write_multibyte_varint.induct)
  case (1 v)
  then show ?case by (simp add: write_multibyte_varint.simps [of v] write_varint.simps [of v])
qed

lemma block_write_varint_eq: "block_write_varint v = write_varint v"
  by (simp add: block_write_varint_def multibyte_varint write_varint.simps [of v] linorder_not_less [symmetric])

lemma block_append_bytes_eq: "block_append_bytes = append_bytes"
  by (simp add: fun_eq_iff block_append_bytes_def append_bytes_def block_write_varint_eq)

lemma block_varint_loop_Inr:
  "block_varint_loop bs cur acc shift = Inr r \<longleftrightarrow> read_varint_loop bs cur acc shift = Inr r"
proof (induction bs cur acc shift rule: block_varint_loop.induct)
  case (1 bs cur acc shift)
  show ?case
  proof (cases "cur < length bs")
    case True
    let ?b = "bs ! cur"
    have r: "block_read_byte bs cur = Inr (?b, cur + 1)" "read_byte bs cur = Inr (?b, cur + 1)"
      using True by (simp_all add: block_read_byte_def read_byte_def)
    show ?thesis using "1" [OF r(1) refl refl] r
      by (simp add: block_varint_loop.simps [of bs cur] read_varint_loop.simps [of bs cur] Let_def)
  qed (simp add: block_varint_loop.simps [of bs cur] read_varint_loop.simps [of bs cur]
      block_read_byte_def read_byte_def)
qed

lemma block_read_varint_Inr: "block_read_varint bs cur = Inr r \<longleftrightarrow> read_varint bs cur = Inr r"
  by (simp add: block_read_varint_def read_varint_def block_varint_loop_Inr)

lemma block_read_u32_Inr: "block_read_u32 bs cur = Inr r \<longleftrightarrow> read_u32 bs cur = Inr r"
  by (cases r) (auto simp: block_read_u32_def read_u32_def and_then_eq_Inr block_read_varint_Inr)

lemma block_read_usize_Inr: "block_read_usize bs cur = Inr r \<longleftrightarrow> read_usize bs cur = Inr r"
  by (cases r) (auto simp: block_read_usize_def read_usize_def and_then_eq_Inr block_read_varint_Inr)

lemma block_read_bytes_Inr: "block_read_bytes bs cur = Inr r \<longleftrightarrow> read_bytes bs cur = Inr r"
  by (auto simp: block_read_bytes_def read_bytes_def and_then_eq_Inr block_read_usize_Inr split: option.splits)

lemma block_read_varint_write [codec_simps]:
  "bytes_at bs cur (block_write_varint v) \<Longrightarrow> block_read_varint bs cur = Inr (v, cur + length (block_write_varint v))"
  by (simp add: block_read_varint_Inr block_write_varint_eq read_varint_write)

interpretation block_varint: codec block_write_varint block_read_varint "\<lambda>_. True"
  by unfold_locales (rule block_read_varint_write)

lemma block_read_u32_write [codec_simps]:
  "bytes_at bs cur (block_write_varint (ucast (v :: u32))) \<Longrightarrow>
   block_read_u32 bs cur = Inr (v, cur + length (block_write_varint (ucast v)))"
  by (simp add: block_read_u32_Inr block_write_varint_eq read_u32_write)

lemma block_read_usize_write [codec_simps]:
  "bytes_at bs cur (block_write_varint v) \<Longrightarrow> block_read_usize bs cur = Inr (unat v, cur + length (block_write_varint v))"
  by (simp add: block_read_usize_Inr block_write_varint_eq read_usize_write)

lemma block_read_bytes_append:
  "block_append_bytes v = Inr e \<Longrightarrow> bytes_at bs cur e \<Longrightarrow> length bs \<le> usize_max \<Longrightarrow>
   block_read_bytes bs cur = Inr (v, cur + length e)"
  by (simp add: block_read_bytes_Inr block_append_bytes_eq read_bytes_append)

interpretation section_codec: fallible_codec block_append_bytes block_read_bytes "\<lambda>_. True"
  by unfold_locales (rule block_read_bytes_append)

lemma read_arc_str_append:
  "block_append_bytes (str_bytes t) = Inr e \<Longrightarrow> valid_str t \<Longrightarrow> bytes_at bs cur e \<Longrightarrow> length bs \<le> usize_max \<Longrightarrow>
   read_arc_str bs cur = Inr (t, cur + length e)"
  by (simp add: read_arc_str_def block_read_bytes_append from_utf8_str_bytes)

interpretation arc_str_codec: fallible_codec "\<lambda>t. block_append_bytes (str_bytes t)" read_arc_str valid_str
  by unfold_locales (rule read_arc_str_append)

lemma block_write_varint_length: "0 < length (block_write_varint v)"
  using write_varint_length [of v] by (simp add: block_write_varint_eq)

lemma block_append_bytes_length:
  "block_append_bytes bs = Inr e \<Longrightarrow> length bs < length e"
  using block_write_varint_length by (auto simp: block_append_bytes_def and_then_eq_Inr)

end
