(* ===== verification/Frame_Index.thy ===== *)
theory Frame_Index
  imports Block_Codec Block_Index "HOL-Library.Product_Lexorder"
begin

text \<open>
  The candidate index embedded in a structural frame (\<^verbatim>\<open>EmbeddedFrameIndex\<close> in
  \<^verbatim>\<open>src/structural.rs\<close>): bit-packed columns of template and field-set identifiers,
  membership filters, the lookup of candidate records and the byte format.

  The source panics where a column refers to an identifier outside its dictionary; a lookup
  is \<open>None\<close> then. A decoded index is validated, so that lookups in it never are.
\<close>

section \<open>Membership filters\<close>

abbreviation EMBEDDED_MEMBERSHIP_FILTER_WORDS :: nat where "EMBEDDED_MEMBERSHIP_FILTER_WORDS \<equiv> 128"

type_synonym membership_filter = "u64 list"

definition fnv_bytes :: "u64 \<Rightarrow> bytes \<Rightarrow> u64" where
  "fnv_bytes = foldl (\<lambda>h b. (h XOR ucast b) * 0x100000001b3)"

definition membership_hash :: "bytes \<Rightarrow> u64" where
  "membership_hash v = fnv_bytes 0xcbf29ce484222325 v"

definition membership_pair_hash :: "bytes \<Rightarrow> bytes \<Rightarrow> u64" where
  "membership_pair_hash k v = fnv_bytes ((membership_hash k XOR 0xff) * 0x100000001b3) v"

definition membership_new :: membership_filter where
  "membership_new = replicate EMBEDDED_MEMBERSHIP_FILTER_WORDS 0"

definition membership_slots :: "u64 \<Rightarrow> nat list" where
  "membership_slots h =
     map (\<lambda>c. unat (c AND 8191)) [h, word_rotl 29 h XOR 0x9e3779b97f4a7c15]"

definition insert_hash :: "membership_filter \<Rightarrow> u64 \<Rightarrow> membership_filter" where
  "insert_hash ws h = foldl filter_set ws (membership_slots h)"

definition might_contain_hash :: "membership_filter \<Rightarrow> u64 \<Rightarrow> bool" where
  "might_contain_hash ws h = list_all (filter_get ws) (membership_slots h)"

definition membership_insert :: "membership_filter \<Rightarrow> bytes \<Rightarrow> membership_filter" where
  "membership_insert ws v = insert_hash ws (membership_hash v)"

definition insert_pair :: "membership_filter \<Rightarrow> bytes \<Rightarrow> bytes \<Rightarrow> membership_filter" where
  "insert_pair ws k v = insert_hash ws (membership_pair_hash k v)"

definition might_contain :: "membership_filter \<Rightarrow> bytes \<Rightarrow> bool" where
  "might_contain ws v = might_contain_hash ws (membership_hash v)"

definition might_contain_pair :: "membership_filter \<Rightarrow> bytes \<Rightarrow> bytes \<Rightarrow> bool" where
  "might_contain_pair ws k v = might_contain_hash ws (membership_pair_hash k v)"

definition encode_membership_filter :: "membership_filter \<Rightarrow> bytes" where
  "encode_membership_filter ws = concat (map (le_bytes 8) ws)"

definition decode_membership_filter :: "(log_db_error, membership_filter) decoder" where
  "decode_membership_filter bs cur =
     (let byte_count = EMBEDDED_MEMBERSHIP_FILTER_WORDS * 8 in
      if cur + byte_count > usize_max then Inl (InvalidBlockEncoding ''membership filter length overflow'')
      else case slice_get bs cur (cur + byte_count) of
        None \<Rightarrow> Inl (InvalidBlockEncoding ''truncated membership filter'')
      | Some v \<Rightarrow> Inr (map le_word (chunks_exact 8 v), cur + byte_count))"

section \<open>Packed identifiers\<close>

record packed_id_column =
  pc_bits_per_id :: nat
  pc_values :: bytes

definition leading_zeros :: "'a::len word \<Rightarrow> nat" where
  "leading_zeros w = length (takeWhile (\<lambda>i. \<not> bit w i) (rev [0 ..< LENGTH('a)]))"

definition bits_for_dictionary :: "u32 \<Rightarrow> nat" where
  "bits_for_dictionary n = (if n \<le> 1 then 0 else 32 - leading_zeros (n - 1))"

text \<open>Whole bytes leave the bit buffer.\<close>

fun flush_bytes :: "u64 \<Rightarrow> nat \<Rightarrow> bytes \<times> u64 \<times> nat" where
  "flush_bytes buffered n =
     (if n \<ge> 8 then let (bs, rest) = flush_bytes (drop_bit 8 buffered) (n - 8) in (ucast buffered # bs, rest)
      else ([], buffered, n))"

declare flush_bytes.simps [simp del]

fun pack_loop :: "nat \<Rightarrow> u32 list \<Rightarrow> u64 \<Rightarrow> nat \<Rightarrow> bytes" where
  "pack_loop bits [] buffered n = (if n > 0 then [ucast buffered] else [])"
| "pack_loop bits (x # xs) buffered n =
     (let (bs, buffered, n) = flush_bytes (buffered OR push_bit n (ucast x)) (n + bits)
      in bs @ pack_loop bits xs buffered n)"

definition pack_ids :: "u32 list \<Rightarrow> u32 \<Rightarrow> packed_id_column log_db_result" where
  "pack_ids ids dictionary_count =
     (if ids = [] \<and> dictionary_count \<noteq> 0
        \<or> ids \<noteq> [] \<and> (dictionary_count = 0 \<or> unat dictionary_count > length ids)
        \<or> list_ex (\<lambda>i. i \<ge> dictionary_count) ids
      then Inl (InvalidBlockEncoding ''invalid packed ID dictionary'')
      else let bits = bits_for_dictionary dictionary_count in
        if bits = 0 then Inr \<lparr>pc_bits_per_id = bits, pc_values = []\<rparr>
        else if length ids * bits > usize_max then Inl RecordTooLarge
        else Inr \<lparr>pc_bits_per_id = bits, pc_values = pack_loop bits ids 0 0\<rparr>)"

definition packed_window :: "bytes \<Rightarrow> nat \<Rightarrow> u64" where
  "packed_window vs b =
     foldl (\<lambda>w i. case list_get vs (b + i) of None \<Rightarrow> w | Some v \<Rightarrow> w OR push_bit (i * 8) (ucast v)) 0 [0 ..< 5]"

definition packed_id :: "packed_id_column \<Rightarrow> u32 \<Rightarrow> u32" where
  "packed_id c ordinal =
     (if pc_bits_per_id c = 0 then 0
      else let b = unat ordinal * pc_bits_per_id c
           in ucast (drop_bit (b mod 8) (packed_window (pc_values c) (b div 8)) AND (push_bit (pc_bits_per_id c) 1 - 1)))"

definition matching_packed_ids :: "packed_id_column \<Rightarrow> u32 \<Rightarrow> u32 \<Rightarrow> u32 list \<Rightarrow> u32 list log_db_result option" where
  "matching_packed_ids c record_count dictionary_count wanted =
     (if wanted = [] \<or> record_count = 0 then Some (Inr [])
      else if list_ex (\<lambda>i. i \<ge> dictionary_count) wanted
      then Some (Inl (InvalidBlockEncoding ''embedded locator ID is out of range''))
      else let slots = foldl (\<lambda>s i. s[unat i := True]) (replicate (unat dictionary_count) False) wanted in
        map_option (\<lambda>hits. Inr (map fst (filter snd hits)))
          (those (map (\<lambda>x. map_option (Pair x) (list_get slots (unat (packed_id c x)))) (word_range 0 record_count))))"

definition encode_packed_column :: "packed_id_column \<Rightarrow> u32 \<Rightarrow> bytes log_db_result" where
  "encode_packed_column c dictionary_count =
     and_then (block_append_bytes (pc_values c)) (\<lambda>vs.
       Inr (block_write_varint (ucast dictionary_count) @ [of_nat (pc_bits_per_id c)] @ vs))"

definition decode_packed_column :: "u32 \<Rightarrow> (log_db_error, u32 \<times> packed_id_column) decoder" where
  "decode_packed_column record_count bs cur =
     and_then (block_read_u32 bs cur) (\<lambda>(dictionary_count, cur).
     if record_count = 0 \<and> dictionary_count \<noteq> 0
       \<or> record_count \<noteq> 0 \<and> (dictionary_count = 0 \<or> dictionary_count > record_count)
     then Inl (InvalidBlockEncoding ''invalid embedded dictionary count'')
     else and_then (block_read_byte bs cur) (\<lambda>(bits, cur).
     if unat bits \<noteq> bits_for_dictionary dictionary_count
     then Inl (InvalidBlockEncoding ''noncanonical packed ID width'')
     else and_then (block_read_bytes bs cur) (\<lambda>(vs, cur).
     let bit_count = unat record_count * unat bits; expected = (bit_count + 7) div 8;
         c = \<lparr>pc_bits_per_id = unat bits, pc_values = vs\<rparr> in
     if bit_count > usize_max then Inl RecordTooLarge
     else if length vs \<noteq> expected then Inl (InvalidBlockEncoding ''packed ID column length mismatch'')
     else if list_ex (\<lambda>x. packed_id c x \<ge> dictionary_count) (word_range 0 record_count)
     then Inl (InvalidBlockEncoding ''packed ID exceeds its dictionary'')
     else if vs \<noteq> [] \<and> expected > 0 \<and> bit_count mod 8 \<noteq> 0 \<and> drop_bit (bit_count mod 8) (last vs) \<noteq> 0
     then Inl (InvalidBlockEncoding ''packed ID padding is nonzero'')
     else Inr ((dictionary_count, c), cur))))"

section \<open>Sorted identifiers\<close>

fun encode_id_deltas :: "u32 \<Rightarrow> u32 list \<Rightarrow> bytes" where
  "encode_id_deltas previous [] = []"
| "encode_id_deltas previous (x # xs) = block_write_varint (ucast (x - previous)) @ encode_id_deltas x xs"

definition encode_sorted_ids :: "u32 list \<Rightarrow> u32 \<Rightarrow> bytes log_db_result" where
  "encode_sorted_ids ids upper_bound =
     (if ids = [] \<or> list_ex (\<lambda>w. w ! 0 \<ge> w ! 1) (windows 2 ids) \<or> ids \<noteq> [] \<and> last ids \<ge> upper_bound
      then Inl (InvalidBlockEncoding ''embedded locator IDs are invalid'')
      else and_then (ok_or (try_word (length ids)) RecordTooLarge) (\<lambda>n.
        Inr (block_write_varint n @ block_write_varint (ucast (hd ids)) @ encode_id_deltas (hd ids) (tl ids))))"

definition encode_optional_sorted_ids :: "u32 list \<Rightarrow> u32 \<Rightarrow> bytes log_db_result" where
  "encode_optional_sorted_ids ids upper_bound =
     (if ids = [] then Inr (block_write_varint 0) else encode_sorted_ids ids upper_bound)"

fun decode_id_deltas :: "u32 \<Rightarrow> nat \<Rightarrow> u32 \<Rightarrow> (log_db_error, u32 list) decoder" where
  "decode_id_deltas upper_bound 0 previous bs cur = Inr ([], cur)"
| "decode_id_deltas upper_bound (Suc n) previous bs cur =
     and_then (block_read_u32 bs cur) (\<lambda>(delta, cur).
     if delta = 0 then Inl (InvalidBlockEncoding ''embedded locator IDs are not ordered'')
     else case checked_add previous delta of
       None \<Rightarrow> Inl (InvalidBlockEncoding ''embedded locator ID is out of range'')
     | Some x \<Rightarrow>
         if x < upper_bound
         then and_then (decode_id_deltas upper_bound n x bs cur) (\<lambda>(xs, cur). Inr (x # xs, cur))
         else Inl (InvalidBlockEncoding ''embedded locator ID is out of range''))"

definition decode_sorted_ids_with_count :: "u32 \<Rightarrow> nat \<Rightarrow> (log_db_error, u32 list) decoder" where
  "decode_sorted_ids_with_count upper_bound n bs cur =
     (if n = 0 \<or> n > length bs - cur then Inl (InvalidBlockEncoding ''invalid embedded locator count'')
      else and_then (block_read_u32 bs cur) (\<lambda>(x, cur).
        if x \<ge> upper_bound then Inl (InvalidBlockEncoding ''embedded locator ID is out of range'')
        else and_then (decode_id_deltas upper_bound (n - 1) x bs cur) (\<lambda>(xs, cur). Inr (x # xs, cur))))"

definition decode_sorted_ids :: "u32 \<Rightarrow> (log_db_error, u32 list) decoder" where
  "decode_sorted_ids upper_bound bs cur =
     and_then (block_read_usize bs cur) (\<lambda>(n, cur). decode_sorted_ids_with_count upper_bound n bs cur)"

definition decode_optional_sorted_ids :: "u32 \<Rightarrow> (log_db_error, u32 list) decoder" where
  "decode_optional_sorted_ids upper_bound bs cur =
     and_then (block_read_usize bs cur) (\<lambda>(n, cur).
       if n = 0 then Inr ([], cur) else decode_sorted_ids_with_count upper_bound n bs cur)"

section \<open>The index\<close>

record embedded_frame_index =
  fi_record_count :: u32
  fi_layout_count :: u32
  fi_layout_ids :: packed_id_column
  fi_residual_layout_ids :: "u32 list"
  fi_term_membership :: membership_filter
  fi_terms :: "(rstr \<times> u32 list) list"
  fi_field_set_count :: u32
  fi_field_set_ids :: packed_id_column
  fi_field_membership :: membership_filter
  fi_fields :: "((rstr \<times> rstr) \<times> u32 list) list"

definition normalize_index_term :: "ucd \<Rightarrow> rstr \<Rightarrow> rstr" where
  "normalize_index_term U t = (if list_ex (char_is_uppercase U) t then to_lowercase U t else t)"

text \<open>\<^verbatim>\<open>expect\<close> on the result of \<^verbatim>\<open>matching_packed_ids\<close>.\<close>

definition expect_ok :: "'a log_db_result option \<Rightarrow> 'a option" where
  "expect_ok r = Option.bind r (\<lambda>r. case r of Inl _ \<Rightarrow> None | Inr v \<Rightarrow> Some v)"

definition term_candidate_ordinals :: "ucd \<Rightarrow> embedded_frame_index \<Rightarrow> rstr \<Rightarrow> u32 list option" where
  "term_candidate_ordinals U fi t =
     (let n = normalize_index_term U t in
      if \<not> might_contain (fi_term_membership fi) (str_bytes n) then Some []
      else let wanted = fi_residual_layout_ids fi @
             (case binary_search_by_key fst n (fi_terms fi) of
                Inl _ \<Rightarrow> [] | Inr i \<Rightarrow> snd (fi_terms fi ! i))
           in expect_ok (matching_packed_ids (fi_layout_ids fi) (fi_record_count fi) (fi_layout_count fi)
                (remdups_adj (sort wanted))))"

definition field_candidate_ordinals :: "embedded_frame_index \<Rightarrow> rstr \<Rightarrow> rstr \<Rightarrow> u32 list option" where
  "field_candidate_ordinals fi k v =
     (if \<not> might_contain_pair (fi_field_membership fi) (str_bytes k) (str_bytes v) then Some []
      else case binary_search_by_key fst (k, v) (fi_fields fi) of
        Inl _ \<Rightarrow> Some (word_range 0 (fi_record_count fi))
      | Inr i \<Rightarrow> expect_ok (matching_packed_ids (fi_field_set_ids fi) (fi_record_count fi)
          (fi_field_set_count fi) (snd (fi_fields fi ! i))))"

subsection \<open>Byte format\<close>

abbreviation EMBEDDED_INDEX_MAGIC :: bytes where
  "EMBEDDED_INDEX_MAGIC \<equiv> [0x53, 0x4c, 0x49, 0x31]"

definition encode_term_locator :: "u32 \<Rightarrow> rstr \<times> u32 list \<Rightarrow> bytes log_db_result" where
  "encode_term_locator layout_count = (\<lambda>(t, ids).
     and_then (block_append_bytes (str_bytes t)) (\<lambda>a.
     and_then (encode_sorted_ids ids layout_count) (\<lambda>b. Inr (a @ b))))"

definition encode_field_locator :: "u32 \<Rightarrow> (rstr \<times> rstr) \<times> u32 list \<Rightarrow> bytes log_db_result" where
  "encode_field_locator set_count = (\<lambda>((k, v), ids).
     and_then (block_append_bytes (str_bytes k)) (\<lambda>a.
     and_then (block_append_bytes (str_bytes v)) (\<lambda>b.
     and_then (encode_sorted_ids ids set_count) (\<lambda>c. Inr (a @ b @ c)))))"

definition encode_locators :: "('a \<Rightarrow> bytes log_db_result) \<Rightarrow> 'a list \<Rightarrow> bytes log_db_result" where
  "encode_locators enc xs =
     and_then (ok_or (try_word (length xs)) RecordTooLarge) (\<lambda>n.
     and_then (collect_results enc xs) (\<lambda>es. Inr (block_write_varint n @ concat es)))"

definition frame_index_encode :: "embedded_frame_index \<Rightarrow> bytes log_db_result" where
  "frame_index_encode fi =
     and_then (encode_packed_column (fi_layout_ids fi) (fi_layout_count fi)) (\<lambda>layouts.
     and_then (encode_optional_sorted_ids (fi_residual_layout_ids fi) (fi_layout_count fi)) (\<lambda>residual.
     and_then (encode_locators (encode_term_locator (fi_layout_count fi)) (fi_terms fi)) (\<lambda>terms.
     and_then (encode_packed_column (fi_field_set_ids fi) (fi_field_set_count fi)) (\<lambda>sets.
     and_then (encode_locators (encode_field_locator (fi_field_set_count fi)) (fi_fields fi)) (\<lambda>fields.
       Inr (EMBEDDED_INDEX_MAGIC @ block_write_varint (ucast (fi_record_count fi)) @ layouts @ residual @
         encode_membership_filter (fi_term_membership fi) @ terms @ sets @
         encode_membership_filter (fi_field_membership fi) @ fields))))))"

text \<open>The locators are decoded in a loop that compares every key with the one before.\<close>

fun decode_term_locators :: "u32 \<Rightarrow> nat \<Rightarrow> rstr option \<Rightarrow> (log_db_error, (rstr \<times> u32 list) list) decoder" where
  "decode_term_locators layout_count 0 previous bs cur = Inr ([], cur)"
| "decode_term_locators layout_count (Suc n) previous bs cur =
     and_then (read_arc_str bs cur) (\<lambda>(t, cur).
     and_then (decode_sorted_ids layout_count bs cur) (\<lambda>(ids, cur).
     if (case previous of None \<Rightarrow> False | Some p \<Rightarrow> p \<ge> t)
     then Inl (InvalidBlockEncoding ''embedded terms are not ordered'')
     else and_then (decode_term_locators layout_count n (Some t) bs cur) (\<lambda>(ls, cur). Inr ((t, ids) # ls, cur))))"

fun decode_field_locators ::
  "u32 \<Rightarrow> nat \<Rightarrow> (rstr \<times> rstr) option \<Rightarrow> (log_db_error, ((rstr \<times> rstr) \<times> u32 list) list) decoder" where
  "decode_field_locators set_count 0 previous bs cur = Inr ([], cur)"
| "decode_field_locators set_count (Suc n) previous bs cur =
     and_then (read_arc_str bs cur) (\<lambda>(k, cur).
     and_then (read_arc_str bs cur) (\<lambda>(v, cur).
     and_then (decode_sorted_ids set_count bs cur) (\<lambda>(ids, cur).
     if (case previous of None \<Rightarrow> False | Some p \<Rightarrow> p \<ge> (k, v))
     then Inl (InvalidBlockEncoding ''embedded fields are not ordered'')
     else and_then (decode_field_locators set_count n (Some (k, v)) bs cur)
       (\<lambda>(ls, cur). Inr (((k, v), ids) # ls, cur)))))"

definition decode_locators :: "string \<Rightarrow> (nat \<Rightarrow> (log_db_error, 'a) decoder) \<Rightarrow> (log_db_error, 'a) decoder" where
  "decode_locators label dec bs cur =
     and_then (block_read_usize bs cur) (\<lambda>(n, cur).
     and_then (ensure_count_within n (length bs - cur) label) (\<lambda>_. dec n bs cur))"

definition frame_index_decode :: "bytes \<Rightarrow> embedded_frame_index log_db_result" where
  "frame_index_decode bs =
     (if slice_get bs 0 (length EMBEDDED_INDEX_MAGIC) \<noteq> Some EMBEDDED_INDEX_MAGIC
      then Inl (InvalidBlockEncoding ''missing embedded index magic'')
      else and_then (block_read_u32 bs (length EMBEDDED_INDEX_MAGIC)) (\<lambda>(record_count, cur).
        and_then (decode_packed_column record_count bs cur) (\<lambda>((layout_count, layouts), cur).
        and_then (decode_optional_sorted_ids layout_count bs cur) (\<lambda>(residual, cur).
        and_then (decode_membership_filter bs cur) (\<lambda>(term_membership, cur).
        and_then (decode_locators ''embedded term count'' (\<lambda>n. decode_term_locators layout_count n None) bs cur)
          (\<lambda>(terms, cur).
        and_then (decode_packed_column record_count bs cur) (\<lambda>((set_count, sets), cur).
        and_then (decode_membership_filter bs cur) (\<lambda>(field_membership, cur).
        and_then (decode_locators ''embedded field count'' (\<lambda>n. decode_field_locators set_count n None) bs cur)
          (\<lambda>(fields, cur).
        and_then (require_consumed bs cur) (\<lambda>_.
          Inr \<lparr>fi_record_count = record_count, fi_layout_count = layout_count, fi_layout_ids = layouts,
            fi_residual_layout_ids = residual, fi_term_membership = term_membership, fi_terms = terms,
            fi_field_set_count = set_count, fi_field_set_ids = sets,
            fi_field_membership = field_membership, fi_fields = fields\<rparr>))))))))))"

definition decode_embedded_frame_index_section :: "bytes \<Rightarrow> nat \<Rightarrow> embedded_frame_index log_db_result" where
  "decode_embedded_frame_index_section bs expected_record_count =
     and_then (frame_index_decode bs) (\<lambda>fi.
       if unat (fi_record_count fi) \<noteq> expected_record_count
       then Inl (InvalidBlockEncoding ''embedded index record count mismatch'')
       else Inr fi)"
section \<open>Membership filters have no false negatives\<close>

lemma membership_slots_less: "s \<in> set (membership_slots h) \<Longrightarrow> s div 64 < EMBEDDED_MEMBERSHIP_FILTER_WORDS"
proof -
  have "unat (c AND 8191) < 8192" for c :: u64
  proof -
    have "c AND 8191 = take_bit 13 c" using take_bit_eq_mask [of 13 c] by (simp add: mask_eq_exp_minus_1)
    then show ?thesis using take_bit_nat_less_exp [of 13 "unat c"] by (simp add: unsigned_take_bit_eq)
  qed
  then show "s \<in> set (membership_slots h) \<Longrightarrow> s div 64 < EMBEDDED_MEMBERSHIP_FILTER_WORDS"
    by (auto simp: membership_slots_def less_mult_imp_div_less)
qed

lemma insert_hash_get:
  assumes "length ws = EMBEDDED_MEMBERSHIP_FILTER_WORDS"
  shows "length (insert_hash ws h) = EMBEDDED_MEMBERSHIP_FILTER_WORDS"
    and "filter_get (insert_hash ws h) t \<longleftrightarrow> filter_get ws t \<or> t \<in> set (membership_slots h)"
  using filter_fold [of "membership_slots h" ws t] membership_slots_less [of _ h] assms
  by (simp_all add: insert_hash_def)

lemma might_contain_inserted:
  assumes "length ws = EMBEDDED_MEMBERSHIP_FILTER_WORDS"
  shows "might_contain_hash (insert_hash ws h) h"
    and "might_contain_hash ws g \<Longrightarrow> might_contain_hash (insert_hash ws h) g"
  using insert_hash_get(2) [OF assms] by (auto simp: might_contain_hash_def list_all_iff)

section \<open>Packed identifiers read back\<close>

lemma leading_zeros_bit:
  fixes w :: "'a::len word"
  assumes "LENGTH('a) - leading_zeros w \<le> i"
  shows "\<not> bit w i"
proof (cases "i < LENGTH('a)")
  case True
  let ?is = "rev [0 ..< LENGTH('a)]" and ?j = "LENGTH('a) - 1 - i"
  have "leading_zeros w \<le> LENGTH('a)"
    unfolding leading_zeros_def by (metis length_takeWhile_le length_rev length_upt diff_zero)
  then have j: "?j < leading_zeros w" "?is ! ?j = i" using assms True by (auto simp: rev_nth)
  then have "takeWhile (\<lambda>i. \<not> bit w i) ?is ! ?j = i"
    using takeWhile_nth [of ?j "\<lambda>i. \<not> bit w i" ?is] by (simp add: leading_zeros_def)
  moreover have "takeWhile (\<lambda>i. \<not> bit w i) ?is ! ?j \<in> set (takeWhile (\<lambda>i. \<not> bit w i) ?is)"
    using j by (intro nth_mem) (simp add: leading_zeros_def)
  ultimately show ?thesis using set_takeWhileD by fastforce
qed (use bit_imp_le_length in fastforce)

lemma bits_for_dictionary_bound: "bits_for_dictionary n \<le> 32"
  by (simp add: bits_for_dictionary_def)

lemma high_bits_less:
  fixes w :: "'a::len word"
  assumes "\<forall>i\<ge>b. \<not> bit w i"
  shows "unat w < 2 ^ b"
proof -
  have "take_bit b w = w" by (rule bit_word_eqI) (use assms in \<open>simp add: bit_take_bit_iff, meson leI\<close>)
  then have "unat w = take_bit b (unat w)" by (metis unsigned_take_bit_eq)
  then show ?thesis by (metis take_bit_nat_less_exp)
qed

lemma less_high_bits:
  fixes w :: "'a::len word"
  assumes "unat w < 2 ^ b" "b \<le> i"
  shows "\<not> bit w i"
proof -
  have "take_bit b w = w" using assms(1) by (rule take_bit_small)
  then show ?thesis using assms(2) by (metis bit_take_bit_iff not_less)
qed

lemma dictionary_id_bits:
  assumes "x < n" "bits_for_dictionary n \<le> i"
  shows "\<not> bit x i"
proof (cases "n \<le> 1")
  case True
  then have "unat x < 1" using assms(1) unfolding word_less_nat_alt word_le_nat_alt by simp
  then show ?thesis using less_high_bits [of x 0 i] by simp
next
  case False
  have "unat (n - 1) < 2 ^ bits_for_dictionary n"
    using leading_zeros_bit [of "n - 1"] False by (intro high_bits_less) (simp add: bits_for_dictionary_def)
  moreover have "unat x \<le> unat (n - 1)"
    using assms(1) False by (simp add: word_less_nat_alt word_le_nat_alt unat_sub)
  ultimately show ?thesis using assms(2) by (intro less_high_bits [of x "bits_for_dictionary n"]) simp_all
qed

text \<open>Bit \<open>k\<close> of a byte string, counted from the lowest bit of the first byte.\<close>

definition bytes_bit :: "bytes \<Rightarrow> nat \<Rightarrow> bool" where
  "bytes_bit bs k \<longleftrightarrow> k div 8 < length bs \<and> bit (bs ! (k div 8)) (k mod 8)"

lemma bytes_bit_Nil [simp]: "\<not> bytes_bit [] k"
  by (simp add: bytes_bit_def)

lemma bytes_bit_Cons: "bytes_bit (b # bs) k \<longleftrightarrow> (if k < 8 then bit b k else bytes_bit bs (k - 8))"
  by (auto simp: bytes_bit_def nth_Cons' div_if mod_if le_div_geq le_mod_geq)

lemma bytes_bit_append: "bytes_bit (as @ bs) k \<longleftrightarrow> (if k < 8 * length as then bytes_bit as k else bytes_bit bs (k - 8 * length as))"
  by (induction as arbitrary: k) (auto simp: bytes_bit_Cons)

lemma flush_bytes_bits:
  assumes "flush_bytes buffered n = (bs, buffered', n')"
  shows "n' = n mod 8 \<and> length bs = n div 8 \<and> buffered' = drop_bit (8 * (n div 8)) buffered \<and>
    (\<forall>k < 8 * (n div 8). bytes_bit bs k \<longleftrightarrow> bit buffered k)"
  using assms
proof (induction buffered n arbitrary: bs rule: flush_bytes.induct)
  case (1 buffered n)
  show ?case
  proof (cases "8 \<le> n")
    case True
    obtain cs where f: "flush_bytes (drop_bit 8 buffered) (n - 8) = (cs, buffered', n')" "bs = ucast buffered # cs"
      using "1.prems" True by (simp add: flush_bytes.simps [of buffered n] split: prod.splits)
    have n: "n div 8 = Suc ((n - 8) div 8)" "n mod 8 = (n - 8) mod 8"
      using True by (simp_all add: le_div_geq le_mod_geq)
    note IH = "1.IH" [OF True f(1)]
    have "bytes_bit bs k \<longleftrightarrow> bit buffered k" if "k < 8 * (n div 8)" for k
      using IH that f(2) n(1) by (auto simp: bytes_bit_Cons bit_simps)
    moreover have "drop_bit (8 * ((n - 8) div 8)) (drop_bit 8 buffered) = drop_bit (8 * (n div 8)) buffered"
      by (simp only: n drop_bit_drop_bit) (simp add: add.commute)
    ultimately show ?thesis using IH f(2) n by simp
  next
    case False
    then show ?thesis using "1.prems" by (simp add: flush_bytes.simps [of buffered n])
  qed
qed

lemma pack_loop_bits:
  assumes "0 < bits" "bits \<le> 32" "n < 8" "\<forall>i. bit buffered i \<longrightarrow> i < n" "\<forall>x\<in>set xs. \<forall>i. bit x i \<longrightarrow> i < bits"
  shows "length (pack_loop bits xs buffered n) = (n + length xs * bits + 7) div 8 \<and>
    (\<forall>k. bytes_bit (pack_loop bits xs buffered n) k \<longleftrightarrow>
      (if k < n then bit buffered k
       else (k - n) div bits < length xs \<and> bit (xs ! ((k - n) div bits)) ((k - n) mod bits)))"
  using assms(3-5)
proof (induction xs arbitrary: buffered n)
  case Nil
  then have "bytes_bit [ucast buffered] k \<longleftrightarrow> k < n \<and> bit buffered k" for k
    by (auto simp: bytes_bit_Cons bit_simps)
  moreover have "(n + 7) div 8 = (if 0 < n then 1 else 0)" using Nil.prems(1) by (cases n) simp_all
  ultimately show ?case by auto
next
  case (Cons x xs)
  let ?m = "n + bits"
  define B where "B = buffered OR push_bit n (ucast x)"
  obtain bs b' n' where f: "flush_bytes B ?m = (bs, b', n')" by (cases "flush_bytes B ?m") auto
  define L where "L = length bs"
  note fl = flush_bytes_bits [OF f]
  have b: "bit B k \<longleftrightarrow> (if k < n then bit buffered k else k < ?m \<and> bit x (k - n))" for k
  proof -
    have "bit (push_bit n (ucast x :: u64)) k \<longleftrightarrow> n \<le> k \<and> bit x (k - n)"
    proof -
      have "k < 64" if "bit x (k - n)" "n \<le> k"
        using bit_imp_le_length [OF that(1)] Cons.prems(1) that(2) by simp
      then show ?thesis by (auto simp: bit_simps dest: bit_imp_le_length)
    qed
    moreover have "k - n < bits" if "bit x (k - n)" using Cons.prems(3) that by simp
    ultimately show ?thesis using Cons.prems(2) by (auto simp: B_def bit_or_iff)
  qed
  have n': "n' < 8" "8 * L + n' = ?m" using fl by (simp_all add: L_def)
  have low: "bytes_bit bs k \<longleftrightarrow> bit B k" if "k < 8 * L" for k using fl that by (simp add: L_def)
  have b': "bit b' i \<longleftrightarrow> bit B (8 * L + i)" for i
    using fl by (simp only: bit_drop_bit_eq comp_def L_def)
  have "\<forall>i. bit b' i \<longrightarrow> i < n'" using b' b n' by auto
  then have IH: "length (pack_loop bits xs b' n') = (n' + length xs * bits + 7) div 8"
    "bytes_bit (pack_loop bits xs b' n') k \<longleftrightarrow>
      (if k < n' then bit b' k
       else (k - n') div bits < length xs \<and> bit (xs ! ((k - n') div bits)) ((k - n') mod bits))" for k
    using Cons.IH [OF n'(1)] Cons.prems(3) by simp_all
  have p: "pack_loop bits (x # xs) buffered n = bs @ pack_loop bits xs b' n'" using f by (simp add: B_def)
  have "bytes_bit (pack_loop bits (x # xs) buffered n) k \<longleftrightarrow>
      (if k < n then bit buffered k
       else (k - n) div bits < length (x # xs) \<and> bit ((x # xs) ! ((k - n) div bits)) ((k - n) mod bits))" for k
  proof (cases "k < ?m")
    case True
    have "bytes_bit (pack_loop bits (x # xs) buffered n) k \<longleftrightarrow> bit B k"
    proof (cases "k < 8 * L")
      case False
      then have "k - 8 * L < n'" using True n'(2) by simp
      then show ?thesis using False b' [of "k - 8 * L"] unfolding p bytes_bit_append by (simp add: IH(2) L_def [symmetric])
    qed (unfold p bytes_bit_append, simp add: low L_def [symmetric])
    then show ?thesis using b True by auto
  next
    case False
    then have k: "k - n = (k - ?m) + bits" "n \<le> k" by simp_all
    have "k - 8 * L - n' = k - ?m" "\<not> k < 8 * L" "\<not> k - 8 * L < n'" using False n'(2) by simp_all
    then have "bytes_bit (pack_loop bits (x # xs) buffered n) k \<longleftrightarrow>
        (k - ?m) div bits < length xs \<and> bit (xs ! ((k - ?m) div bits)) ((k - ?m) mod bits)"
      unfolding p bytes_bit_append by (simp add: IH(2) L_def [symmetric])
    moreover have "(k - n) div bits = Suc ((k - ?m) div bits)" "(k - n) mod bits = (k - ?m) mod bits"
      unfolding k(1) using assms(1) div_add_self2 [of bits "k - ?m"] by (simp_all only: mod_add_self2 Suc_eq_plus1 neq0_conv)
    ultimately show ?thesis using k(2) by (simp only: nth_Cons_Suc list.size Suc_less_eq add_Suc_right add_0_right) simp
  qed
  moreover have "(8 * L + (n' + length xs * bits + 7)) div 8 = L + (n' + length xs * bits + 7) div 8" by simp
  then have "L + (n' + length xs * bits + 7) div 8 = (n + length (x # xs) * bits + 7) div 8"
    using n'(2) by (simp add: algebra_simps)
  ultimately show ?case using IH(1) p by (simp add: L_def)
qed

lemma packed_window_bits:
  assumes "k \<le> 8"
  shows "bit (foldl (\<lambda>w i. case list_get vs (b + i) of None \<Rightarrow> w | Some v \<Rightarrow> w OR push_bit (i * 8) (ucast v)) (0 :: u64) [0 ..< k]) m
    \<longleftrightarrow> m < 8 * k \<and> bytes_bit vs (8 * b + m)"
  using assms
proof (induction k)
  case (Suc k)
  let ?w = "foldl (\<lambda>w i. case list_get vs (b + i) of None \<Rightarrow> w | Some v \<Rightarrow> w OR push_bit (i * 8) (ucast v)) (0 :: u64) [0 ..< k]"
  have new: "bit (push_bit (k * 8) (ucast v) :: u64) m \<longleftrightarrow> 8 * k \<le> m \<and> m < 8 * Suc k \<and> bit v (m mod 8)" for v :: u8
  proof (cases "8 * k \<le> m \<and> m < 8 * Suc k")
    case True
    then have "m div 8 = k" by (intro div_nat_eqI) simp_all
    then have "m - k * 8 = m mod 8" using minus_div_mult_eq_mod [of m 8] by simp
    then show ?thesis using True Suc.prems by (auto simp: bit_simps dest: bit_imp_le_length)
  qed (auto simp: bit_simps dest: bit_imp_le_length)
  have at: "(8 * b + m) div 8 = b + k" "(8 * b + m) mod 8 = m mod 8" if "8 * k \<le> m" "m < 8 * Suc k"
    using that by (intro div_nat_eqI, simp_all)
  have "bit (case list_get vs (b + k) of None \<Rightarrow> ?w | Some v \<Rightarrow> ?w OR push_bit (k * 8) (ucast v)) m \<longleftrightarrow>
      bit ?w m \<or> 8 * k \<le> m \<and> m < 8 * Suc k \<and> bytes_bit vs (8 * b + m)"
    using at by (auto simp: list_get_def bit_or_iff new bytes_bit_def)
  then show ?case using Suc by auto
qed simp

lemma packed_id_bit:
  assumes "0 < pc_bits_per_id c" "pc_bits_per_id c \<le> 32"
  shows "bit (packed_id c x) i \<longleftrightarrow> i < pc_bits_per_id c \<and> bytes_bit (pc_values c) (unat x * pc_bits_per_id c + i)"
proof -
  let ?n = "pc_bits_per_id c"
  define b where "b = unat x * ?n"
  have "bit (drop_bit (b mod 8) (packed_window (pc_values c) (b div 8))) i \<longleftrightarrow> bytes_bit (pc_values c) (b + i)" if "i < ?n"
  proof -
    have m: "b mod 8 + i < 8 * 5" "8 * (b div 8) + (b mod 8 + i) = b + i" 
      using that assms(2) mod_less_divisor [of 8 b] mult_div_mod_eq [of 8 b] by linarith+
    show ?thesis using packed_window_bits [of 5 "pc_values c" "b div 8" "b mod 8 + i"] m
      by (simp only: bit_drop_bit_eq comp_def packed_window_def) simp
  qed
  moreover have "(push_bit ?n 1 - 1 :: u64) = mask ?n" by (simp add: mask_eq_exp_minus_1 push_bit_eq_mult)
  moreover have "i < 32" if "i < ?n" using that assms(2) by simp
  ultimately show ?thesis using assms
    by (auto simp: packed_id_def Let_def b_def [symmetric] bit_unsigned_iff bit_and_iff bit_mask_iff)
qed

text \<open>A column that the decoder accepts, for \<open>n\<close> records over a dictionary of \<open>d\<close> entries.\<close>

definition column_ok :: "u32 \<Rightarrow> u32 \<Rightarrow> packed_id_column \<Rightarrow> bool" where
  "column_ok n d c \<longleftrightarrow>
     (n = 0 \<longleftrightarrow> d = 0) \<and> d \<le> n \<and> pc_bits_per_id c = bits_for_dictionary d \<and>
     length (pc_values c) = (unat n * bits_for_dictionary d + 7) div 8 \<and>
     (\<forall>x<n. packed_id c x < d) \<and>
     (\<forall>k\<ge>unat n * bits_for_dictionary d. \<not> bytes_bit (pc_values c) k)"

lemma pack_ids_cases:
  assumes "pack_ids ids d = Inr c"
  shows "(ids = [] \<longleftrightarrow> d = 0) \<and> unat d \<le> length ids \<and> (\<forall>i\<in>set ids. i < d) \<and> pc_bits_per_id c = bits_for_dictionary d \<and>
    length (pc_values c) = (length ids * bits_for_dictionary d + 7) div 8 \<and>
    (\<forall>x. unat x < length ids \<longrightarrow> packed_id c x = ids ! unat x) \<and>
    (\<forall>k\<ge>length ids * bits_for_dictionary d. \<not> bytes_bit (pc_values c) k)"
proof -
  let ?n = "bits_for_dictionary d"
  have ok: "ids = [] \<longleftrightarrow> d = 0" "unat d \<le> length ids" and small: "\<forall>i\<in>set ids. i < d"
    and c: "c = \<lparr>pc_bits_per_id = ?n, pc_values = (if ?n = 0 then [] else pack_loop ?n ids 0 0)\<rparr>"
    using assms by (auto simp: pack_ids_def Let_def list_ex_iff not_le split: if_splits)
  have bits: "bit i k \<longrightarrow> k < ?n" if "i \<in> set ids" for i k
    using dictionary_id_bits [of i d k] small that by (meson leI)
  have pc: "pc_bits_per_id c = ?n" by (simp add: c)
  show ?thesis
  proof (cases "?n = 0")
    case True
    have "ids ! unat x = 0" if "unat x < length ids" for x :: u32
      using bits [OF nth_mem [OF that]] True by (intro bit_word_eqI) simp
    then show ?thesis using ok small True by (simp add: c packed_id_def)
  next
    case False
    have v: "pc_values c = pack_loop ?n ids 0 0" using False by (simp add: c)
    have p: "length (pc_values c) = (length ids * ?n + 7) div 8"
      "bytes_bit (pc_values c) k \<longleftrightarrow> k div ?n < length ids \<and> bit (ids ! (k div ?n)) (k mod ?n)" for k
      using pack_loop_bits [of ?n 0 0 ids] bits_for_dictionary_bound [of d] False bits unfolding v by simp_all
    have "packed_id c x = ids ! unat x" if x: "unat x < length ids" for x
    proof (rule bit_word_eqI)
      fix i
      have "(unat x * ?n + i) div ?n = unat x" "(unat x * ?n + i) mod ?n = i" if "i < ?n" using that False by simp_all
      then show "bit (packed_id c x) i \<longleftrightarrow> bit (ids ! unat x) i"
        using packed_id_bit [of c x i] bits_for_dictionary_bound [of d] False bits [OF nth_mem [OF x], of i] x pc p(2)
        by auto
    qed
    moreover have "\<not> bytes_bit (pc_values c) k" if "length ids * ?n \<le> k" for k
      using that False by (simp add: p(2) not_less less_eq_div_iff_mult_less_eq)
    ultimately show ?thesis using ok small p(1) pc by simp
  qed
qed

lemma pack_ids_column_ok:
  assumes "pack_ids ids d = Inr c" "length ids < 2 ^ 32"
  shows "column_ok (of_nat (length ids)) d c"
proof -
  have n: "unat (of_nat (length ids) :: u32) = length ids" using assms(2) by (simp add: unat_of_nat)
  have 0: "(of_nat (length ids) :: u32) = 0 \<longleftrightarrow> ids = []" by (simp only: word_unat_eq_iff n unat_0 length_0_conv)
  have "packed_id c x < d" if "x < of_nat (length ids)" for x
    using pack_ids_cases [OF assms(1)] that by (simp add: word_less_nat_alt n)
  then show ?thesis using pack_ids_cases [OF assms(1)] n 0
    by (simp add: column_ok_def word_le_nat_alt)
qed

text \<open>Lookup of identifiers in a valid column.\<close>

lemma those_map_Some: "\<forall>x\<in>set xs. f x \<noteq> None \<Longrightarrow> those (map f xs) = Some (map (\<lambda>x. the (f x)) xs)"
  by (induction xs) auto

lemma marked_slots:
  assumes "\<forall>i\<in>set is. i < n"
  shows "length (foldl (\<lambda>s i. s[i := True]) (replicate n False) is) = n \<and>
    (\<forall>j<n. foldl (\<lambda>s i. s[i := True]) (replicate n False) is ! j \<longleftrightarrow> j \<in> set is)"
  using assms by (induction "is" rule: rev_induct) (auto simp: nth_list_update)

lemma matching_packed_ids_ok:
  assumes "column_ok n d c" "\<forall>i\<in>set wanted. i < d"
  shows "matching_packed_ids c n d wanted = Some (Inr (filter (\<lambda>x. packed_id c x \<in> set wanted) (word_range 0 n)))"
proof (cases "wanted = [] \<or> n = 0")
  case True
  then show ?thesis by (auto simp: matching_packed_ids_def word_range_def)
next
  case False
  define slots where "slots = foldl (\<lambda>s i. s[unat i := True]) (replicate (unat d) False) wanted"
  have "slots = foldl (\<lambda>s i. s[i := True]) (replicate (unat d) False) (map unat wanted)"
    by (simp add: slots_def foldl_map)
  then have slots: "length slots = unat d" "\<forall>j<unat d. slots ! j \<longleftrightarrow> j \<in> unat ` set wanted"
    using marked_slots [of "map unat wanted" "unat d"] assms(2) by (auto simp: word_less_nat_alt)
  have get: "list_get slots (unat (packed_id c x)) = Some (packed_id c x \<in> set wanted)" if "x \<in> set (word_range 0 n)" for x
  proof -
    have "unat (packed_id c x) < unat d" using assms(1) that by (simp add: column_ok_def word_less_nat_alt)
    then show ?thesis using slots by (auto simp: list_get_def word_unat_eq_iff [symmetric])
  qed
  have "those (map (\<lambda>x. map_option (Pair x) (list_get slots (unat (packed_id c x)))) (word_range 0 n)) =
      Some (map (\<lambda>x. (x, packed_id c x \<in> set wanted)) (word_range 0 n))"
    by (subst those_map_Some) (auto simp: get)
  moreover have "\<not> list_ex (\<lambda>i. d \<le> i) wanted" using assms(2) by (auto simp: list_ex_iff not_le)
  ultimately show ?thesis using False
    by (simp add: matching_packed_ids_def Let_def slots_def [symmetric] filter_map comp_def)
qed

section \<open>The byte format reads back\<close>

lemma column_padding:
  assumes "length vs = (m + 7) div 8"
  shows "(\<forall>k\<ge>m. \<not> bytes_bit vs k) \<longleftrightarrow> \<not> (vs \<noteq> [] \<and> m mod 8 \<noteq> 0 \<and> drop_bit (m mod 8) (last vs) \<noteq> 0)"
proof (cases "m mod 8 = 0")
  case True
  then obtain q where "m = 8 * q" by (auto simp: mod_eq_0_iff_dvd)
  then have "length vs = m div 8" using assms by simp
  then have "\<not> bytes_bit vs k" if "m \<le> k" for k
    using div_le_mono [OF that, of 8] by (simp add: bytes_bit_def)
  then show ?thesis using True by simp
next
  case False
  define q r where "q = m div 8" and "r = m mod 8"
  have m: "m = 8 * q + r" "r < 8" by (simp_all add: q_def r_def)
  have "r \<noteq> 0" using False by (simp add: r_def)
  then have "m + 7 = 8 * Suc q + (r - 1)" "r - 1 < 8" using m by simp_all
  then have len: "length vs = Suc q" unfolding assms by (simp only: div_mult_self4 div_less)
  then have "vs \<noteq> []" by auto
  then have last: "last vs = vs ! q" using len by (simp add: last_conv_nth)
  have "(\<forall>k\<ge>m. \<not> bytes_bit vs k) \<longleftrightarrow> (\<forall>j. \<not> bit (vs ! q) (r + j))"
  proof
    assume k: "\<forall>k\<ge>m. \<not> bytes_bit vs k"
    show "\<forall>j. \<not> bit (vs ! q) (r + j)"
    proof (intro allI notI)
      fix j assume b: "bit (vs ! q) (r + j)"
      then have "r + j < 8" using bit_imp_le_length by fastforce
      then have "(8 * q + (r + j)) div 8 = q" "(8 * q + (r + j)) mod 8 = r + j" by simp_all
      then have "bytes_bit vs (8 * q + (r + j))" using b len by (simp add: bytes_bit_def)
      then show False using k m(1) by simp
    qed
  next
    assume j: "\<forall>j. \<not> bit (vs ! q) (r + j)"
    show "\<forall>k\<ge>m. \<not> bytes_bit vs k"
    proof (intro allI impI notI)
      fix k assume k: "m \<le> k" "bytes_bit vs k"
      have "q \<le> k div 8" using div_le_mono [OF k(1), of 8] by (simp add: q_def)
      then have kq: "k div 8 = q" using k(2) len by (simp add: bytes_bit_def)
      then have "r \<le> k mod 8" using k(1) m(1) div_mod_decomp [of k 8] by simp
      then show False using k(2) kq j [rule_format, of "k mod 8 - r"] by (simp add: bytes_bit_def)
    qed
  qed
  also have "\<dots> \<longleftrightarrow> drop_bit r (last vs) = 0"
  proof -
    have "j < 8" if "bit (vs ! q) (r + j)" for j using bit_imp_le_length [OF that] by simp
    then show ?thesis by (auto simp: last bit_eq_iff [of "drop_bit r (vs ! q)"] bit_drop_bit_eq)
  qed
  finally show ?thesis using False \<open>vs \<noteq> []\<close> by (simp add: r_def)
qed

lemma column_bits_small: "unat (n :: u32) * bits_for_dictionary d \<le> usize_max"
proof -
  have "unat n * bits_for_dictionary d \<le> 2 ^ 32 * 32"
    using unat_bound [of n] bits_for_dictionary_bound [of d] by (intro mult_le_mono) simp_all
  then show ?thesis by simp
qed

lemma decode_encode_column:
  assumes "column_ok n d c" "encode_packed_column c d = Inr e" "bytes_at bs cur e" "length bs \<le> usize_max"
  shows "decode_packed_column n bs cur = Inr ((d, c), cur + length e)"
proof -
  let ?b = "bits_for_dictionary d" and ?w = "block_write_varint (ucast d)"
  obtain vs where vs: "block_append_bytes (pc_values c) = Inr vs" "e = ?w @ [of_nat ?b] @ vs"
    using assms(1,2) by (auto simp: encode_packed_column_def and_then_eq_Inr column_ok_def)
  note at = assms(3) [unfolded vs(2) bytes_at_append]
  have bits: "unat (of_nat ?b :: u8) = ?b" using bits_for_dictionary_bound [of d] by (simp add: unat_of_nat)
  have c: "\<lparr>pc_bits_per_id = ?b, pc_values = pc_values c\<rparr> = c" using assms(1) by (simp add: column_ok_def)
  have "block_read_byte bs (cur + length ?w) = Inr (of_nat ?b, cur + length ?w + 1)"
    using at by (simp add: block_read_byte_def bytes_at_single)
  moreover have "block_read_bytes bs (cur + length ?w + 1) = Inr (pc_values c, cur + length ?w + 1 + length vs)"
    using at by (intro block_read_bytes_append [OF vs(1) _ assms(4)]) simp
  moreover have "block_read_u32 bs cur = Inr (d, cur + length ?w)" using at by (simp add: block_read_u32_write)
  moreover have "\<not> list_ex (\<lambda>x. d \<le> packed_id c x) (word_range 0 n)"
    using assms(1) by (auto simp: column_ok_def list_ex_iff not_le)
  moreover have "\<not> (pc_values c \<noteq> [] \<and> (unat n * ?b) mod 8 \<noteq> 0 \<and> drop_bit ((unat n * ?b) mod 8) (last (pc_values c)) \<noteq> 0)"
    using assms(1) column_padding [of "pc_values c" "unat n * ?b"] by (simp add: column_ok_def)
  moreover have "\<not> (n = 0 \<and> d \<noteq> 0 \<or> n \<noteq> 0 \<and> (d = 0 \<or> n < d))" "length (pc_values c) = (unat n * ?b + 7) div 8"
    using assms(1) by (auto simp: column_ok_def)
  ultimately show ?thesis using column_bits_small [of n d]
    unfolding decode_packed_column_def by (simp add: bits c vs(2) Let_def) blast
qed

lemma decoded_column_ok:
  assumes "decode_packed_column n bs cur = Inr ((d, c), cur')"
  shows "column_ok n d c"
proof -
  obtain d' c1 where 1: "block_read_u32 bs cur = Inr (d', c1)"
    using assms by (cases "block_read_u32 bs cur") (auto simp: decode_packed_column_def)
  note r1 = assms [unfolded decode_packed_column_def 1 and_then_simps prod.case]
  have d: "\<not> (n = 0 \<and> d' \<noteq> 0 \<or> n \<noteq> 0 \<and> (d' = 0 \<or> n < d'))" using r1 by (simp split: if_split_asm)
  obtain b c2 where 2: "block_read_byte bs c1 = Inr (b, c2)"
    using r1 d by (cases "block_read_byte bs c1") (auto split: if_split_asm)
  obtain vs c3 where 3: "block_read_bytes bs c2 = Inr (vs, c3)"
    using r1 d 2 by (cases "block_read_bytes bs c2") (auto split: if_split_asm)
  let ?m = "unat n * bits_for_dictionary d'"
  have r: "unat b = bits_for_dictionary d'" "length vs = (?m + 7) div 8"
    "\<not> list_ex (\<lambda>x. d' \<le> packed_id \<lparr>pc_bits_per_id = unat b, pc_values = vs\<rparr> x) (word_range 0 n)"
    "\<not> (vs \<noteq> [] \<and> (?m + 7) div 8 > 0 \<and> ?m mod 8 \<noteq> 0 \<and> drop_bit (?m mod 8) (last vs) \<noteq> 0)"
    "d = d'" "c = \<lparr>pc_bits_per_id = unat b, pc_values = vs\<rparr>"
    using r1 unfolding 2 3 and_then_simps prod.case Let_def by (simp_all only: d split: if_split_asm) auto
  have "\<forall>k\<ge>?m. \<not> bytes_bit vs k" using r(4) column_padding [OF r(2)] r(2) by auto
  then show ?thesis using d r by (auto simp: column_ok_def list_ex_iff not_le not_less)
qed

definition ids_ok :: "u32 \<Rightarrow> u32 list \<Rightarrow> bool" where
  "ids_ok upper_bound ids \<longleftrightarrow> sorted_wrt (<) ids \<and> (\<forall>x\<in>set ids. x < upper_bound)"

lemma encode_id_deltas_length: "length xs \<le> length (encode_id_deltas p xs)"
proof (induction xs arbitrary: p)
  case (Cons x xs)
  show ?case using block_write_varint_length [of "ucast (x - p)"] Cons.IH [of x] by (simp del: length_greater_0_conv)
qed simp

lemma decode_encode_id_deltas:
  "sorted_wrt (<) (p # xs) \<Longrightarrow> \<forall>x\<in>set xs. x < up \<Longrightarrow> bytes_at bs cur (encode_id_deltas p xs) \<Longrightarrow>
   decode_id_deltas up (length xs) p bs cur = Inr (xs, cur + length (encode_id_deltas p xs))"
proof (induction xs arbitrary: p cur)
  case (Cons x xs)
  have "p < x" using Cons.prems(1) by simp
  then have "checked_add p (x - p) = Some x" "x - p \<noteq> 0" by (auto simp: checked_add_diff)
  moreover have "sorted_wrt (<) (x # xs)" using Cons.prems(1) by simp
  moreover have at: "bytes_at bs cur (block_write_varint (ucast (x - p)))"
    "bytes_at bs (cur + length (block_write_varint (ucast (x - p)))) (encode_id_deltas x xs)"
    using Cons.prems(3) by (simp_all add: bytes_at_append)
  ultimately show ?case using Cons.IH [of x "cur + length (block_write_varint (ucast (x - p)))"] Cons.prems(2)
    by (simp add: block_read_u32_write [OF at(1)])
qed simp

lemma adjacent_sorted: "\<not> list_ex (\<lambda>w. w ! 0 \<ge> w ! 1) (windows 2 (xs :: u32 list)) \<longleftrightarrow> sorted_wrt (<) xs"
  unfolding windows_adjacent by (auto simp: sorted_wrt_iff_nth_Suc_transp not_le)

lemma encode_sorted_ids_cases:
  assumes "encode_sorted_ids ids up = Inr e"
  shows "\<exists>x xs n. ids = x # xs \<and> unat n = length ids \<and>
    e = block_write_varint n @ block_write_varint (ucast x) @ encode_id_deltas x xs"
  using assms by (cases ids) (auto simp: encode_sorted_ids_def and_then_eq_Inr try_word_Some split: if_splits)

lemma decode_encode_with_count:
  assumes "ids_ok up (x # xs)" "bytes_at bs cur (block_write_varint (ucast x) @ encode_id_deltas x xs)"
  shows "decode_sorted_ids_with_count up (Suc (length xs)) bs cur =
    Inr (x # xs, cur + length (block_write_varint (ucast x) @ encode_id_deltas x xs))"
proof -
  have "Suc (length xs) \<le> length (block_write_varint (ucast x) @ encode_id_deltas x xs)"
    using encode_id_deltas_length [of xs x] block_write_varint_length [of "ucast x"]
    by (simp del: length_greater_0_conv)
  then have "\<not> (Suc (length xs) = 0 \<or> Suc (length xs) > length bs - cur)" using bytes_at_bound [OF assms(2)] by simp
  moreover have at: "bytes_at bs cur (block_write_varint (ucast x))"
    "bytes_at bs (cur + length (block_write_varint (ucast x))) (encode_id_deltas x xs)"
    using assms(2) by (simp_all add: bytes_at_append)
  ultimately show ?thesis using assms(1) decode_encode_id_deltas [OF _ _ at(2), of up]
    by (auto simp: decode_sorted_ids_with_count_def ids_ok_def block_read_u32_write [OF at(1)] not_le)
qed

lemma decode_encode_sorted_ids:
  assumes "encode_sorted_ids ids up = Inr e" "ids_ok up ids" "bytes_at bs cur e"
  shows "decode_sorted_ids up bs cur = Inr (ids, cur + length e)"
proof -
  obtain x xs n where e: "ids = x # xs" "unat n = length ids"
    "e = block_write_varint n @ block_write_varint (ucast x) @ encode_id_deltas x xs"
    using encode_sorted_ids_cases [OF assms(1)] by blast
  have at: "bytes_at bs cur (block_write_varint n)" using assms(3) e(3) by (simp add: bytes_at_append)
  then show ?thesis using decode_encode_with_count [of up x xs bs "cur + length (block_write_varint n)"] assms(2,3) e
    by (simp add: decode_sorted_ids_def bytes_at_append block_read_usize_write [OF at] add.assoc)
qed

lemma decode_encode_optional_ids:
  assumes "encode_optional_sorted_ids ids up = Inr e" "ids_ok up ids" "bytes_at bs cur e"
  shows "decode_optional_sorted_ids up bs cur = Inr (ids, cur + length e)"
proof (cases "ids = []")
  case True
  then show ?thesis using assms by (auto simp: encode_optional_sorted_ids_def decode_optional_sorted_ids_def block_read_usize_write)
next
  case False
  then have "encode_sorted_ids ids up = Inr e" using assms(1) by (simp add: encode_optional_sorted_ids_def)
  from encode_sorted_ids_cases [OF this] obtain x xs n where e: "ids = x # xs" "unat n = length ids"
    "e = block_write_varint n @ block_write_varint (ucast x) @ encode_id_deltas x xs" by blast
  have at: "bytes_at bs cur (block_write_varint n)" using assms(3) e(3) by (simp add: bytes_at_append)
  then show ?thesis using decode_encode_with_count [of up x xs bs "cur + length (block_write_varint n)"] assms(2,3) e
    by (simp add: decode_optional_sorted_ids_def bytes_at_append block_read_usize_write [OF at] add.assoc)
qed

lemma decode_id_deltas_ok:
  "decode_id_deltas up n p bs cur = Inr (xs, cur') \<Longrightarrow> sorted_wrt (<) (p # xs) \<and> (\<forall>x\<in>set xs. x < up)"
proof (induction n arbitrary: p cur xs)
  case (Suc n)
  obtain d cur1 x ys where d: "block_read_u32 bs cur = Inr (d, cur1)" "d \<noteq> 0" "checked_add p d = Some x" "x < up"
    "decode_id_deltas up n x bs cur1 = Inr (ys, cur')" "xs = x # ys"
    using Suc.prems by (auto simp: and_then_eq_Inr split: if_splits option.splits)
  have "p < x" using d(2,3) by (simp add: checked_add_Some word_less_nat_alt unat_gt_0)
  then show ?case using Suc.IH [OF d(5)] d(4,6) by auto
qed simp

lemma decoded_ids_ok:
  assumes "decode_sorted_ids_with_count up n bs cur = Inr (ids, cur')"
  shows "ids_ok up ids \<and> ids \<noteq> []"
  using assms decode_id_deltas_ok
  by (fastforce simp: decode_sorted_ids_with_count_def and_then_eq_Inr ids_ok_def not_le split: if_splits)

lemma encode_locators_eq: "encode_locators = encode_list"
  by (simp add: fun_eq_iff encode_locators_def encode_list_def block_write_varint_eq)

lemma decode_encode_locators:
  assumes "encode_locators enc xs = Inr e" "bytes_at bs cur e" "\<And>x e. enc x = Inr e \<Longrightarrow> e \<noteq> []"
    and "\<And>es cur. collect_results enc xs = Inr es \<Longrightarrow> bytes_at bs cur (concat es) \<Longrightarrow>
      dec (length xs) bs cur = Inr (xs, cur + length (concat es))"
  shows "decode_locators label dec bs cur = Inr (xs, cur + length e)"
proof -
  obtain n es where e: "e = block_write_varint n @ concat es" "unat n = length xs" "collect_results enc xs = Inr es"
    "length xs \<le> length (concat es)"
    using encode_list_parts [of enc xs e] assms(1,3) unfolding encode_locators_eq block_write_varint_eq by metis
  have at: "bytes_at bs cur (block_write_varint n)" "bytes_at bs (cur + length (block_write_varint n)) (concat es)"
    using assms(2) e(1) by (simp_all add: bytes_at_append)
  have "length xs \<le> length bs - (cur + length (block_write_varint n))" using bytes_at_bound [OF at(2)] e(4) by simp
  then show ?thesis using assms(4) [OF e(3) at(2)] e(1,2)
    by (simp add: decode_locators_def block_read_usize_write [OF at(1)] ensure_count_within_def)
qed

lemma decode_encode_terms:
  assumes "collect_results (encode_term_locator up) ls = Inr es" "bytes_at bs cur (concat es)" "length bs \<le> usize_max"
    and "sorted_wrt (<) (map fst ls)" "\<forall>(t, ids)\<in>set ls. valid_str t \<and> ids_ok up ids"
    and "\<forall>p. previous = Some p \<longrightarrow> (\<forall>l\<in>set ls. p < fst l)"
  shows "decode_term_locators up (length ls) previous bs cur = Inr (ls, cur + length (concat es))"
  using assms(1,2,4-6)
proof (induction ls arbitrary: es previous cur)
  case (Cons l ls)
  obtain t ids where l: "l = (t, ids)" by (cases l)
  obtain a b es' where e: "block_append_bytes (str_bytes t) = Inr a" "encode_sorted_ids ids up = Inr b"
    "collect_results (encode_term_locator up) ls = Inr es'" "es = (a @ b) # es'"
    using Cons.prems(1) by (auto simp: l encode_term_locator_def and_then_eq_Inr)
  have at: "bytes_at bs cur a" "bytes_at bs (cur + length a) b" "bytes_at bs (cur + length a + length b) (concat es')"
    using Cons.prems(2) by (simp_all add: e(4) bytes_at_append add.assoc)
  have "read_arc_str bs cur = Inr (t, cur + length a)"
    using Cons.prems(4) l at by (intro arc_str_codec.dec_enc [OF e(1) _ _ assms(3)]) simp_all
  moreover have "decode_sorted_ids up bs (cur + length a) = Inr (ids, cur + length a + length b)"
    using Cons.prems(4) l at by (intro decode_encode_sorted_ids [OF e(2)]) simp_all
  moreover have "\<not> (case previous of None \<Rightarrow> False | Some p \<Rightarrow> t \<le> p)"
    using Cons.prems(5) l by (auto split: option.splits)
  moreover have "decode_term_locators up (length ls) (Some t) bs (cur + length a + length b) =
      Inr (ls, cur + length a + length b + length (concat es'))"
    using Cons.prems l by (intro Cons.IH [OF e(3) at(3)]) auto
  ultimately show ?case using l e(4) by (simp add: add.assoc)
qed simp

lemma decode_encode_fields:
  assumes "collect_results (encode_field_locator up) ls = Inr es" "bytes_at bs cur (concat es)" "length bs \<le> usize_max"
    and "sorted_wrt (<) (map fst ls)" "\<forall>((k, v), ids)\<in>set ls. valid_str k \<and> valid_str v \<and> ids_ok up ids"
    and "\<forall>p. previous = Some p \<longrightarrow> (\<forall>l\<in>set ls. p < fst l)"
  shows "decode_field_locators up (length ls) previous bs cur = Inr (ls, cur + length (concat es))"
  using assms(1,2,4-6)
proof (induction ls arbitrary: es previous cur)
  case (Cons l ls)
  obtain k v ids where l: "l = ((k, v), ids)" by (metis prod.exhaust)
  obtain a b c es' where e: "block_append_bytes (str_bytes k) = Inr a" "block_append_bytes (str_bytes v) = Inr b"
    "encode_sorted_ids ids up = Inr c" "collect_results (encode_field_locator up) ls = Inr es'" "es = (a @ b @ c) # es'"
    using Cons.prems(1) by (auto simp: l encode_field_locator_def and_then_eq_Inr)
  have at: "bytes_at bs cur a" "bytes_at bs (cur + length a) b" "bytes_at bs (cur + length a + length b) c"
    "bytes_at bs (cur + length a + length b + length c) (concat es')"
    using Cons.prems(2) by (simp_all add: e(5) bytes_at_append add.assoc)
  have "read_arc_str bs cur = Inr (k, cur + length a)" "read_arc_str bs (cur + length a) = Inr (v, cur + length a + length b)"
    using Cons.prems(4) l at by (intro arc_str_codec.dec_enc [OF e(1) _ _ assms(3)] arc_str_codec.dec_enc [OF e(2) _ _ assms(3)]; simp)+
  moreover have "decode_sorted_ids up bs (cur + length a + length b) = Inr (ids, cur + length a + length b + length c)"
    using Cons.prems(4) l at by (intro decode_encode_sorted_ids [OF e(3)]) simp_all
  moreover have "\<not> (case previous of None \<Rightarrow> False | Some p \<Rightarrow> (k, v) \<le> p)"
    using Cons.prems(5) l by (auto split: option.splits simp: not_le)
  moreover have "decode_field_locators up (length ls) (Some (k, v)) bs (cur + length a + length b + length c) =
      Inr (ls, cur + length a + length b + length c + length (concat es'))"
    using Cons.prems l by (intro Cons.IH [OF e(4) at(4)]) auto
  ultimately show ?case using l e(5) by (simp add: add.assoc)
qed simp

text \<open>What the decoder establishes of an index.\<close>

definition frame_index_ok :: "embedded_frame_index \<Rightarrow> bool" where
  "frame_index_ok fi \<longleftrightarrow>
     column_ok (fi_record_count fi) (fi_layout_count fi) (fi_layout_ids fi) \<and>
     ids_ok (fi_layout_count fi) (fi_residual_layout_ids fi) \<and>
     length (fi_term_membership fi) = EMBEDDED_MEMBERSHIP_FILTER_WORDS \<and>
     sorted_wrt (<) (map fst (fi_terms fi)) \<and>
     (\<forall>(t, ids)\<in>set (fi_terms fi). valid_str t \<and> ids_ok (fi_layout_count fi) ids) \<and>
     column_ok (fi_record_count fi) (fi_field_set_count fi) (fi_field_set_ids fi) \<and>
     length (fi_field_membership fi) = EMBEDDED_MEMBERSHIP_FILTER_WORDS \<and>
     sorted_wrt (<) (map fst (fi_fields fi)) \<and>
     (\<forall>((k, v), ids)\<in>set (fi_fields fi). valid_str k \<and> valid_str v \<and> ids_ok (fi_field_set_count fi) ids)"

lemma length_filter_bytes: "length (concat (map (le_bytes 8) ws)) = 8 * length ws"
  by (induction ws) simp_all

lemma decode_encode_filter:
  fixes ws :: membership_filter
  assumes "length ws = EMBEDDED_MEMBERSHIP_FILTER_WORDS" "bytes_at bs cur (encode_membership_filter ws)" "length bs \<le> usize_max"
  shows "decode_membership_filter bs cur = Inr (ws, cur + length (encode_membership_filter ws))"
proof -
  let ?e = "encode_membership_filter ws"
  have len: "length ?e = 1024" using assms(1) by (simp add: encode_membership_filter_def length_filter_bytes)
  have "chunks_exact 8 ?e = map (le_bytes 8) ws"
    unfolding encode_membership_filter_def by (rule chunks_exact_concat) auto
  then have "map le_word (chunks_exact 8 ?e) = ws" by (simp add: map_idI)
  moreover have "slice_get bs cur (cur + 1024) = Some ?e" using slice_get_at [OF assms(2)] len by simp
  moreover have "cur + 1024 \<le> usize_max" using bytes_at_bound [OF assms(2)] len assms(3) by simp
  ultimately show ?thesis by (simp add: decode_membership_filter_def len)
qed

lemma term_locator_not_Nil: "encode_term_locator up l = Inr e \<Longrightarrow> e \<noteq> []"
  using block_append_bytes_length by (fastforce simp: encode_term_locator_def and_then_eq_Inr split: prod.splits)

lemma field_locator_not_Nil: "encode_field_locator up l = Inr e \<Longrightarrow> e \<noteq> []"
  using block_append_bytes_length by (fastforce simp: encode_field_locator_def and_then_eq_Inr split: prod.splits)

lemma frame_index_decode_encode:
  assumes "frame_index_ok fi" "frame_index_encode fi = Inr bs" "length bs \<le> usize_max"
  shows "frame_index_decode bs = Inr fi"
proof -
  note ok = assms(1) [unfolded frame_index_ok_def]
  let ?w = "block_write_varint (ucast (fi_record_count fi))"
  let ?tm = "encode_membership_filter (fi_term_membership fi)" and ?fm = "encode_membership_filter (fi_field_membership fi)"
  obtain a b c d e where enc: "encode_packed_column (fi_layout_ids fi) (fi_layout_count fi) = Inr a"
    "encode_optional_sorted_ids (fi_residual_layout_ids fi) (fi_layout_count fi) = Inr b"
    "encode_locators (encode_term_locator (fi_layout_count fi)) (fi_terms fi) = Inr c"
    "encode_packed_column (fi_field_set_ids fi) (fi_field_set_count fi) = Inr d"
    "encode_locators (encode_field_locator (fi_field_set_count fi)) (fi_fields fi) = Inr e"
    "bs = EMBEDDED_INDEX_MAGIC @ ?w @ a @ b @ ?tm @ c @ d @ ?fm @ e"
    using assms(2) by (auto simp: frame_index_encode_def and_then_eq_Inr)
  define c1 c2 c3 c4 c5 c6 c7 where cs: "c1 = length EMBEDDED_INDEX_MAGIC + length ?w" "c2 = c1 + length a"
    "c3 = c2 + length b" "c4 = c3 + length ?tm" "c5 = c4 + length c" "c6 = c5 + length d" "c7 = c6 + length ?fm"
  have "bytes_at bs 0 bs" by simp
  then have at: "bytes_at bs 0 EMBEDDED_INDEX_MAGIC" "bytes_at bs (length EMBEDDED_INDEX_MAGIC) ?w" "bytes_at bs c1 a" "bytes_at bs c2 b"
    "bytes_at bs c3 ?tm" "bytes_at bs c4 c" "bytes_at bs c5 d" "bytes_at bs c6 ?fm" "bytes_at bs c7 e"
    unfolding cs by (subst (asm) (2) enc(6), simp only: bytes_at_append add.assoc add_0_left)+
  have "slice_get bs 0 (length EMBEDDED_INDEX_MAGIC) = Some EMBEDDED_INDEX_MAGIC" using slice_get_at [OF at(1)] by simp
  moreover have "decode_packed_column (fi_record_count fi) bs c1 = Inr ((fi_layout_count fi, fi_layout_ids fi), c2)"
    using decode_encode_column [OF _ enc(1) at(3) assms(3)] ok by (simp add: cs)
  moreover have "decode_optional_sorted_ids (fi_layout_count fi) bs c2 = Inr (fi_residual_layout_ids fi, c3)"
    using decode_encode_optional_ids [OF enc(2) _ at(4)] ok by (simp add: cs)
  moreover have "decode_membership_filter bs c3 = Inr (fi_term_membership fi, c4)"
    "decode_membership_filter bs c6 = Inr (fi_field_membership fi, c7)"
    using decode_encode_filter [OF _ at(5) assms(3)] decode_encode_filter [OF _ at(8) assms(3)] ok by (simp_all add: cs)
  moreover have "decode_locators l (\<lambda>n. decode_term_locators (fi_layout_count fi) n None) bs c4 = Inr (fi_terms fi, c5)" for l
    unfolding cs(5) by (rule decode_encode_locators [OF enc(3) at(6) term_locator_not_Nil])
      (use ok in \<open>auto intro!: decode_encode_terms [OF _ _ assms(3)]\<close>)
  moreover have "decode_packed_column (fi_record_count fi) bs c5 = Inr ((fi_field_set_count fi, fi_field_set_ids fi), c6)"
    using decode_encode_column [OF _ enc(4) at(7) assms(3)] ok by (simp add: cs)
  moreover have "decode_locators l (\<lambda>n. decode_field_locators (fi_field_set_count fi) n None) bs c7 = Inr (fi_fields fi, c7 + length e)" for l
    by (rule decode_encode_locators [OF enc(5) at(9) field_locator_not_Nil])
      (use ok in \<open>auto intro!: decode_encode_fields [OF _ _ assms(3)]\<close>)
  moreover have "block_read_u32 bs (length EMBEDDED_INDEX_MAGIC) = Inr (fi_record_count fi, c1)"
    using block_read_u32_write [OF at(2)] by (simp only: cs)
  moreover have "c7 + length e = length bs" by (simp add: enc(6) cs)
  ultimately show ?thesis
    unfolding frame_index_decode_def by (simp only: and_then_simps prod.case require_consumed_def if_True simp_thms) simp
qed

section \<open>A decoded index is safe to query\<close>

lemma read_arc_str_valid: "read_arc_str bs cur = Inr (s, cur') \<Longrightarrow> valid_str s"
  by (auto simp: read_arc_str_def and_then_eq_Inr dest: from_utf8_valid)

lemma decoded_sorted_ids_ok: "decode_sorted_ids up bs cur = Inr (ids, cur') \<Longrightarrow> ids_ok up ids"
  by (auto simp: decode_sorted_ids_def and_then_eq_Inr dest: decoded_ids_ok)

lemma decoded_terms_ok:
  "decode_term_locators up n previous bs cur = Inr (ls, cur') \<Longrightarrow>
   sorted_wrt (<) (map fst ls) \<and> (\<forall>(t, ids)\<in>set ls. valid_str t \<and> ids_ok up ids) \<and>
   (\<forall>p. previous = Some p \<longrightarrow> (\<forall>l\<in>set ls. p < fst l))"
proof (induction n arbitrary: previous cur ls)
  case (Suc n)
  obtain t c1 ids c2 ls' where r: "read_arc_str bs cur = Inr (t, c1)" "decode_sorted_ids up bs c1 = Inr (ids, c2)"
    "decode_term_locators up n (Some t) bs c2 = Inr (ls', cur')" "ls = (t, ids) # ls'"
    "\<not> (case previous of None \<Rightarrow> False | Some p \<Rightarrow> t \<le> p)"
    using Suc.prems by (auto simp: and_then_eq_Inr split: if_splits)
  then have "p < t" if "previous = Some p" for p using that by simp
  then show ?case using Suc.IH [OF r(3)] read_arc_str_valid [OF r(1)] decoded_sorted_ids_ok [OF r(2)] r(4)
    by (auto intro: less_trans)
qed simp

lemma decoded_fields_ok:
  "decode_field_locators up n previous bs cur = Inr (ls, cur') \<Longrightarrow>
   sorted_wrt (<) (map fst ls) \<and> (\<forall>((k, v), ids)\<in>set ls. valid_str k \<and> valid_str v \<and> ids_ok up ids) \<and>
   (\<forall>p. previous = Some p \<longrightarrow> (\<forall>l\<in>set ls. p < fst l))"
proof (induction n arbitrary: previous cur ls)
  case (Suc n)
  obtain k c1 v c2 ids c3 ls' where r: "read_arc_str bs cur = Inr (k, c1)" "read_arc_str bs c1 = Inr (v, c2)"
    "decode_sorted_ids up bs c2 = Inr (ids, c3)" "decode_field_locators up n (Some (k, v)) bs c3 = Inr (ls', cur')"
    "ls = ((k, v), ids) # ls'" "\<not> (case previous of None \<Rightarrow> False | Some p \<Rightarrow> (k, v) \<le> p)"
    using Suc.prems by (auto simp: and_then_eq_Inr split: if_splits)
  note IH = Suc.IH [OF r(4)]
  have "p < (k, v)" if "previous = Some p" for p using r(6) that by (simp only: option.case not_le)
  then have "p < fst l" if "previous = Some p" "l \<in> set ls" for p l
    using that IH r(5) by (metis fst_conv less_trans set_ConsD)
  then show ?case using IH read_arc_str_valid [OF r(1)] read_arc_str_valid [OF r(2)] decoded_sorted_ids_ok [OF r(3)]
    unfolding r(5) by simp
qed simp

lemma decoded_filter_length:
  assumes "decode_membership_filter bs cur = Inr (ws, cur')"
  shows "length ws = EMBEDDED_MEMBERSHIP_FILTER_WORDS"
proof -
  have chunks: "length (chunks_exact 8 xs) = k" if "length xs = 8 * k" for xs :: bytes and k
    using that by (induction k arbitrary: xs) (simp_all add: chunks_exact.simps)
  obtain v where "slice_get bs cur (cur + 1024) = Some v" "ws = map le_word (chunks_exact 8 v)"
    using assms by (auto simp: decode_membership_filter_def Let_def split: if_splits option.splits)
  then show ?thesis using chunks [of v 128] slice_get_length by fastforce
qed

lemma decoded_index_ok:
  assumes "frame_index_decode bs = Inr fi"
  shows "frame_index_ok fi"
proof -
  obtain n c1 lc ls c2 rs c3 tm c4 ts c5 sc ss c6 fm c7 fs c8 where r:
    "decode_packed_column n bs c1 = Inr ((lc, ls), c2)" "decode_optional_sorted_ids lc bs c2 = Inr (rs, c3)"
    "decode_membership_filter bs c3 = Inr (tm, c4)"
    "decode_locators ''embedded term count'' (\<lambda>n. decode_term_locators lc n None) bs c4 = Inr (ts, c5)"
    "decode_packed_column n bs c5 = Inr ((sc, ss), c6)" "decode_membership_filter bs c6 = Inr (fm, c7)"
    "decode_locators ''embedded field count'' (\<lambda>n. decode_field_locators sc n None) bs c7 = Inr (fs, c8)"
    "fi = \<lparr>fi_record_count = n, fi_layout_count = lc, fi_layout_ids = ls, fi_residual_layout_ids = rs,
      fi_term_membership = tm, fi_terms = ts, fi_field_set_count = sc, fi_field_set_ids = ss,
      fi_field_membership = fm, fi_fields = fs\<rparr>"
    using assms by (auto simp: frame_index_decode_def and_then_eq_Inr split: if_splits)
  have "ids_ok lc rs"
    using r(2) by (auto simp: decode_optional_sorted_ids_def and_then_eq_Inr ids_ok_def split: if_splits
        dest!: decoded_ids_ok [unfolded ids_ok_def])
  moreover have "sorted_wrt (<) (map fst ts)" "\<forall>(t, ids)\<in>set ts. valid_str t \<and> ids_ok lc ids"
    using r(4) decoded_terms_ok by (fastforce simp: decode_locators_def and_then_eq_Inr)+
  moreover have "sorted_wrt (<) (map fst fs)" "\<forall>((k, v), ids)\<in>set fs. valid_str k \<and> valid_str v \<and> ids_ok sc ids"
    using r(7) decoded_fields_ok by (fastforce simp: decode_locators_def and_then_eq_Inr)+
  ultimately show ?thesis
    using decoded_column_ok [OF r(1)] decoded_column_ok [OF r(5)] decoded_filter_length [OF r(3)] decoded_filter_length [OF r(6)]
    by (simp add: frame_index_ok_def r(8))
qed

text \<open>What the lookups return in terms of the columns and locators.\<close>

definition locator_ids :: "('k \<times> u32 list) list \<Rightarrow> 'k \<Rightarrow> u32 set" where
  "locator_ids ls k = {i. \<exists>ids. (k, ids) \<in> set ls \<and> i \<in> set ids}"

lemma locator_search:
  assumes "sorted_wrt (<) (map fst (ls :: ('k::linorder \<times> u32 list) list))"
  shows "binary_search_by_key fst k ls = Inr i \<Longrightarrow> i < length ls \<and> set (snd (ls ! i)) = locator_ids ls k"
    and "binary_search_by_key fst k ls = Inl j \<Longrightarrow> k \<notin> fst ` set ls \<and> locator_ids ls k = {}"
proof -
  note iff = binary_search_by_key_Inr [OF assms, of k]
  have dist: "distinct (map fst ls)" using assms by (simp add: strict_sorted_iff)
  { assume "binary_search_by_key fst k ls = Inr i"
    then have i: "i < length ls" "fst (ls ! i) = k" using iff [of i] by simp_all
    then have "(k, ids) \<in> set ls \<longleftrightarrow> ids = snd (ls ! i)" for ids
      using dist by (metis eq_key_imp_eq_value nth_mem prod.collapse)
    then show "i < length ls \<and> set (snd (ls ! i)) = locator_ids ls k" using i by (simp add: locator_ids_def) }
  { assume none: "binary_search_by_key fst k ls = Inl j"
    have "fst l \<noteq> k" if "l \<in> set ls" for l
      using that none iff by (metis in_set_conv_nth sum.distinct(1))
    then show "k \<notin> fst ` set ls \<and> locator_ids ls k = {}" by (force simp: locator_ids_def) }
qed

lemma term_candidates:
  assumes "frame_index_ok fi"
  shows "term_candidate_ordinals U fi t =
    Some (if might_contain (fi_term_membership fi) (str_bytes (normalize_index_term U t))
          then filter (\<lambda>x. packed_id (fi_layout_ids fi) x \<in> set (fi_residual_layout_ids fi) \<union>
            locator_ids (fi_terms fi) (normalize_index_term U t)) (word_range 0 (fi_record_count fi))
          else [])"
proof -
  let ?n = "normalize_index_term U t"
  note ok = assms [unfolded frame_index_ok_def]
  define ids where "ids = (case binary_search_by_key fst ?n (fi_terms fi) of Inl _ \<Rightarrow> [] | Inr i \<Rightarrow> snd (fi_terms fi ! i))"
  have ids: "set ids = locator_ids (fi_terms fi) ?n"
    using locator_search [of "fi_terms fi" ?n] ok by (cases "binary_search_by_key fst ?n (fi_terms fi)") (auto simp: ids_def)
  have "\<forall>i\<in>set (remdups_adj (sort (fi_residual_layout_ids fi @ ids))). i < fi_layout_count fi"
    using ok ids by (fastforce simp: ids_ok_def locator_ids_def)
  then have "matching_packed_ids (fi_layout_ids fi) (fi_record_count fi) (fi_layout_count fi)
      (remdups_adj (sort (fi_residual_layout_ids fi @ ids))) =
    Some (Inr (filter (\<lambda>x. packed_id (fi_layout_ids fi) x \<in> set (fi_residual_layout_ids fi) \<union> locator_ids (fi_terms fi) ?n)
      (word_range 0 (fi_record_count fi))))"
    using ok by (subst matching_packed_ids_ok) (simp_all add: ids)
  then show ?thesis by (simp add: term_candidate_ordinals_def Let_def ids_def [symmetric] expect_ok_def)
qed

lemma field_candidates:
  assumes "frame_index_ok fi"
  shows "field_candidate_ordinals fi k v =
    Some (if might_contain_pair (fi_field_membership fi) (str_bytes k) (str_bytes v)
          then if (k, v) \<in> fst ` set (fi_fields fi)
            then filter (\<lambda>x. packed_id (fi_field_set_ids fi) x \<in> locator_ids (fi_fields fi) (k, v))
              (word_range 0 (fi_record_count fi))
            else word_range 0 (fi_record_count fi)
          else [])"
proof (cases "binary_search_by_key fst (k, v) (fi_fields fi)")
  case (Inl j)
  then show ?thesis using locator_search(2) [of "fi_fields fi" "(k, v)" j] assms
    by (simp add: frame_index_ok_def field_candidate_ordinals_def)
next
  case (Inr i)
  note ok = assms [unfolded frame_index_ok_def]
  have i: "i < length (fi_fields fi)" "set (snd (fi_fields fi ! i)) = locator_ids (fi_fields fi) (k, v)"
    using locator_search(1) [of "fi_fields fi" "(k, v)" i] Inr ok by simp_all
  have "fst (fi_fields fi ! i) = (k, v)" using binary_search_by_key_Inr [of fst "fi_fields fi" "(k, v)" i] Inr ok by simp
  then have mem: "(k, v) \<in> fst ` set (fi_fields fi)" using i(1) nth_mem by force
  have "\<forall>i\<in>set (snd (fi_fields fi ! i)). i < fi_field_set_count fi"
  proof -
    have "\<forall>((k, v), ids)\<in>set (fi_fields fi). valid_str k \<and> valid_str v \<and> ids_ok (fi_field_set_count fi) ids"
      using ok by blast
    from bspec [OF this nth_mem [OF i(1)]] show ?thesis by (auto simp: ids_ok_def split: prod.splits)
  qed
  then show ?thesis using Inr ok mem
    by (simp add: field_candidate_ordinals_def matching_packed_ids_ok i(2) expect_ok_def)
qed

section \<open>Correctness of the frame index\<close>

text \<open>An index of two records, the second of which has the term \<open>a\<close>.\<close>

definition sample_frame :: embedded_frame_index where
  "sample_frame =
     \<lparr>fi_record_count = 2, fi_layout_count = 2, fi_layout_ids = \<lparr>pc_bits_per_id = 1, pc_values = [2]\<rparr>,
      fi_residual_layout_ids = [], fi_term_membership = membership_insert membership_new [97],
      fi_terms = [([97], [1])], fi_field_set_count = 1, fi_field_set_ids = \<lparr>pc_bits_per_id = 0, pc_values = []\<rparr>,
      fi_field_membership = membership_new, fi_fields = []\<rparr>"

lemma bits_for_two: "bits_for_dictionary 2 = 1"
  by (simp add: bits_for_dictionary_def leading_zeros_def upt_rec [of _ 32] upt_conv_Cons word_le_nat_alt)

lemma flush_small: "n < 8 \<Longrightarrow> flush_bytes b n = ([], b, n)"
  by (simp add: flush_bytes.simps)

lemma sample_columns:
  "pack_ids [0, 1] 2 = Inr \<lparr>pc_bits_per_id = 1, pc_values = [2]\<rparr>"
  "pack_ids [0, 0] 1 = Inr \<lparr>pc_bits_per_id = 0, pc_values = []\<rparr>"
  by (simp_all add: pack_ids_def bits_for_two flush_small Let_def word_le_nat_alt) (simp_all add: bits_for_dictionary_def word_le_nat_alt)

lemma sample_frame_ok: "frame_index_ok sample_frame"
  using pack_ids_column_ok [OF sample_columns(1)] pack_ids_column_ok [OF sample_columns(2)]
  by (simp add: frame_index_ok_def sample_frame_def ids_ok_def valid_scalar_def membership_insert_def
      insert_hash_get(1) membership_new_def)

lemma sample_frame_encodes: "\<exists>bs. frame_index_encode sample_frame = Inr bs \<and> length bs \<le> usize_max"
proof -
  have n: "length (fi_term_membership sample_frame) = 128" "length (fi_field_membership sample_frame) = 128"
    using sample_frame_ok by (simp_all add: frame_index_ok_def)
  have e: "str_bytes [97] = [97]" "windows 2 [1 :: u32] = []" by code_simp+
  show ?thesis
    using n by (simp add: e frame_index_encode_def sample_frame_def encode_packed_column_def encode_optional_sorted_ids_def
        encode_locators_def encode_term_locator_def block_append_bytes_def encode_sorted_ids_def try_word_def
        encode_membership_filter_def length_filter_bytes
        block_write_varint_def word_less_nat_alt word_le_nat_alt)
qed

text \<open>C11:
  Decoding the encoded index of a frame gives back the index, down to the packed columns, the
  membership filters and every locator.
\<close>

theorem frame_index_round_trip:
  assumes "frame_index_ok fi" "frame_index_encode fi = Inr bs" "length bs \<le> usize_max"
  shows "frame_index_decode bs = Inr fi"
  using assms by (rule frame_index_decode_encode)

theorem frame_index_round_trip_witness:
  "\<exists>bs. frame_index_encode sample_frame = Inr bs \<and> frame_index_decode bs = Inr sample_frame"
  using frame_index_round_trip [OF sample_frame_ok] sample_frame_encodes by blast

text \<open>C12:
  An index decoded from any bytes is safe to query: neither lookup panics on an identifier that is
  out of range. A term selects the records whose layout holds it or is residual, a field the
  records whose field set holds it, in ordinal order, and all records if the field has no locator.
\<close>

theorem decoded_frame_lookups:
  assumes "frame_index_decode bs = Inr fi"
  shows "term_candidate_ordinals U fi t =
      Some (if might_contain (fi_term_membership fi) (str_bytes (normalize_index_term U t))
            then filter (\<lambda>x. packed_id (fi_layout_ids fi) x \<in> set (fi_residual_layout_ids fi) \<union>
              locator_ids (fi_terms fi) (normalize_index_term U t)) (word_range 0 (fi_record_count fi))
            else []) \<and>
    field_candidate_ordinals fi k v =
      Some (if might_contain_pair (fi_field_membership fi) (str_bytes k) (str_bytes v)
            then if (k, v) \<in> fst ` set (fi_fields fi)
              then filter (\<lambda>x. packed_id (fi_field_set_ids fi) x \<in> locator_ids (fi_fields fi) (k, v))
                (word_range 0 (fi_record_count fi))
              else word_range 0 (fi_record_count fi)
            else [])"
  using term_candidates [OF decoded_index_ok [OF assms]] field_candidates [OF decoded_index_ok [OF assms]] by blast

theorem decoded_frame_lookups_witness:
  "\<exists>bs. frame_index_decode bs = Inr sample_frame \<and> term_candidate_ordinals sample_ucd sample_frame [65] = Some [1]"
proof -
  obtain bs where bs: "frame_index_decode bs = Inr sample_frame"
    using frame_index_decode_encode [OF sample_frame_ok] sample_frame_encodes by blast
  have n: "normalize_index_term sample_ucd [65] = [97]" by code_simp
  have b: "str_bytes [97] = [97]" by code_simp
  have m: "might_contain (fi_term_membership sample_frame) [97]"
    by (simp add: sample_frame_def might_contain_def membership_insert_def might_contain_inserted(1) membership_new_def)
  have at: "packed_id (fi_layout_ids sample_frame) x = [0, 1] ! unat x" if "unat x < 2" for x
    using pack_ids_cases [OF sample_columns(1)] that by (simp add: sample_frame_def bits_for_two numeral_2_eq_2)
  have ids: "packed_id (fi_layout_ids sample_frame) 0 = 0" "packed_id (fi_layout_ids sample_frame) 1 = 1"
    using at [of 0] at [of 1] by simp_all
  have "word_range 0 (2 :: u32) = [0, 1]" by code_simp
  then have "term_candidate_ordinals sample_ucd sample_frame [65] = Some [1]"
    using decoded_frame_lookups [OF bs, of sample_ucd "[65]"] m ids
    by (simp add: n b) (simp add: sample_frame_def locator_ids_def)
  then show ?thesis using bs by blast
qed

end
