(* ===== verification/Stripe.thy ===== *)
theory Stripe
  imports Active_Block Hot_Index Frame_Index
begin

text \<open>
  One stripe (\<^verbatim>\<open>LogStripe\<close> in \<^verbatim>\<open>src/stripe.rs\<close>): durable records are validated,
  collected into active blocks, collated and sealed, indexed and published. An operation that the
  source runs on \<^verbatim>\<open>&mut self\<close> and that can fail maps the stripe to the stripe after it,
  which it returns also when it fails, and its result.

  The record \<open>stripe_env\<close> holds what lies outside: the Unicode tables, the Zstandard context
  with its two operations, the buffer library, the encoder of structural blocks, and the address
  of a record's shared fields, which picks a cache slot.
\<close>

section \<open>Configuration and environment\<close>

record stripe_config =
  sc_target_block_bytes :: u64
  sc_dictionary_cache_bytes :: nat
  sc_compression_level :: int
  sc_compression_locality :: compression_locality_config

definition stripe_config_default :: stripe_config where
  "stripe_config_default =
     \<lparr>sc_target_block_bytes = 8 * 1024 * 1024, sc_dictionary_cache_bytes = 16 * 1024 * 1024,
      sc_compression_level = 1, sc_compression_locality = locality_config_default\<rparr>"

definition stripe_config_validate :: "(int \<Rightarrow> bool) \<Rightarrow> sizes \<Rightarrow> stripe_config \<Rightarrow> unit log_db_result" where
  "stripe_config_validate level_supported sizes c =
     (if sc_target_block_bytes c = 0 then Inl (InvalidConfig ''target_block_bytes must be nonzero'')
      else if sc_dictionary_cache_bytes c = 0 then Inl (InvalidConfig ''dictionary_cache_bytes must be nonzero'')
      else if \<not> level_supported (sc_compression_level c)
      then Inl (InvalidConfig ''compression_level is outside zstd's supported range'')
      else case locality_validate sizes (sc_compression_locality c) of
        Inl e \<Rightarrow> Inl (InvalidConfig e) | Inr v \<Rightarrow> Inr v)"

record 'c zstd_bulk =
  zb_new :: "int \<Rightarrow> string + 'c"
  zb_set_dictionary :: "int \<Rightarrow> bytes \<Rightarrow> 'c \<Rightarrow> 'c \<times> (string + unit)"
  zb_compress :: "bytes \<Rightarrow> 'c \<Rightarrow> 'c \<times> (string + bytes)"

record 'c stripe_env =
  ev_ucd :: ucd
  ev_zstd :: "'c zstd_bulk"
  ev_encode :: "durable_log_record list \<Rightarrow> bytes log_db_result"
  ev_handoff :: handoff
  ev_address :: "durable_log_record \<Rightarrow> u64"

section \<open>Compression\<close>

record 'c stripe_compressor =
  cp_zstd_level :: int
  cp_active_dictionary :: "dictionary_id option"
  cp_zstd :: 'c

definition compressor_new :: "'c zstd_bulk \<Rightarrow> int \<Rightarrow> 'c stripe_compressor log_db_result" where
  "compressor_new Z level =
     (case zb_new Z level of Inl e \<Rightarrow> Inl (CompressionFailed e)
      | Inr z \<Rightarrow> Inr \<lparr>cp_zstd_level = level, cp_active_dictionary = None, cp_zstd = z\<rparr>)"

definition run_compress ::
  "'c zstd_bulk \<Rightarrow> bytes \<Rightarrow> 'c stripe_compressor \<Rightarrow> 'c stripe_compressor \<times> bytes log_db_result" where
  "run_compress Z source C =
     (case zb_compress Z source (cp_zstd C) of
        (z, Inl e) \<Rightarrow> (C\<lparr>cp_zstd := z\<rparr>, Inl (CompressionFailed e))
      | (z, Inr bs) \<Rightarrow> (C\<lparr>cp_zstd := z\<rparr>, Inr bs))"

definition compress ::
  "'c zstd_bulk \<Rightarrow> bytes \<Rightarrow> dictionary_id option \<Rightarrow> bytes option \<Rightarrow> 'c stripe_compressor \<Rightarrow>
   'c stripe_compressor \<times> bytes log_db_result" where
  "compress Z source dictionary payload C =
     (if cp_active_dictionary C \<noteq> dictionary
      then case (case (dictionary, payload) of
            (Some _, Some payload) \<Rightarrow> Inr payload
          | (Some d, None) \<Rightarrow> Inl (MissingDictionary d)
          | (None, _) \<Rightarrow> Inr []) of
        Inl e \<Rightarrow> (C, Inl e)
      | Inr bytes \<Rightarrow>
          (case zb_set_dictionary Z (cp_zstd_level C) bytes (cp_zstd C) of
             (z, Inl e) \<Rightarrow> (C\<lparr>cp_zstd := z\<rparr>, Inl (CompressionFailed e))
           | (z, Inr _) \<Rightarrow> run_compress Z source (C\<lparr>cp_zstd := z, cp_active_dictionary := dictionary\<rparr>))
      else run_compress Z source C)"

section \<open>The stripe\<close>

record active_block_key =
  ak_topic_partition :: topic_partition
  ak_source_cohort :: compression_cohort_id
  ak_placement_id :: compression_placement_id
  ak_dictionary_id :: "dictionary_id option"

record indexed_ingest_frame =
  if_cohort :: compression_cohort_id
  if_record_count :: u32
  if_structural_bytes :: nat
  if_min_timestamp :: u64
  if_max_timestamp :: u64
  if_compressed :: bytes
  if_index :: embedded_frame_index

record indexed_frame_append =
  fa_first_offset :: logical_offset
  fa_last_offset :: logical_offset
  fa_record_count :: u32
  fa_frames :: "indexed_ingest_frame list"

record indexed_frame_partition =
  fp_appends :: "indexed_frame_append list"
  fp_indexed_through :: "logical_offset option"

record 'c log_stripe =
  st_shard_id :: shard_id
  st_config :: stripe_config
  st_partitions :: "topic_partition \<rightharpoonup> partition_index"
  st_frame_partitions :: "topic_partition \<rightharpoonup> indexed_frame_partition"
  st_message_cache :: message_cache
  st_field_cache :: field_cache
  st_active_blocks :: "(active_block_key \<times> active_block) list"
  st_catalog :: block_catalog
  st_placement_dictionaries :: "compression_placement_id \<rightharpoonup> dictionary_id"
  st_dictionary_cache :: dictionary_cache
  st_dictionary_snapshot :: "dictionary_snapshot option"
  st_dictionary_generation :: u64
  st_collator :: block_collator
  st_compressor :: "'c stripe_compressor"

definition stripe_new ::
  "(int \<Rightarrow> bool) \<Rightarrow> sizes \<Rightarrow> 'c zstd_bulk \<Rightarrow> shard_id \<Rightarrow> stripe_config \<Rightarrow> 'c log_stripe log_db_result" where
  "stripe_new level_supported sizes Z shard c =
     and_then (stripe_config_validate level_supported sizes c) (\<lambda>_.
     and_then (collator_new sizes (sc_compression_locality c) (sc_target_block_bytes c)) (\<lambda>collator.
     and_then (cache_new (sc_dictionary_cache_bytes c)) (\<lambda>cache.
     and_then (compressor_new Z (sc_compression_level c)) (\<lambda>compressor.
       Inr \<lparr>st_shard_id = shard, st_config = c, st_partitions = Map.empty,
         st_frame_partitions = Map.empty, st_message_cache = Map.empty,
         st_field_cache = Map.empty, st_active_blocks = [], st_catalog = catalog_default,
         st_placement_dictionaries = Map.empty, st_dictionary_cache = cache,
         st_dictionary_snapshot = None, st_dictionary_generation = 0, st_collator = collator,
         st_compressor = compressor\<rparr>))))"

definition partition_of :: "('c, 'z) log_stripe_scheme \<Rightarrow> topic_partition \<Rightarrow> partition_index" where
  "partition_of st tp = (case st_partitions st tp of None \<Rightarrow> partition_default | Some P \<Rightarrow> P)"

definition final_compression_placement ::
  "('c, 'z) log_stripe_scheme \<Rightarrow> record_ref \<Rightarrow> compression_placement option" where
  "final_compression_placement st r =
     Option.bind (st_partitions st (rr_topic_partition r)) (\<lambda>P.
       Option.bind (partition_record P (rr_offset r)) ir_final_placement)"

subsection \<open>Dictionaries\<close>

text \<open>
  The shared catalog is an argument: whether its lock is poisoned, and its current snapshot.
\<close>

type_synonym shared_catalog = "(bool \<times> dictionary_snapshot) option"

definition refresh_dictionary_catalog ::
  "shared_catalog \<Rightarrow> ('c, 'z) log_stripe_scheme \<Rightarrow> ('c, 'z) log_stripe_scheme \<times> bool log_db_result" where
  "refresh_dictionary_catalog catalog st =
     (case catalog of
        None \<Rightarrow> (st, Inr False)
      | Some (poisoned, s) \<Rightarrow>
          (case catalog_snapshot poisoned s of
             Inl e \<Rightarrow> (st, Inl e)
           | Inr s \<Rightarrow>
               if ds_generation s = st_dictionary_generation st then (st, Inr False)
               else (st\<lparr>st_placement_dictionaries := ds_placement_dictionaries s,
                        st_dictionary_generation := ds_generation s,
                        st_dictionary_snapshot := Some s\<rparr>, Inr True)))"

definition install_dictionary ::
  "shared_catalog \<Rightarrow> compression_placement_id \<Rightarrow> dictionary_id \<Rightarrow> bytes \<Rightarrow> ('c, 'z) log_stripe_scheme \<Rightarrow>
   ('c, 'z) log_stripe_scheme \<times> shared_catalog \<times> dictionary_insert log_db_result" where
  "install_dictionary catalog p d payload st =
     (let (st, catalog, r) =
        (case catalog of
           None \<Rightarrow> (st\<lparr>st_placement_dictionaries := (st_placement_dictionaries st)(p \<mapsto> d)\<rparr>, None, Inr False)
         | Some (poisoned, s) \<Rightarrow>
             (case publish poisoned s p d payload of
                Inl e \<Rightarrow> (st, catalog, Inl e)
              | Inr (s, _) \<Rightarrow>
                  let (st, r) = refresh_dictionary_catalog (Some (poisoned, s)) st
                  in (st, Some (poisoned, s), r)))
      in case r of
           Inl e \<Rightarrow> (st, catalog, Inl e)
         | Inr _ \<Rightarrow>
             (case cache_insert (st_dictionary_cache st) d payload of
                Inl e \<Rightarrow> (st, catalog, Inl e)
              | Inr (cache, ins) \<Rightarrow> (st\<lparr>st_dictionary_cache := cache\<rparr>, catalog, Inr ins)))"

definition resolve_dictionary ::
  "compression_placement_id \<Rightarrow> ('c, 'z) log_stripe_scheme \<Rightarrow>
   ('c, 'z) log_stripe_scheme \<times> (dictionary_id option \<times> bytes option) log_db_result" where
  "resolve_dictionary p st =
     (case st_placement_dictionaries st p of
        None \<Rightarrow> (st, Inr (None, None))
      | Some d \<Rightarrow>
          let (cache, found) = cache_get (st_dictionary_cache st) d;
              st = st\<lparr>st_dictionary_cache := cache\<rparr>
          in case found of
               Some payload \<Rightarrow> (st, Inr (Some d, Some payload))
             | None \<Rightarrow>
                 (case Option.bind (st_dictionary_snapshot st) (\<lambda>s. ds_dictionaries s d) of
                    None \<Rightarrow> (st, Inl (MissingDictionary d))
                  | Some payload \<Rightarrow>
                      (case cache_insert cache d payload of
                         Inl e \<Rightarrow> (st, Inl e)
                       | Inr (cache, _) \<Rightarrow>
                           (st\<lparr>st_dictionary_cache := cache\<rparr>, Inr (Some d, Some payload)))))"

subsection \<open>Sealing\<close>

definition set_final_placement ::
  "compression_placement \<Rightarrow> ('c, 'z) log_stripe_scheme \<Rightarrow> pending_record \<Rightarrow> ('c, 'z) log_stripe_scheme" where
  "set_final_placement placement st p =
     (let tp = rr_topic_partition (record_ref (pr_record p)) in
      case st_partitions st tp of
        None \<Rightarrow> st
      | Some P \<Rightarrow>
          (case binary_search_by_key ir_offset (pr_offset p) (pi_records P) of
             Inl _ \<Rightarrow> st
           | Inr i \<Rightarrow> st\<lparr>st_partitions := (st_partitions st)(tp \<mapsto>
               P\<lparr>pi_records := (pi_records P)[i := (pi_records P ! i)\<lparr>ir_final_placement := Some placement\<rparr>]\<rparr>)\<rparr>))"

definition block_descriptor_of ::
  "shard_id \<Rightarrow> stripe_config \<Rightarrow> active_block_key \<Rightarrow> active_block \<Rightarrow> block_score \<Rightarrow> bytes \<Rightarrow> bytes \<Rightarrow> block_descriptor" where
  "block_descriptor_of shard c key b score structural compressed =
     \<lparr>bd_block_id = 0, bd_stream_shard_id = shard, bd_topic_partition = ak_topic_partition key,
      bd_source_compression_cohort = ak_source_cohort key, bd_placement_id = ak_placement_id key,
      bd_dictionary_id = ak_dictionary_id key, bd_compression_codec = Zstd,
      bd_compression_level = sc_compression_level c, bd_first_offset = ab_first_offset b,
      bd_last_offset = ab_last_offset b, bd_record_count = ab_record_count b,
      bd_source_bytes = ab_source_bytes b,
      bd_structural_bytes = of_nat (min (length structural) usize_max),
      bd_stored_bytes = of_nat (min (length compressed) usize_max),
      bd_min_timestamp = ab_min_timestamp b, bd_max_timestamp = ab_max_timestamp b,
      bd_compression_temperature = score_temperature score,
      bd_compression_shape_hash = score_shape_hash score,
      bd_temperature_variance_q8 = score_variance_q8 score,
      bd_max_temperature_deviation = score_max_deviation score,
      bd_object_key = None, bd_object_offset = None\<rparr>"

text \<open>The observer of the real-time trainer only reads the block; its queue is not part of the stripe.\<close>

definition stage_active_block ::
  "'c stripe_env \<Rightarrow> active_block_key \<Rightarrow> active_block \<Rightarrow> compression_placement \<Rightarrow> block_score \<Rightarrow>
   ('c, 'z) log_stripe_scheme \<Rightarrow> ('c, 'z) log_stripe_scheme \<times> block_descriptor log_db_result" where
  "stage_active_block E key b placement score st =
     (case ev_encode E (map pr_record (ab_records b)) of
        Inl e \<Rightarrow> (st, Inl e)
      | Inr structural \<Rightarrow>
          let (C, r) = compress (ev_zstd E) structural (ak_dictionary_id key) (ab_dictionary_payload b) (st_compressor st);
              st = st\<lparr>st_compressor := C\<rparr>
          in case r of
               Inl e \<Rightarrow> (st, Inl e)
             | Inr compressed \<Rightarrow>
                 let st = foldl (set_final_placement placement) st (ab_records b);
                     (catalog, d) = catalog_seal
                       (block_descriptor_of (st_shard_id st) (st_config st) key b score structural compressed)
                       compressed (st_catalog st)
                 in (st\<lparr>st_catalog := catalog\<rparr>, Inr d))"

subsection \<open>Rebalancing\<close>

abbreviation MAX_REBALANCE_PASSES :: u8 where "MAX_REBALANCE_PASSES \<equiv> 3"

type_synonym rebalance_work = "(active_block_key \<times> active_block) list"

text \<open>One assignment of a collated block: its records form a group that is sealed, kept or queued.\<close>

definition target_block ::
  "active_block_key \<Rightarrow> active_block \<Rightarrow> compression_placement \<Rightarrow> ('c, 'z) log_stripe_scheme \<Rightarrow>
   ('c, 'z) log_stripe_scheme \<times> (active_block_key \<times> bytes option) log_db_result" where
  "target_block home b placement st =
     (if placement_id placement = ak_placement_id home then (st, Inr (home, ab_dictionary_payload b))
      else case resolve_dictionary (placement_id placement) st of
        (st, Inl e) \<Rightarrow> (st, Inl e)
      | (st, Inr (dictionary, payload)) \<Rightarrow>
          (st, Inr (home\<lparr>ak_placement_id := placement_id placement, ak_dictionary_id := dictionary\<rparr>, payload)))"

definition place_group ::
  "'c stripe_env \<Rightarrow> bool \<Rightarrow> active_block_key \<Rightarrow> active_block \<Rightarrow> nat \<Rightarrow> block_assignment \<Rightarrow>
   rebalance_work \<times> block_descriptor list \<Rightarrow> ('c, 'z) log_stripe_scheme \<Rightarrow>
   ('c, 'z) log_stripe_scheme \<times> (rebalance_work \<times> block_descriptor list) log_db_result" where
  "place_group E force_seal home b n a = (\<lambda>(work, sealed) st.
     case target_block home b (as_placement a) st of
       (st, Inl e) \<Rightarrow> (st, Inl e)
     | (st, Inr (target, payload)) \<Rightarrow>
         let group = active_from_records (map (\<lambda>i. ab_records b ! i) (record_indices a)) payload
               (saturating_add (ab_rebalance_passes b) 1);
             seal = (\<lambda>group st. case stage_active_block E target group (as_placement a) (as_score a) st of
               (st, Inl e) \<Rightarrow> (st, Inl e)
             | (st, Inr d) \<Rightarrow> (st, Inr (work, sealed @ [d])))
         in if force_seal then seal group st
            else let existing = map_of (st_active_blocks st) target;
                     st = st\<lparr>st_active_blocks := AList.delete target (st_active_blocks st)\<rparr>;
                     group = (case existing of None \<Rightarrow> group | Some x \<Rightarrow> active_append_block x group)
                 in if ab_source_bytes group < sc_target_block_bytes (st_config st)
                    then (st\<lparr>st_active_blocks := AList.update target group (st_active_blocks st)\<rparr>, Inr (work, sealed))
                    else if existing = None \<and> n = 1 \<and> ak_placement_id target = ak_placement_id home \<and>
                        score_variance_q8 (as_score a) \<le> lc_split_variance_q8 (sc_compression_locality (st_config st))
                      \<or> ab_rebalance_passes group \<ge> MAX_REBALANCE_PASSES
                    then seal group st
                    else (st, Inr (work @ [(target, group)], sealed)))"

fun place_groups ::
  "'c stripe_env \<Rightarrow> bool \<Rightarrow> active_block_key \<Rightarrow> active_block \<Rightarrow> nat \<Rightarrow> block_assignment list \<Rightarrow>
   rebalance_work \<times> block_descriptor list \<Rightarrow> ('c, 'z) log_stripe_scheme \<Rightarrow>
   ('c, 'z) log_stripe_scheme \<times> (rebalance_work \<times> block_descriptor list) log_db_result" where
  "place_groups E force_seal home b n [] acc st = (st, Inr acc)"
| "place_groups E force_seal home b n (a # as) acc st =
     (case place_group E force_seal home b n a acc st of
        (st, Inl e) \<Rightarrow> (st, Inl e)
      | (st, Inr acc) \<Rightarrow> place_groups E force_seal home b n as acc st)"

definition rebalance_step ::
  "'c stripe_env \<Rightarrow> bool \<Rightarrow> active_block_key \<times> active_block \<Rightarrow> rebalance_work \<times> block_descriptor list \<Rightarrow>
   ('c, 'z) log_stripe_scheme \<Rightarrow> ('c, 'z) log_stripe_scheme \<times> (rebalance_work \<times> block_descriptor list) log_db_result" where
  "rebalance_step E force_seal = (\<lambda>(home, b) acc st.
     let (collator, as) = collate (ev_handoff E) (st_collator st) (ak_source_cohort home) (ak_placement_id home)
           (map pending_locality (ab_records b))
     in place_groups E force_seal home b (length as) as acc (st\<lparr>st_collator := collator\<rparr>))"

text \<open>A step only queues blocks that went through more passes than the one it took.\<close>

abbreviation queued_after :: "u8 \<Rightarrow> rebalance_work \<Rightarrow> bool" where
  "queued_after p ws \<equiv> \<forall>w\<in>set ws. p < ab_rebalance_passes (snd w) \<and> ab_rebalance_passes (snd w) < MAX_REBALANCE_PASSES"

lemma passes_grow:
  assumes "saturating_add p 1 \<le> (q :: u8)" "q < MAX_REBALANCE_PASSES"
  shows "p < q"
proof -
  have "min (Suc (unat p)) 255 \<le> unat q" "unat q < 3"
    using assms by (simp_all add: word_le_nat_alt word_less_nat_alt unat_saturating_add)
  then show ?thesis by (simp add: word_less_nat_alt)
qed

lemma active_append_passes:
  "ab_rebalance_passes (foldl (\<lambda>b p. active_append p b) b ps) = ab_rebalance_passes b"
  by (induction ps arbitrary: b) (simp_all add: active_append_def)

lemma from_records_passes [simp]: "ab_rebalance_passes (active_from_records ps d passes) = passes"
  by (simp add: active_from_records_def Let_def active_append_passes)

lemma place_group_work:
  assumes "place_group E force_seal home b n a (work, sealed) st = (st', Inr (work', sealed'))"
  shows "\<exists>new. work' = work @ new \<and> queued_after (ab_rebalance_passes b) new"
proof -
  obtain st1 target payload where t: "target_block home b (as_placement a) st = (st1, Inr (target, payload))"
    using assms by (cases "target_block home b (as_placement a) st"; cases "snd (target_block home b (as_placement a) st)")
      (auto simp: place_group_def)
  let ?g = "active_from_records (map (\<lambda>i. ab_records b ! i) (record_indices a)) payload
      (saturating_add (ab_rebalance_passes b) 1)"
  let ?h = "case map_of (st_active_blocks st1) target of None \<Rightarrow> ?g | Some x \<Rightarrow> active_append_block x ?g"
  have "saturating_add (ab_rebalance_passes b) 1 \<le> ab_rebalance_passes ?h"
    by (simp add: active_append_block_def split: option.splits)
  moreover have "work' = work \<or> work' = work @ [(target, ?h)] \<and> \<not> MAX_REBALANCE_PASSES \<le> ab_rebalance_passes ?h"
    using assms unfolding place_group_def prod.case t sum.case Let_def
    by (simp split: prod.split_asm sum.split_asm if_split_asm)
  ultimately show ?thesis by (auto simp: not_le intro: passes_grow)
qed

lemma place_groups_work:
  assumes "place_groups E force_seal home b n as (work, sealed) st = (st', Inr (work', sealed'))"
  shows "\<exists>new. work' = work @ new \<and> queued_after (ab_rebalance_passes b) new"
  using assms
proof (induction as arbitrary: work sealed st)
  case (Cons a as)
  then obtain st1 work1 sealed1 where one: "place_group E force_seal home b n a (work, sealed) st = (st1, Inr (work1, sealed1))"
    and rest: "place_groups E force_seal home b n as (work1, sealed1) st1 = (st', Inr (work', sealed'))"
    by (auto split: prod.splits sum.splits)
  from place_group_work [OF one] Cons.IH [OF rest] show ?case by force
qed simp

lemma rebalance_step_work:
  assumes "rebalance_step E force_seal (home, b) (work, sealed) st = (st', Inr (work', sealed'))"
  shows "\<exists>new. work' = work @ new \<and> queued_after (ab_rebalance_passes b) new"
  using assms place_groups_work by (fastforce simp: rebalance_step_def split: prod.splits)

definition passes_left :: "active_block_key \<times> active_block \<Rightarrow> nat" where
  "passes_left w = 3 - unat (ab_rebalance_passes (snd w))"

lemma passes_left_less: "queued_after p [w] \<Longrightarrow> ab_rebalance_passes (snd v) = p \<Longrightarrow> passes_left w < passes_left v"
  by (auto simp: passes_left_def word_less_nat_alt)

lemma rebalance_step_smaller:
  assumes "work \<noteq> []" "rebalance_step E force_seal (last work) (butlast work, sealed) st = (st', Inr (work', sealed'))"
  shows "(mset (map passes_left work'), mset (map passes_left work)) \<in> mult less_than"
proof -
  obtain ws home b where work: "work = ws @ [(home, b)]" using assms(1) by (metis rev_exhaust surj_pair)
  obtain new where new: "work' = ws @ new" "queued_after (ab_rebalance_passes b) new"
    using rebalance_step_work [of E force_seal home b ws sealed st st' work' sealed'] assms(2) unfolding work by auto
  have less: "\<exists>j\<in>#{#passes_left (home, b)#}. (k, j) \<in> less_than" if k: "k \<in># mset (map passes_left new)" for k
  proof -
    obtain w where "w \<in> set new" "k = passes_left w" using k by auto
    then show ?thesis using new(2) passes_left_less [of w "ab_rebalance_passes b" "(home, b)"] by simp
  qed
  have "(mset (map passes_left ws) + mset (map passes_left new),
      mset (map passes_left ws) + {#passes_left (home, b)#}) \<in> mult less_than"
    by (rule one_step_implies_mult) (use less in auto)
  then show ?thesis unfolding work new(1) map_append mset_append list.map mset.simps .
qed

text \<open>
  The work loop: the last queued block is taken. Its parts are queued again only with more
  passes, and never with three, so that the queue gets smaller in the multiset order of the passes
  left.
\<close>

function rebalance_loop ::
  "'c stripe_env \<Rightarrow> bool \<Rightarrow> rebalance_work \<Rightarrow> block_descriptor list \<Rightarrow> ('c, 'z) log_stripe_scheme \<Rightarrow>
   ('c, 'z) log_stripe_scheme \<times> block_descriptor list log_db_result" where
  "rebalance_loop E force_seal work sealed st =
     (if work = [] then (st, Inr sealed)
      else case rebalance_step E force_seal (last work) (butlast work, sealed) st of
        (st, Inl e) \<Rightarrow> (st, Inl e)
      | (st, Inr (work, sealed)) \<Rightarrow> rebalance_loop E force_seal work sealed st)"
  by pat_completeness auto
termination
proof (relation "inv_image (mult less_than) (\<lambda>(E, force_seal, work, sealed, st). mset (map passes_left work))")
  show "wf (inv_image (mult less_than) (\<lambda>(E, force_seal, work, sealed, st). mset (map passes_left work)))"
    by (intro wf_inv_image wf_mult wf_less_than)
next
  fix E :: "'c stripe_env" and force_seal work sealed st
    and st' :: "('c, 'z) log_stripe_scheme" and r acc work' sealed'
  assume "work \<noteq> []" "(st', r) = rebalance_step E force_seal (last work) (butlast work, sealed) st"
    "r = Inr acc" "(work', sealed') = acc"
  then have "work \<noteq> []"
    "rebalance_step E force_seal (last work) (butlast work, sealed) st = (st', Inr (work', sealed'))" by simp_all
  then show "((E, force_seal, work', sealed', st'), E, force_seal, work, sealed, st)
      \<in> inv_image (mult less_than) (\<lambda>(E, force_seal, work, sealed, st). mset (map passes_left work))"
    unfolding in_inv_image prod.case by (rule rebalance_step_smaller)
qed

declare rebalance_loop.simps [simp del]

end
