(* ===== verification/Stripe_Apply.thy ===== *)
theory Stripe_Apply
  imports Stripe
begin

text \<open>
  Publishing durable records in a stripe (\<^verbatim>\<open>apply_durable\<close>, \<^verbatim>\<open>apply_otlp_events\<close> and
  what they call in \<^verbatim>\<open>src/stripe.rs\<close>), and the hot part of a query. Placing and
  sealing blocks leaves the index alone.
\<close>

section \<open>Source bytes of a record\<close>

definition add_field_bytes :: "u64 log_db_result \<Rightarrow> metadata_field \<Rightarrow> u64 log_db_result" where
  "add_field_bytes acc f =
     and_then acc (\<lambda>total_bytes.
     and_then (validate_u32_length (str_len (field_key f))) (\<lambda>_.
     and_then (validate_u32_length (str_len (field_value f))) (\<lambda>_.
       ok_or (Option.bind (checked_add total_bytes 8) (\<lambda>v.
              Option.bind (try_word (str_len (field_key f))) (\<lambda>k.
              Option.bind (checked_add v k) (\<lambda>v.
              Option.bind (try_word (str_len (field_value f))) (\<lambda>w. checked_add v w)))))
         RecordTooLarge)))"

definition row_source_bytes :: "durable_log_record \<Rightarrow> u64 log_db_result" where
  "row_source_bytes r =
     and_then (validate_u32_length (str_len (message r))) (\<lambda>_.
     and_then (validate_u32_length (length (record_fields r))) (\<lambda>_.
       foldl add_field_bytes
         (and_then (ok_or (try_word (str_len (message r))) RecordTooLarge) (\<lambda>m.
           ok_or (checked_add 24 m) RecordTooLarge))
         (record_fields r)))"

section \<open>Rebalancing and sealing\<close>

definition rebalance_block ::
  "'c stripe_env \<Rightarrow> active_block_key \<Rightarrow> active_block \<Rightarrow> bool \<Rightarrow> ('c, 'z) log_stripe_scheme \<Rightarrow>
   ('c, 'z) log_stripe_scheme \<times> block_descriptor list log_db_result" where
  "rebalance_block E key b force_seal st =
     (if \<not> lc_enabled (co_config (st_collator st))
      then case stage_active_block E key b (base_placement (ak_source_cohort key) 0)
             \<lparr>score_temperature = 0, score_shape_hash = 0, score_variance_q8 = 0, score_max_deviation = 0,
              score_source_bytes = ab_source_bytes b, score_record_count = length (ab_records b)\<rparr> st of
        (st, Inl e) \<Rightarrow> (st, Inl e)
      | (st, Inr d) \<Rightarrow> (st, Inr [d])
      else rebalance_loop E force_seal [(key, b)] [] st)"

fun seal_blocks ::
  "'c stripe_env \<Rightarrow> rebalance_work \<Rightarrow> block_descriptor list \<Rightarrow> ('c, 'z) log_stripe_scheme \<Rightarrow>
   ('c, 'z) log_stripe_scheme \<times> block_descriptor list log_db_result" where
  "seal_blocks E [] sealed st = (st, Inr sealed)"
| "seal_blocks E ((key, b) # blocks) sealed st =
     (case rebalance_block E key b True st of
        (st, Inl e) \<Rightarrow> (st, Inl e)
      | (st, Inr ds) \<Rightarrow> seal_blocks E blocks (sealed @ ds) st)"

text \<open>
  The active blocks are a hash map in the source; \<open>order\<close> is the order in which the loop visits
  them, of which nothing is assumed.
\<close>

definition seal_active_blocks ::
  "(rebalance_work \<Rightarrow> rebalance_work) \<Rightarrow> 'c stripe_env \<Rightarrow> ('c, 'z) log_stripe_scheme \<Rightarrow> ('c, 'z) log_stripe_scheme \<times> block_descriptor list log_db_result" where
  "seal_active_blocks order E st = seal_blocks E (order (st_active_blocks st)) [] (st\<lparr>st_active_blocks := []\<rparr>)"

section \<open>One record\<close>

record index_receipt =
  rc_record_ref :: record_ref
  rc_indexed_through :: logical_offset
  rc_compression_temperature :: compression_temperature
  rc_tentative_placement :: compression_placement
  rc_sealed_blocks :: "block_descriptor list"

record applied_record =
  ap_receipt :: index_receipt
  ap_ordinal :: u32
  ap_term_ids :: "nat list option"
  ap_field_ids :: "nat list option"

definition validate_offset :: "('c, 'z) log_stripe_scheme \<Rightarrow> durable_log_record \<Rightarrow> unit log_db_result" where
  "validate_offset st r =
     (let tp = rr_topic_partition (record_ref r) in
      case Option.bind (st_partitions st tp) partition_last_offset of
        None \<Rightarrow> Inr ()
      | Some previous \<Rightarrow>
          and_then (ok_or (checked_add previous 1) (OffsetExhausted tp)) (\<lambda>expected.
            if record_offset r \<le> previous then Inl (OffsetOutOfOrder tp expected (record_offset r))
            else Inr ()))"

definition push_record :: "indexed_record \<Rightarrow> ('c, 'z) log_stripe_scheme \<Rightarrow> ('c, 'z) log_stripe_scheme" where
  "push_record ir st =
     (let tp = rr_topic_partition (record_ref (ir_record ir)); P = partition_of st tp
      in st\<lparr>st_partitions := (st_partitions st)(tp \<mapsto> P\<lparr>pi_records := pi_records P @ [ir]\<rparr>)\<rparr>)"

definition pop_record :: "topic_partition \<Rightarrow> ('c, 'z) log_stripe_scheme \<Rightarrow> ('c, 'z) log_stripe_scheme" where
  "pop_record tp st =
     (case st_partitions st tp of
        None \<Rightarrow> st
      | Some P \<Rightarrow> st\<lparr>st_partitions := (st_partitions st)(tp \<mapsto> P\<lparr>pi_records := butlast (pi_records P)\<rparr>)\<rparr>)"

text \<open>The record joins its active block, which is rebalanced when it reaches the target size.\<close>

definition collect_record ::
  "'c stripe_env \<Rightarrow> active_block_key \<Rightarrow> bytes option \<Rightarrow> pending_record \<Rightarrow> ('c, 'z) log_stripe_scheme \<Rightarrow>
   ('c, 'z) log_stripe_scheme \<times> block_descriptor list log_db_result" where
  "collect_record E key payload p st =
     (let existing = map_of (st_active_blocks st) key;
          joined = (case existing of None \<Rightarrow> active_new p payload | Some b \<Rightarrow> active_append p b);
          bytes = (case existing of None \<Rightarrow> pr_source_bytes p
                   | Some b \<Rightarrow> saturating_add (ab_source_bytes b) (pr_source_bytes p))
      in if bytes \<ge> sc_target_block_bytes (st_config st)
         then rebalance_block E key joined False
                (st\<lparr>st_active_blocks := AList.delete key (st_active_blocks st)\<rparr>)
         else (st\<lparr>st_active_blocks := AList.update key joined (st_active_blocks st)\<rparr>, Inr []))"

definition index_new_record ::
  "'c stripe_env \<Rightarrow> durable_log_record \<Rightarrow> u32 \<Rightarrow> ('c, 'z) log_stripe_scheme \<Rightarrow>
   ('c, 'z) log_stripe_scheme \<times> nat list \<times> nat list" where
  "index_new_record E r x st =
     (let tp = rr_topic_partition (record_ref r);
          ((mc, P), ts) = index_terms (ev_ucd E) r x (st_message_cache st, partition_of st tp);
          ((fc, P), fs) = index_fields (ev_address E r) r x (st_field_cache st, P)
      in (st\<lparr>st_message_cache := mc, st_field_cache := fc,
             st_partitions := (st_partitions st)(tp \<mapsto> P\<lparr>pi_indexed_through := Some (record_offset r)\<rparr>)\<rparr>,
          ts, fs))"

definition record_fingerprint :: "'c stripe_env \<Rightarrow> ('c, 'z) log_stripe_scheme \<Rightarrow> durable_log_record \<Rightarrow> message_fingerprint" where
  "record_fingerprint E st r =
     (if lc_enabled (co_config (st_collator st)) then fingerprint_message (ev_ucd E) (message r) (record_fields r)
      else \<lparr>shape_hash = 0, locality_signature = 0\<rparr>)"

text \<open>What is done once the record's source bytes and dictionary are known.\<close>

definition store_record ::
  "'c stripe_env \<Rightarrow> durable_log_record \<Rightarrow> bool \<Rightarrow> u64 \<Rightarrow> message_fingerprint \<Rightarrow> compression_placement \<Rightarrow>
   dictionary_id option \<times> bytes option \<Rightarrow> ('c, 'z) log_stripe_scheme \<Rightarrow>
   ('c, 'z) log_stripe_scheme \<times> applied_record log_db_result" where
  "store_record E r index source_bytes f placement = (\<lambda>(dictionary, payload) st.
     let tp = rr_topic_partition (record_ref r);
         key = \<lparr>ak_topic_partition = tp, ak_source_cohort = compression_cohort r,
           ak_placement_id = placement_id placement, ak_dictionary_id = dictionary\<rparr>;
         n = length (pi_records (partition_of st tp))
     in if n \<ge> 2 ^ 32
        then (st\<lparr>st_partitions := (st_partitions st)(tp \<mapsto> partition_of st tp)\<rparr>, Inl RecordTooLarge)
        else case collect_record E key payload
            \<lparr>pr_record = r, pr_source_bytes = source_bytes, pr_fingerprint = f\<rparr>
            (push_record \<lparr>ir_record = r, ir_tentative_placement = placement,
              ir_temperature = locality_signature f, ir_final_placement = None\<rparr> st) of
          (st, Inl e) \<Rightarrow> (pop_record tp st, Inl e)
        | (st, Inr sealed) \<Rightarrow>
            let (st, ids) = (if index then let (st, ts, fs) = index_new_record E r (of_nat n) st in (st, Some (ts, fs))
                             else (st, None))
            in (st, Inr \<lparr>ap_receipt = \<lparr>rc_record_ref = record_ref r, rc_indexed_through = record_offset r,
                  rc_compression_temperature = locality_signature f, rc_tentative_placement = placement,
                  rc_sealed_blocks = sealed\<rparr>, ap_ordinal = of_nat n,
                  ap_term_ids = map_option fst ids, ap_field_ids = map_option snd ids\<rparr>))"

definition apply_durable_new_inner ::
  "'c stripe_env \<Rightarrow> durable_log_record \<Rightarrow> bool \<Rightarrow> ('c, 'z) log_stripe_scheme \<Rightarrow>
   ('c, 'z) log_stripe_scheme \<times> applied_record log_db_result" where
  "apply_durable_new_inner E r index st =
     (case and_then (validate_offset st r) (\<lambda>_. row_source_bytes r) of
        Inl e \<Rightarrow> (st, Inl e)
      | Inr source_bytes \<Rightarrow>
          let f = record_fingerprint E st r;
              placement = tentative_placement (st_collator st) (compression_cohort r) f
          in case resolve_dictionary (placement_id placement) st of
               (st, Inl e) \<Rightarrow> (st, Inl e)
             | (st, Inr dictionary) \<Rightarrow> store_record E r index source_bytes f placement dictionary st)"

definition apply_durable_new ::
  "'c stripe_env \<Rightarrow> durable_log_record \<Rightarrow> ('c, 'z) log_stripe_scheme \<Rightarrow>
   ('c, 'z) log_stripe_scheme \<times> index_receipt log_db_result" where
  "apply_durable_new E r st =
     (case apply_durable_new_inner E r True st of
        (st, Inl e) \<Rightarrow> (st, Inl e) | (st, Inr a) \<Rightarrow> (st, Inr (ap_receipt a)))"

definition apply_durable ::
  "'c stripe_env \<Rightarrow> durable_log_record \<Rightarrow> ('c, 'z) log_stripe_scheme \<Rightarrow>
   ('c, 'z) log_stripe_scheme \<times> index_receipt log_db_result" where
  "apply_durable E r st =
     (let tp = rr_topic_partition (record_ref r) in
      if stream_shard_id r \<noteq> st_shard_id st then (st, Inl (WrongStripe (st_shard_id st) (stream_shard_id r)))
      else if Option.bind (st_partitions st tp) (\<lambda>P. partition_record P (record_offset r)) \<noteq> None
      then (st, Inl (DuplicateRecord tp (record_offset r)))
      else apply_durable_new E r st)"

section \<open>Batches\<close>

record otlp_log_event =
  oe_timestamp_unix_nanos :: u64
  oe_message :: rstr
  oe_fields :: "metadata_field list"
  oe_compression_cohort :: compression_cohort_id

definition into_durable :: "otlp_log_event \<Rightarrow> shard_id \<Rightarrow> topic_partition \<Rightarrow> logical_offset \<Rightarrow> durable_log_record" where
  "into_durable e shard tp off =
     \<lparr>stream_shard_id = shard, record_ref = record_ref_new tp off,
      timestamp_unix_nanos = oe_timestamp_unix_nanos e, message = oe_message e,
      record_fields = oe_fields e, compression_cohort = oe_compression_cohort e\<rparr>"

definition batch_offset :: "topic_partition \<Rightarrow> logical_offset \<Rightarrow> nat \<Rightarrow> logical_offset log_db_result" where
  "batch_offset tp first_offset index =
     and_then (ok_or (try_word index) (OffsetExhausted tp)) (\<lambda>relative.
       ok_or (checked_add first_offset relative) (OffsetExhausted tp))"

definition validate_batch_offset_range :: "topic_partition \<Rightarrow> logical_offset \<Rightarrow> nat \<Rightarrow> unit log_db_result" where
  "validate_batch_offset_range tp first_offset n =
     (if n = 0 then Inr () else and_then (batch_offset tp first_offset (n - 1)) (\<lambda>_. Inr ()))"

definition stripe_indexed_through :: "('c, 'z) log_stripe_scheme \<Rightarrow> topic_partition \<Rightarrow> logical_offset option" where
  "stripe_indexed_through st tp =
     (case (Option.bind (st_partitions st tp) pi_indexed_through,
        Option.bind (st_frame_partitions st tp) fp_indexed_through) of
        (None, w) \<Rightarrow> w | (w, None) \<Rightarrow> w | (Some v, Some w) \<Rightarrow> Some (max v w))"

definition existing_record :: "('c, 'z) log_stripe_scheme \<Rightarrow> topic_partition \<Rightarrow> logical_offset \<Rightarrow> indexed_record option" where
  "existing_record st tp off =
     Option.bind (st_partitions st tp) (\<lambda>P.
       if pi_records P = [] then None
       else case cmp (ir_offset (last (pi_records P))) off of
              Less \<Rightarrow> None | Equal \<Rightarrow> Some (last (pi_records P)) | Greater \<Rightarrow> partition_record P off)"

definition apply_durable_idempotent ::
  "'c stripe_env \<Rightarrow> durable_log_record \<Rightarrow> ('c, 'z) log_stripe_scheme \<Rightarrow>
   ('c, 'z) log_stripe_scheme \<times> index_receipt log_db_result" where
  "apply_durable_idempotent E r st =
     (let tp = rr_topic_partition (record_ref r); off = record_offset r in
      case existing_record st tp off of
        Some x \<Rightarrow>
          if ir_record x \<noteq> r then (st, Inl (ConflictingRecord tp off))
          else (st, Inr \<lparr>rc_record_ref = record_ref r,
            rc_indexed_through = (case stripe_indexed_through st tp of None \<Rightarrow> off | Some w \<Rightarrow> w),
            rc_compression_temperature = ir_temperature x, rc_tentative_placement = ir_tentative_placement x,
            rc_sealed_blocks = []\<rparr>)
      | None \<Rightarrow> apply_durable_new E r st)"

definition can_index_as_homogeneous_range ::
  "('c, 'z) log_stripe_scheme \<Rightarrow> topic_partition \<Rightarrow> logical_offset \<Rightarrow> otlp_log_event list \<Rightarrow> bool" where
  "can_index_as_homogeneous_range st tp first_offset events \<longleftrightarrow>
     length events \<ge> 2 \<and>
     \<not> (case Option.bind (st_partitions st tp) partition_last_offset of
          None \<Rightarrow> False | Some l \<Rightarrow> first_offset \<le> l) \<and>
     list_all (\<lambda>e. oe_message (hd events) = oe_message e \<and> oe_fields (hd events) = oe_fields e) (tl events)"

definition publish_range ::
  "topic_partition \<Rightarrow> u32 \<Rightarrow> u32 \<Rightarrow> logical_offset \<Rightarrow> nat list \<Rightarrow> nat list \<Rightarrow>
   ('c, 'z) log_stripe_scheme \<Rightarrow> ('c, 'z) log_stripe_scheme" where
  "publish_range tp first_ordinal last_ordinal last_offset ts fs st =
     st\<lparr>st_partitions := (st_partitions st)(tp \<mapsto>
       publish_homogeneous_posting_range first_ordinal last_ordinal last_offset ts fs (partition_of st tp))\<rparr>"

definition publish_deferred ::
  "topic_partition \<Rightarrow> u32 \<Rightarrow> (u32 \<times> logical_offset) option \<Rightarrow> nat list \<Rightarrow> nat list \<Rightarrow>
   ('c, 'z) log_stripe_scheme \<Rightarrow> ('c, 'z) log_stripe_scheme" where
  "publish_deferred tp first_ordinal deferred ts fs st =
     (case deferred of None \<Rightarrow> st
      | Some (last_ordinal, last_offset) \<Rightarrow> publish_range tp (first_ordinal + 1) last_ordinal last_offset ts fs st)"

fun apply_deferred ::
  "'c stripe_env \<Rightarrow> topic_partition \<Rightarrow> logical_offset \<Rightarrow> u32 \<Rightarrow> nat list \<Rightarrow> nat list \<Rightarrow>
   (nat \<times> otlp_log_event) list \<Rightarrow> index_receipt list \<Rightarrow> (u32 \<times> logical_offset) option \<Rightarrow>
   ('c, 'z) log_stripe_scheme \<Rightarrow> ('c, 'z) log_stripe_scheme \<times> index_receipt list log_db_result" where
  "apply_deferred E tp first_offset first_ordinal ts fs [] receipts deferred st =
     (publish_deferred tp first_ordinal deferred ts fs st, Inr receipts)"
| "apply_deferred E tp first_offset first_ordinal ts fs ((index, event) # events) receipts deferred st =
     (case batch_offset tp first_offset index of
        Inl e \<Rightarrow> (st, Inl e)
      | Inr off \<Rightarrow>
          (case apply_durable_new_inner E (into_durable event (st_shard_id st) tp off) False st of
             (st, Inl e) \<Rightarrow> (publish_deferred tp first_ordinal deferred ts fs st, Inl e)
           | (st, Inr a) \<Rightarrow>
               apply_deferred E tp first_offset first_ordinal ts fs events (receipts @ [ap_receipt a])
                 (Some (ap_ordinal a, off)) st))"

definition apply_homogeneous_events ::
  "'c stripe_env \<Rightarrow> topic_partition \<Rightarrow> logical_offset \<Rightarrow> otlp_log_event list \<Rightarrow> ('c, 'z) log_stripe_scheme \<Rightarrow>
   ('c, 'z) log_stripe_scheme \<times> index_receipt list log_db_result" where
  "apply_homogeneous_events E tp first_offset events st =
     (case apply_durable_new_inner E (into_durable (hd events) (st_shard_id st) tp first_offset) True st of
        (st, Inl e) \<Rightarrow> (st, Inl e)
      | (st, Inr a) \<Rightarrow>
          apply_deferred E tp first_offset (ap_ordinal a) (case ap_term_ids a of None \<Rightarrow> [] | Some ts \<Rightarrow> ts)
            (case ap_field_ids a of None \<Rightarrow> [] | Some fs \<Rightarrow> fs) (enumerate 1 (tl events)) [ap_receipt a] None st)"

fun apply_each ::
  "'c stripe_env \<Rightarrow> topic_partition \<Rightarrow> logical_offset \<Rightarrow> (nat \<times> otlp_log_event) list \<Rightarrow> index_receipt list \<Rightarrow>
   ('c, 'z) log_stripe_scheme \<Rightarrow> ('c, 'z) log_stripe_scheme \<times> index_receipt list log_db_result" where
  "apply_each E tp first_offset [] receipts st = (st, Inr receipts)"
| "apply_each E tp first_offset ((index, event) # events) receipts st =
     (case batch_offset tp first_offset index of
        Inl e \<Rightarrow> (st, Inl e)
      | Inr off \<Rightarrow>
          (case apply_durable_idempotent E (into_durable event (st_shard_id st) tp off) st of
             (st, Inl e) \<Rightarrow> (st, Inl e)
           | (st, Inr receipt) \<Rightarrow> apply_each E tp first_offset events (receipts @ [receipt]) st))"

definition apply_otlp_events ::
  "'c stripe_env \<Rightarrow> shared_catalog \<Rightarrow> topic_partition \<Rightarrow> logical_offset \<Rightarrow> otlp_log_event list \<Rightarrow>
   ('c, 'z) log_stripe_scheme \<Rightarrow> ('c, 'z) log_stripe_scheme \<times> index_receipt list log_db_result" where
  "apply_otlp_events E catalog tp first_offset events st =
     (case refresh_dictionary_catalog catalog st of
        (st, Inl e) \<Rightarrow> (st, Inl e)
      | (st, Inr _) \<Rightarrow>
          (case validate_batch_offset_range tp first_offset (length events) of
             Inl e \<Rightarrow> (st, Inl e)
           | Inr _ \<Rightarrow>
               if can_index_as_homogeneous_range st tp first_offset events
               then apply_homogeneous_events E tp first_offset events st
               else apply_each E tp first_offset (enumerate 0 events) [] st))"

section \<open>Queries\<close>

definition query_hot_matches ::
  "ucd \<Rightarrow> regex_match \<Rightarrow> log_query \<Rightarrow> ('c, 'z) log_stripe_scheme \<Rightarrow> durable_log_record list" where
  "query_hot_matches U rx q st =
     (case st_partitions st (q_topic_partition q) of None \<Rightarrow> [] | Some P \<Rightarrow> query_partition U rx q P)"

section \<open>Sealing changes no index\<close>

text \<open>
  Rebalancing and sealing change active blocks, the catalog, the collator, the compressor and the
  dictionary cache; of the partitions they only change final placements.
\<close>

definition unplaced :: "partition_index \<Rightarrow> partition_index" where
  "unplaced P = P\<lparr>pi_records := map (\<lambda>r. r\<lparr>ir_final_placement := None\<rparr>) (pi_records P)\<rparr>"

definition same_index :: "('c, 'z) log_stripe_scheme \<Rightarrow> ('c, 'z) log_stripe_scheme \<Rightarrow> bool" where
  "same_index st st' \<longleftrightarrow>
     (\<forall>tp. unplaced (partition_of st' tp) = unplaced (partition_of st tp)) \<and>
     st_message_cache st' = st_message_cache st \<and> st_field_cache st' = st_field_cache st \<and>
     st_shard_id st' = st_shard_id st \<and> st_config st' = st_config st \<and>
     st_frame_partitions st' = st_frame_partitions st"

lemma same_index_refl [simp]: "same_index st st"
  by (simp add: same_index_def)

lemma same_index_trans: "same_index st st1 \<Longrightarrow> same_index st1 st2 \<Longrightarrow> same_index st st2"
  by (simp add: same_index_def)

lemma same_index_fields [simp]:
  "same_index st (st\<lparr>st_active_blocks := a\<rparr>)" "same_index st (st\<lparr>st_catalog := b\<rparr>)"
  "same_index st (st\<lparr>st_dictionary_cache := c\<rparr>)" "same_index st (st\<lparr>st_collator := d\<rparr>)"
  "same_index st (st\<lparr>st_compressor := e\<rparr>)" "same_index st (st\<lparr>st_placement_dictionaries := f\<rparr>)"
  "same_index st (st\<lparr>st_dictionary_generation := g\<rparr>)" "same_index st (st\<lparr>st_dictionary_snapshot := h\<rparr>)"
  by (simp_all add: same_index_def partition_of_def)

lemma unplaced_set: "unplaced (P\<lparr>pi_records := (pi_records P)[i := (pi_records P ! i)\<lparr>ir_final_placement := x\<rparr>]\<rparr>) = unplaced P"
proof (cases "i < length (pi_records P)")
  case True
  have "(map (\<lambda>r. r\<lparr>ir_final_placement := None\<rparr>) (pi_records P))[i := (pi_records P ! i)\<lparr>ir_final_placement := None\<rparr>] =
      map (\<lambda>r. r\<lparr>ir_final_placement := None\<rparr>) (pi_records P)"
    using True by (metis list_update_id nth_map)
  then show ?thesis by (simp add: unplaced_def map_update)
qed (simp add: unplaced_def list_update_beyond)

lemma same_index_placement: "same_index st (set_final_placement placement st p)"
  by (auto simp: set_final_placement_def Let_def same_index_def partition_of_def unplaced_set
      split: option.splits sum.splits)

lemma same_index_placements: "same_index st (foldl (set_final_placement placement) st ps)"
  by (induction ps arbitrary: st) (auto intro: same_index_trans same_index_placement)

lemma same_index_stage:
  assumes "stage_active_block E key b placement score st = (st', r)"
  shows "same_index st st'"
proof (cases "ev_encode E (map pr_record (ab_records b))")
  case (Inl e)
  then show ?thesis using assms by (simp add: stage_active_block_def)
next
  case (Inr structural)
  obtain C c where c: "compress (ev_zstd E) structural (ak_dictionary_id key) (ab_dictionary_payload b) (st_compressor st) = (C, c)"
    by (metis surj_pair)
  show ?thesis
  proof (cases c)
    case (Inl e)
    then show ?thesis using assms Inr c by (auto simp: stage_active_block_def)
  next
    case C: (Inr compressed)
    define st1 where "st1 = foldl (set_final_placement placement) (st\<lparr>st_compressor := C\<rparr>) (ab_records b)"
    have "same_index st st1"
      unfolding st1_def by (rule same_index_trans [OF same_index_fields(5) same_index_placements])
    moreover obtain cat d where "catalog_seal (block_descriptor_of (st_shard_id st1) (st_config st1) key b score structural compressed)
        compressed (st_catalog st1) = (cat, d)" by (metis surj_pair)
    then have "st' = st1\<lparr>st_catalog := cat\<rparr>"
      using assms Inr c C by (simp add: stage_active_block_def st1_def [symmetric] Let_def)
    ultimately show ?thesis using same_index_trans same_index_fields(2) by blast
  qed
qed

lemma same_index_resolve: "resolve_dictionary p st = (st', r) \<Longrightarrow> same_index st st'"
  by (auto simp: resolve_dictionary_def Let_def split: option.splits prod.splits sum.splits)

lemma same_index_target: "target_block home b placement st = (st', r) \<Longrightarrow> same_index st st'"
  by (auto simp: target_block_def split: if_splits prod.splits sum.splits dest: same_index_resolve)

lemma same_index_seal:
  assumes "(case stage_active_block E key b placement score st of
      (st, Inl e) \<Rightarrow> (st, Inl e) | (st, Inr d) \<Rightarrow> (st, Inr (f d))) = (st', r)"
  shows "same_index st st'"
  using assms by (cases "stage_active_block E key b placement score st"; cases "snd (stage_active_block E key b placement score st)")
    (auto dest: same_index_stage)

lemma three_way:
  "(if P then (a, x) else if Q then f else (b, y)) = (s, r) \<Longrightarrow> R a \<Longrightarrow> R b \<Longrightarrow> (f = (s, r) \<Longrightarrow> R s) \<Longrightarrow> R s"
  by (auto split: if_splits)

lemma same_index_group:
  assumes "place_group E force_seal home b n a (work, sealed) st = (st', r)"
  shows "same_index st st'"
proof -
  obtain st1 t where t: "target_block home b (as_placement a) st = (st1, t)" by (metis surj_pair)
  note st1 = same_index_target [OF t]
  show ?thesis
  proof (cases t)
    case (Inl e)
    then show ?thesis using assms t st1 by (simp add: place_group_def)
  next
    case (Inr tp)
    obtain target payload where tp: "tp = (target, payload)" by (cases tp)
    note r = assms [unfolded place_group_def prod.case t Inr tp sum.case Let_def]
    note seal = same_index_seal [where f = "\<lambda>d. (work, sealed @ [d])"]
    have st2: "same_index st (st1\<lparr>st_active_blocks := x\<rparr>)" for x
      by (rule same_index_trans [OF st1 same_index_fields(1)])
    show ?thesis
    proof (cases force_seal)
      case True
      then show ?thesis using r same_index_trans [OF st1 seal] by simp
    next
      case False
      show ?thesis using r unfolding if_not_P [OF False]
      proof (rule three_way)
        show "same_index st (st1\<lparr>st_active_blocks := x, st_active_blocks := y\<rparr>)" for x y using st2 [of y] by simp
      qed (rule st2, rule same_index_trans [OF st2 seal])
    qed
  qed
qed

lemma same_index_groups:
  "place_groups E force_seal home b n as acc st = (st', r) \<Longrightarrow> same_index st st'"
proof (induction as arbitrary: acc st)
  case (Cons a as)
  obtain work sealed where acc: "acc = (work, sealed)" by (cases acc)
  obtain st1 r1 where one: "place_group E force_seal home b n a acc st = (st1, r1)" by (metis surj_pair)
  then have "same_index st st1" using same_index_group acc by blast
  then show ?case using Cons one by (cases r1) (auto intro: same_index_trans)
qed simp

lemma same_index_step:
  assumes "rebalance_step E force_seal w acc st = (st', r)"
  shows "same_index st st'"
proof -
  obtain home b where w: "w = (home, b)" by (cases w)
  obtain collator as where "collate (ev_handoff E) (st_collator st) (ak_source_cohort home) (ak_placement_id home)
      (map pending_locality (ab_records b)) = (collator, as)" by (metis surj_pair)
  then show ?thesis using assms same_index_groups same_index_trans [OF same_index_fields(4)]
    by (fastforce simp: rebalance_step_def w)
qed

lemma same_index_loop:
  "rebalance_loop E force_seal work sealed st = (st', r) \<Longrightarrow> same_index st st'"
proof (induction E force_seal work sealed st rule: rebalance_loop.induct)
  case (1 E force_seal work sealed st)
  show ?case
  proof (cases "work = []")
    case True
    then show ?thesis using "1.prems" by (simp add: rebalance_loop.simps)
  next
    case False
    obtain st1 r1 where s: "rebalance_step E force_seal (last work) (butlast work, sealed) st = (st1, r1)" by (metis surj_pair)
    note one = same_index_step [OF s]
    show ?thesis
    proof (cases r1)
      case (Inl e)
      then show ?thesis using "1.prems" False s one by (simp add: rebalance_loop.simps [of E force_seal work])
    next
      case (Inr acc)
      obtain work' sealed' where acc: "acc = (work', sealed')" by (cases acc)
      have "rebalance_loop E force_seal work' sealed' st1 = (st', r)"
        using "1.prems" False s Inr acc by (simp add: rebalance_loop.simps [of E force_seal work])
      from "1.IH" [OF False s [symmetric] Inr acc [symmetric] this] one show ?thesis by (rule same_index_trans [rotated])
    qed
  qed
qed

lemma same_index_rebalance:
  assumes "rebalance_block E key b force_seal st = (st', r)"
  shows "same_index st st'"
proof (cases "lc_enabled (co_config (st_collator st))")
  case True
  then show ?thesis using assms same_index_loop by (fastforce simp: rebalance_block_def)
next
  case False
  then show ?thesis using assms same_index_seal [where f = "\<lambda>d. [d]"] by (simp add: rebalance_block_def)
qed

lemma same_index_collect:
  assumes "collect_record E key payload p st = (st', r)"
  shows "same_index st st'"
  using assms same_index_trans [OF same_index_fields(1) same_index_rebalance]
  by (fastforce simp: collect_record_def Let_def split: if_splits)

lemma same_index_seal_blocks: "seal_blocks E blocks sealed st = (st', r) \<Longrightarrow> same_index st st'"
proof (induction E blocks sealed st rule: seal_blocks.induct)
  case (2 E key b blocks sealed st)
  obtain st1 r1 where s: "rebalance_block E key b True st = (st1, r1)" by (metis surj_pair)
  note one = same_index_rebalance [OF s]
  show ?case
  proof (cases r1)
    case (Inr ds)
    then have "seal_blocks E blocks (sealed @ ds) st1 = (st', r)" using "2.prems" s by simp
    from "2.IH" [OF s [symmetric] Inr this] one show ?thesis by (rule same_index_trans [rotated])
  qed (use "2.prems" s one in simp)
qed simp

lemma same_index_seal_active: "seal_active_blocks order E st = (st', r) \<Longrightarrow> same_index st st'"
  using same_index_trans [OF same_index_fields(1) same_index_seal_blocks] by (fastforce simp: seal_active_blocks_def)

lemma same_index_refresh: "refresh_dictionary_catalog catalog st = (st', r) \<Longrightarrow> same_index st st'"
  by (auto simp: refresh_dictionary_catalog_def same_index_def partition_of_def split: option.splits prod.splits sum.splits if_splits)

end
