(* ===== verification/Stripe_Exact.thy ===== *)
theory Stripe_Exact
  imports Stripe_Apply
begin

text \<open>
  Every operation of a stripe, whether it succeeds or fails, keeps the hot index of every
  partition exact, so that a query returns what evaluating it on the applied records returns.
\<close>

section \<open>The index stays exact\<close>

definition records_of :: "('c, 'z) log_stripe_scheme \<Rightarrow> topic_partition \<Rightarrow> durable_log_record list" where
  "records_of st tp = map ir_record (pi_records (partition_of st tp))"

text \<open>A partition whose first \<open>n\<close> records are indexed.\<close>

definition partition_upto :: "ucd \<Rightarrow> topic_partition \<Rightarrow> nat \<Rightarrow> partition_index \<Rightarrow> bool" where
  "partition_upto U tp n P \<longleftrightarrow>
     n \<le> length (pi_records P) \<and> length (pi_records P) \<le> 2 ^ 32 \<and>
     sorted_wrt (<) (map record_offset (map ir_record (pi_records P))) \<and>
     (\<forall>r\<in>set (map ir_record (pi_records P)). rr_topic_partition (record_ref r) = tp) \<and>
     indexed_upto U n P \<and>
     pi_indexed_through P = (if n = 0 then None else Some (record_offset (map ir_record (pi_records P) ! (n - 1))))"

definition stripe_at :: "ucd \<Rightarrow> (topic_partition \<Rightarrow> nat) \<Rightarrow> ('c, 'z) log_stripe_scheme \<Rightarrow> bool" where
  "stripe_at U f st \<longleftrightarrow>
     (\<forall>tp. partition_upto U tp (f tp) (partition_of st tp) \<and>
       caches_ok U tp (st_message_cache st) (st_field_cache st) (partition_of st tp))"

definition stripe_ok :: "ucd \<Rightarrow> ('c, 'z) log_stripe_scheme \<Rightarrow> bool" where
  "stripe_ok U st \<longleftrightarrow> stripe_at U (\<lambda>tp. length (records_of st tp)) st"

lemma stripe_atD:
  assumes "stripe_at U f st"
  shows "partition_upto U tp (f tp) (partition_of st tp)"
    "caches_ok U tp (st_message_cache st) (st_field_cache st) (partition_of st tp)"
  using assms unfolding stripe_at_def by blast+

lemma unplaced_records:
  assumes "unplaced P' = unplaced P"
  shows "map ir_record (pi_records P') = map ir_record (pi_records P)"
    "pi_term_ids P' = pi_term_ids P" "pi_term_postings P' = pi_term_postings P" "pi_field_ids P' = pi_field_ids P"
    "pi_field_postings P' = pi_field_postings P" "pi_indexed_through P' = pi_indexed_through P"
proof -
  have ir: "map ir_record (pi_records (unplaced P)) = map ir_record (pi_records P)" for P
    by (simp add: unplaced_def comp_def)
  show "map ir_record (pi_records P') = map ir_record (pi_records P)" using ir [of P] ir [of P'] assms by simp
  have sel: "pi_term_ids (unplaced P) = pi_term_ids P" "pi_term_postings (unplaced P) = pi_term_postings P"
    "pi_field_ids (unplaced P) = pi_field_ids P" "pi_field_postings (unplaced P) = pi_field_postings P"
    "pi_indexed_through (unplaced P) = pi_indexed_through P" for P by (simp_all add: unplaced_def)
  show "pi_term_ids P' = pi_term_ids P" "pi_term_postings P' = pi_term_postings P" "pi_field_ids P' = pi_field_ids P"
    "pi_field_postings P' = pi_field_postings P" "pi_indexed_through P' = pi_indexed_through P"
    using sel [of P] sel [of P'] assms by simp_all
qed

text \<open>The tables depend on the records they index only.\<close>

lemma indexed_upto_cong:
  assumes "indexed_upto U n P" "\<forall>j<n. ir_record (pi_records P' ! j) = ir_record (pi_records P ! j)"
    "pi_term_ids P' = pi_term_ids P" "pi_term_postings P' = pi_term_postings P"
    "pi_field_ids P' = pi_field_ids P" "pi_field_postings P' = pi_field_postings P"
  shows "indexed_upto U n P'"
  using assms hot_table_cong [of n "term_keys U (pi_records P')" "term_keys U (pi_records P)" "pi_term_ids P" "pi_term_postings P"]
    hot_table_cong [of n "field_keys (pi_records P')" "field_keys (pi_records P)" "field_ids_of (pi_field_ids P)" "pi_field_postings P"]
  by (simp add: indexed_upto_def term_keys_def field_keys_def)

lemma records_at_index:
  assumes "map ir_record rs = map ir_record rs'" "j < length rs"
  shows "ir_record (rs ! j) = ir_record (rs' ! j)"
  using assms by (metis nth_map length_map)

lemma partition_upto_cong:
  assumes "partition_upto U tp n P" "unplaced P' = unplaced P"
  shows "partition_upto U tp n P'"
proof -
  note eq = unplaced_records [OF assms(2)]
  have "length (pi_records P') = length (pi_records P)" using eq(1) by (metis length_map)
  moreover have n: "indexed_upto U n P" "n \<le> length (pi_records P)" using assms(1) by (simp_all add: partition_upto_def)
  moreover have "indexed_upto U n P'"
    by (rule indexed_upto_cong [OF n(1) _ eq(2-5)]) (use records_at_index [OF eq(1)] calculation in auto)
  ultimately show ?thesis using assms(1) unfolding partition_upto_def eq by simp
qed

lemma caches_ok_cong:
  "pi_term_ids P' = pi_term_ids P \<Longrightarrow> pi_field_ids P' = pi_field_ids P \<Longrightarrow> caches_ok U tp mc fc P \<Longrightarrow> caches_ok U tp mc fc P'"
  by (simp add: caches_ok_def)

lemma same_index_at: "same_index st st' \<Longrightarrow> stripe_at U f st \<Longrightarrow> stripe_at U f st'"
  unfolding same_index_def stripe_at_def
  by (metis partition_upto_cong caches_ok_cong unplaced_records(2,4))

lemma same_index_records: "same_index st st' \<Longrightarrow> records_of st' = records_of st"
  unfolding same_index_def records_of_def fun_eq_iff using unplaced_records(1) by blast

lemma same_index_ids:
  assumes "same_index st st'"
  shows "(\<lambda>tp. pi_term_ids (partition_of st' tp)) = (\<lambda>tp. pi_term_ids (partition_of st tp))"
    "(\<lambda>tp. pi_field_ids (partition_of st' tp)) = (\<lambda>tp. pi_field_ids (partition_of st tp))"
  using assms unplaced_records(2,4) unfolding same_index_def fun_eq_iff by blast+

lemma partition_upto_append:
  assumes "partition_upto U tp n P" "length (pi_records P) < 2 ^ 32" "rr_topic_partition (record_ref (ir_record x)) = tp"
    "\<forall>r\<in>set (map ir_record (pi_records P)). record_offset r < record_offset (ir_record x)"
  shows "partition_upto U tp n (P\<lparr>pi_records := pi_records P @ [x]\<rparr>)"
proof -
  let ?Q = "P\<lparr>pi_records := pi_records P @ [x]\<rparr>" and ?rs = "map ir_record (pi_records P)"
  have n: "indexed_upto U n P" "n \<le> length (pi_records P)" using assms(1) by (simp_all add: partition_upto_def)
  have "indexed_upto U n ?Q" by (rule indexed_upto_cong [OF n(1)]) (use n(2) in \<open>simp_all add: nth_append\<close>)
  moreover have "map ir_record (pi_records ?Q) = ?rs @ [ir_record x]" by simp
  moreover have "(?rs @ [ir_record x]) ! (n - 1) = ?rs ! (n - 1)" if "n \<noteq> 0" using that n(2) by (simp add: nth_append)
  moreover have "sorted_wrt (<) (map record_offset (?rs @ [ir_record x]))"
    using assms(1,4) by (simp add: partition_upto_def sorted_wrt_append)
  ultimately show ?thesis using assms(1-3) n(2) unfolding partition_upto_def by auto
qed

lemma stripe_at_update:
  assumes "stripe_at U f st" "\<And>tp'. tp' \<noteq> tp \<Longrightarrow> partition_of st' tp' = partition_of st tp' \<and> g tp' = f tp'"
    "st_message_cache st' = st_message_cache st" "st_field_cache st' = st_field_cache st"
    "partition_upto U tp (g tp) (partition_of st' tp)"
    "pi_term_ids (partition_of st' tp) = pi_term_ids (partition_of st tp)"
    "pi_field_ids (partition_of st' tp) = pi_field_ids (partition_of st tp)"
  shows "stripe_at U g st'"
  unfolding stripe_at_def
proof (intro allI)
  fix tp'
  show "partition_upto U tp' (g tp') (partition_of st' tp') \<and>
      caches_ok U tp' (st_message_cache st') (st_field_cache st') (partition_of st' tp')"
  proof (cases "tp' = tp")
    case True
    then show ?thesis using assms(3-5) caches_ok_cong [OF assms(6,7) stripe_atD(2) [OF assms(1)]] by simp
  qed (use assms(2-4) stripe_atD [OF assms(1), of tp'] in simp)
qed

lemma partition_of_push:
  "partition_of (push_record x st) tp =
     (if tp = rr_topic_partition (record_ref (ir_record x))
      then (partition_of st tp)\<lparr>pi_records := pi_records (partition_of st tp) @ [x]\<rparr> else partition_of st tp)"
  by (simp add: push_record_def partition_of_def Let_def)

lemma stripe_at_push:
  assumes "stripe_at U f st" "rr_topic_partition (record_ref (ir_record x)) = tp" "length (records_of st tp) < 2 ^ 32"
    "\<forall>r\<in>set (records_of st tp). record_offset r < record_offset (ir_record x)"
  shows "stripe_at U f (push_record x st)"
proof -
  have "partition_upto U tp (f tp) (partition_of st tp)" using assms(1) by (rule stripe_atD)
  from partition_upto_append [OF this _ assms(2)] show ?thesis
    using assms(2-4) by (intro stripe_at_update [OF assms(1), of tp])
      (simp_all add: partition_of_push records_of_def, simp_all add: push_record_def Let_def)
qed

lemma partition_upto_butlast:
  assumes "partition_upto U tp n P" "n < length (pi_records P)"
  shows "partition_upto U tp n (P\<lparr>pi_records := butlast (pi_records P)\<rparr>)"
proof -
  have b: "butlast (pi_records P) = take (length (pi_records P) - 1) (pi_records P)" by (rule butlast_conv_take)
  have n: "indexed_upto U n P" using assms(1) by (simp add: partition_upto_def)
  have "indexed_upto U n (P\<lparr>pi_records := butlast (pi_records P)\<rparr>)"
    by (rule indexed_upto_cong [OF n]) (use assms(2) in \<open>simp_all add: b\<close>)
  moreover have "sorted_wrt (<) (map record_offset (map ir_record (butlast (pi_records P))))"
    using assms(1) unfolding b by (simp add: partition_upto_def take_map [symmetric] sorted_wrt_take)
  ultimately show ?thesis using assms by (auto simp: partition_upto_def nth_butlast dest: in_set_butlastD)
qed

lemma partition_of_pop:
  "partition_of (pop_record tp st) tp' =
     (if tp' = tp then (partition_of st tp)\<lparr>pi_records := butlast (pi_records (partition_of st tp))\<rparr> else partition_of st tp')"
  by (auto simp: pop_record_def partition_of_def partition_default_def split: option.splits)

lemma stripe_at_pop:
  assumes "stripe_at U f st" "f tp < length (records_of st tp)"
  shows "stripe_at U f (pop_record tp st)"
proof -
  have "partition_upto U tp (f tp) (partition_of st tp)" using assms(1) by (rule stripe_atD)
  from partition_upto_butlast [OF this] show ?thesis
    using assms(2) by (intro stripe_at_update [OF assms(1), of tp])
      (simp_all add: partition_of_pop records_of_def, simp_all add: pop_record_def split: option.splits)
qed

text \<open>Indexing the one record that is not indexed yet.\<close>

lemma stripe_at_index:
  assumes "index_new_record E r (of_nat n) st = (st', ts, fs)" "stripe_at U f st" "ev_ucd E = U"
    and "rr_topic_partition (record_ref r) = tp" "records_of st tp = rs @ [r]" "length rs = n" "f tp = n" "n < 2 ^ 32"
  shows "stripe_at U (f(tp := Suc n)) st' \<and> records_of st' = records_of st \<and>
    resolves (pi_term_ids (partition_of st' tp)) (set (message_terms U (message r))) ts \<and>
    resolves (field_ids_of (pi_field_ids (partition_of st' tp))) (field_pairs (record_fields r)) fs \<and>
    st_shard_id st' = st_shard_id st \<and> st_frame_partitions st' = st_frame_partitions st"
proof -
  let ?P = "partition_of st tp" and ?mc = "st_message_cache st" and ?fc = "st_field_cache st"
  have up: "partition_upto U tp n ?P" and caches: "caches_ok U tp ?mc ?fc ?P"
    using stripe_atD [OF assms(2), of tp] assms(7) by simp_all
  obtain mc Q fc Q' where one: "index_terms U r (of_nat n) (?mc, ?P) = ((mc, Q), ts)"
    and two: "index_fields (ev_address E r) r (of_nat n) (?fc, Q) = ((fc, Q'), fs)"
    and st': "st' = st\<lparr>st_message_cache := mc, st_field_cache := fc,
      st_partitions := (st_partitions st)(tp \<mapsto> Q'\<lparr>pi_indexed_through := Some (record_offset r)\<rparr>)\<rparr>"
    using assms(1,3,4) by (auto simp: index_new_record_def Let_def split: prod.splits)
  have last: "ir_record (pi_records ?P ! n) = r" "n < length (pi_records ?P)"
    using assms(5,6) unfolding records_of_def by (metis length_append_singleton length_map lessI nth_append_length nth_map)+
  obtain ids ps where Q: "Q = ?P\<lparr>pi_term_ids := ids, pi_term_postings := ps\<rparr>"
    "hot_table (term_keys U (pi_records ?P)) (Suc n) ids ps" "resolves ids (set (message_terms U (message r))) ts"
    "caches_ok U tp mc ?fc Q" and mc: "\<forall>s tp' v. tp' \<noteq> tp \<longrightarrow> mc s = Some (tp', v) \<longrightarrow> ?mc s = Some (tp', v)"
    using hot_index_terms_ok [OF one assms(4) _ assms(8) _ caches] up last by (auto simp: partition_upto_def indexed_upto_def)
  obtain ids' ps' where Q': "Q' = Q\<lparr>pi_field_ids := ids', pi_field_postings := ps'\<rparr>"
    "hot_table (field_keys (pi_records Q)) (Suc n) (field_ids_of ids') ps'"
    "resolves (field_ids_of ids') (field_pairs (record_fields r)) fs" "caches_ok U tp mc fc Q'"
    and fc: "\<forall>s tp' v. tp' \<noteq> tp \<longrightarrow> fc s = Some (tp', v) \<longrightarrow> ?fc s = Some (tp', v)"
    using hot_index_fields_ok [OF two assms(4) _ assms(8) _ Q(4)] up last by (auto simp: partition_upto_def indexed_upto_def Q(1))
  have part: "partition_of st' tp' = (if tp' = tp then Q'\<lparr>pi_indexed_through := Some (record_offset r)\<rparr> else partition_of st tp')" for tp'
    by (simp add: st' partition_of_def)
  have recs: "pi_records Q' = pi_records ?P" by (simp add: Q'(1) Q(1))
  have "partition_upto U tp (Suc n) (Q'\<lparr>pi_indexed_through := Some (record_offset r)\<rparr>)"
    using up last Q(2) Q'(2) by (simp add: partition_upto_def indexed_upto_def Q'(1) Q(1))
  moreover have "caches_ok U tp mc fc (Q'\<lparr>pi_indexed_through := Some (record_offset r)\<rparr>)"
    by (rule caches_ok_cong [OF _ _ Q'(4)]) simp_all
  moreover have "caches_ok U tp' mc fc (partition_of st tp')" if "tp' \<noteq> tp" for tp'
    using stripe_atD(2) [OF assms(2), of tp'] mc fc that unfolding caches_ok_def by blast
  ultimately have "stripe_at U (f(tp := Suc n)) st'"
    using stripe_atD(1) [OF assms(2)] unfolding stripe_at_def part by (auto simp: st')
  moreover have "records_of st' = records_of st" by (rule ext) (simp add: part recs records_of_def)
  moreover have "st_shard_id st' = st_shard_id st" "st_frame_partitions st' = st_frame_partitions st" by (simp_all add: st')
  ultimately show ?thesis using Q(3) Q'(3) by (simp add: part Q'(1) Q(1))
qed

lemma offset_after_all:
  assumes "validate_offset st r = Inr ()" "stripe_at U f st" "rr_topic_partition (record_ref r) = tp"
  shows "\<forall>x\<in>set (records_of st tp). record_offset x < record_offset r"
  unfolding records_of_def
proof (cases "pi_records (partition_of st tp) = []")
  case False
  then obtain P where P: "st_partitions st tp = Some P" "partition_of st tp = P" "pi_records P \<noteq> []"
    by (cases "st_partitions st tp") (auto simp: partition_of_def partition_default_def)
  let ?os = "map record_offset (map ir_record (pi_records P))"
  have "\<not> record_offset r \<le> ir_offset (last (pi_records P))"
    using assms(1,3) P by (auto simp: validate_offset_def Let_def partition_last_offset_def and_then_eq_Inr split: if_splits)
  then have last: "last ?os < record_offset r" "?os \<noteq> []" using P by (simp_all add: last_map not_le)
  have "sorted ?os" using stripe_atD(1) [OF assms(2), of tp] P(2) by (simp add: partition_upto_def strict_sorted_imp_sorted)
  moreover obtain ys y where os: "?os = ys @ [y]" using last(2) by (metis rev_exhaust)
  ultimately have "x < record_offset r" if "x \<in> set ?os" for x
    using that last(1) unfolding os by (auto simp: sorted_append)
  then show "\<forall>x\<in>set (map ir_record (pi_records (partition_of st tp))). record_offset x < record_offset r"
    using P(2) by simp
qed simp

text \<open>What one record does to the records and the index, on either outcome.\<close>

definition record_failed :: "ucd \<Rightarrow> (topic_partition \<Rightarrow> nat) \<Rightarrow> ('c, 'z) log_stripe_scheme \<Rightarrow> ('c, 'z) log_stripe_scheme \<Rightarrow> bool" where
  "record_failed U f st st' \<longleftrightarrow> stripe_at U f st' \<and> records_of st' = records_of st \<and>
     (\<lambda>tp. pi_term_ids (partition_of st' tp)) = (\<lambda>tp. pi_term_ids (partition_of st tp)) \<and>
     (\<lambda>tp. pi_field_ids (partition_of st' tp)) = (\<lambda>tp. pi_field_ids (partition_of st tp)) \<and>
     st_shard_id st' = st_shard_id st \<and> st_frame_partitions st' = st_frame_partitions st"

lemma record_failed_ids:
  assumes "record_failed U f st st'"
  shows "pi_term_ids (partition_of st' tp) = pi_term_ids (partition_of st tp)"
    "pi_field_ids (partition_of st' tp) = pi_field_ids (partition_of st tp)"
  using assms unfolding record_failed_def fun_eq_iff by blast+

definition record_stored ::
  "ucd \<Rightarrow> (topic_partition \<Rightarrow> nat) \<Rightarrow> durable_log_record \<Rightarrow> bool \<Rightarrow> ('c, 'z) log_stripe_scheme \<Rightarrow>
   ('c, 'z) log_stripe_scheme \<Rightarrow> applied_record \<Rightarrow> bool" where
  "record_stored U f r index st st' a \<longleftrightarrow>
     (let tp = rr_topic_partition (record_ref r); n = length (records_of st tp) in
      n < 2 ^ 32 \<and> records_of st' = (records_of st)(tp := records_of st tp @ [r]) \<and>
      (\<forall>x\<in>set (records_of st tp). record_offset x < record_offset r) \<and>
      st_shard_id st' = st_shard_id st \<and> st_frame_partitions st' = st_frame_partitions st \<and>
      ap_ordinal a = of_nat n \<and> rc_record_ref (ap_receipt a) = record_ref r \<and>
      rc_indexed_through (ap_receipt a) = record_offset r \<and>
      stripe_at U (if index then f(tp := Suc n) else f) st' \<and>
      (if index then \<exists>ts fs. ap_term_ids a = Some ts \<and> ap_field_ids a = Some fs \<and>
         resolves (pi_term_ids (partition_of st' tp)) (set (message_terms U (message r))) ts \<and>
         resolves (field_ids_of (pi_field_ids (partition_of st' tp))) (field_pairs (record_fields r)) fs
       else pi_term_ids (partition_of st' tp) = pi_term_ids (partition_of st tp) \<and>
         pi_field_ids (partition_of st' tp) = pi_field_ids (partition_of st tp)))"

text \<open>The record is pushed and collected: it is in its partition, not yet indexed.\<close>

definition record_pushed ::
  "ucd \<Rightarrow> (topic_partition \<Rightarrow> nat) \<Rightarrow> durable_log_record \<Rightarrow> ('c, 'z) log_stripe_scheme \<Rightarrow> ('c, 'z) log_stripe_scheme \<Rightarrow> bool" where
  "record_pushed U f r st st' \<longleftrightarrow>
     (let tp = rr_topic_partition (record_ref r) in
      stripe_at U f st' \<and> records_of st' = (records_of st)(tp := records_of st tp @ [r]) \<and>
      st_shard_id st' = st_shard_id st \<and> st_frame_partitions st' = st_frame_partitions st \<and>
      (\<lambda>tp. pi_term_ids (partition_of st' tp)) = (\<lambda>tp. pi_term_ids (partition_of st tp)) \<and>
      (\<lambda>tp. pi_field_ids (partition_of st' tp)) = (\<lambda>tp. pi_field_ids (partition_of st tp)))"

lemma collect_pushed:
  assumes "collect_record E key payload p (push_record x st) = (st', c)" "stripe_at U f st" "ir_record x = r"
    and "rr_topic_partition (record_ref r) = tp" "length (records_of st tp) < 2 ^ 32"
    and "\<forall>x\<in>set (records_of st tp). record_offset x < record_offset r"
  shows "record_pushed U f r st st'"
proof -
  let ?st = "push_record x st"
  note same = same_index_collect [OF assms(1)]
  have "stripe_at U f ?st" by (rule stripe_at_push [OF assms(2)]) (use assms(3-6) in simp_all)
  then have "stripe_at U f st'" by (rule same_index_at [OF same])
  moreover have "records_of ?st = (records_of st)(tp := records_of st tp @ [r])"
    using assms(3,4) by (simp add: fun_eq_iff partition_of_push records_of_def)
  then have "records_of st' = (records_of st)(tp := records_of st tp @ [r])"
    using same_index_records [OF same] by simp
  moreover have "st_shard_id ?st = st_shard_id st" "st_frame_partitions ?st = st_frame_partitions st"
    "(\<lambda>tp. pi_term_ids (partition_of ?st tp)) = (\<lambda>tp. pi_term_ids (partition_of st tp))"
    "(\<lambda>tp. pi_field_ids (partition_of ?st tp)) = (\<lambda>tp. pi_field_ids (partition_of st tp))"
    by (simp_all add: partition_of_push fun_eq_iff) (simp_all add: push_record_def Let_def)
  then have "st_shard_id st' = st_shard_id st" "st_frame_partitions st' = st_frame_partitions st"
    "(\<lambda>tp. pi_term_ids (partition_of st' tp)) = (\<lambda>tp. pi_term_ids (partition_of st tp))"
    "(\<lambda>tp. pi_field_ids (partition_of st' tp)) = (\<lambda>tp. pi_field_ids (partition_of st tp))"
    using same_index_ids [OF same] same unfolding same_index_def by simp_all
  ultimately show ?thesis by (simp add: record_pushed_def assms(4))
qed

lemma pop_pushed:
  assumes "record_pushed U f r st st'" "stripe_at U f st" "rr_topic_partition (record_ref r) = tp"
  shows "record_failed U f st (pop_record tp st')"
proof -
  note push = assms(1) [unfolded record_pushed_def Let_def assms(3)]
  from push have "records_of st' = (records_of st)(tp := records_of st tp @ [r])" by (elim conjE)
  note recs = fun_cong [OF this]
  have "f tp < length (records_of st' tp)"
    unfolding recs using stripe_atD(1) [OF assms(2), of tp] by (simp add: partition_upto_def records_of_def)
  then have "stripe_at U f (pop_record tp st')" using push stripe_at_pop by blast
  moreover have "records_of (pop_record tp st') = records_of st"
  proof
    fix tp'
    show "records_of (pop_record tp st') tp' = records_of st tp'"
      using recs [of tp'] by (cases "tp' = tp") (simp_all add: partition_of_pop map_butlast records_of_def)
  qed
  moreover have "st_shard_id (pop_record tp st') = st_shard_id st'" "st_frame_partitions (pop_record tp st') = st_frame_partitions st'"
    by (simp_all add: pop_record_def split: option.splits)
  moreover have "(\<lambda>tp'. pi_term_ids (partition_of (pop_record tp st') tp')) = (\<lambda>tp. pi_term_ids (partition_of st' tp))"
    "(\<lambda>tp'. pi_field_ids (partition_of (pop_record tp st') tp')) = (\<lambda>tp. pi_field_ids (partition_of st' tp))"
    by (simp_all add: fun_eq_iff partition_of_pop)
  ultimately show ?thesis using push by (simp add: record_failed_def)
qed

lemma store_record_ok:
  assumes "store_record E r index bytes fp placement dictionary st = (st', res)" "stripe_at U f st" "ev_ucd E = U"
    and "rr_topic_partition (record_ref r) = tp" "index \<Longrightarrow> f tp = length (records_of st tp)"
    and "\<forall>x\<in>set (records_of st tp). record_offset x < record_offset r"
  shows "case res of Inl e \<Rightarrow> record_failed U f st st' | Inr a \<Rightarrow> record_stored U f r index st st' a"
proof -
  obtain did payload where dictionary: "dictionary = (did, payload)" by (cases dictionary)
  let ?n = "length (records_of st tp)"
  define x where "x = \<lparr>ir_record = r, ir_tentative_placement = placement, ir_temperature = locality_signature fp,
    ir_final_placement = None\<rparr>"
  define key where "key = \<lparr>ak_topic_partition = tp, ak_source_cohort = compression_cohort r,
    ak_placement_id = placement_id placement, ak_dictionary_id = did\<rparr>"
  define p where "p = \<lparr>pr_record = r, pr_source_bytes = bytes, pr_fingerprint = fp\<rparr>"
  obtain st2 c where c: "collect_record E key payload p (push_record x st) = (st2, c)" by (metis surj_pair)
  have len: "length (pi_records (partition_of st tp)) = ?n" by (simp add: records_of_def)
  note res = assms(1) [unfolded store_record_def dictionary prod.case Let_def assms(4), folded x_def key_def p_def, unfolded len c prod.case]
  show ?thesis
  proof (cases "?n < 2 ^ 32")
    case False
    have "partition_of (st\<lparr>st_partitions := (st_partitions st)(tp \<mapsto> partition_of st tp)\<rparr>) = partition_of st"
      by (rule ext) (simp add: partition_of_def)
    then have "record_failed U f st (st\<lparr>st_partitions := (st_partitions st)(tp \<mapsto> partition_of st tp)\<rparr>)"
      using assms(2) by (simp add: record_failed_def stripe_at_def records_of_def fun_eq_iff)
    then show ?thesis using res False by (auto simp: records_of_def)
  next
    case n: True
    note pushed = collect_pushed [OF c assms(2) _ assms(4) n assms(6), simplified x_def, simplified]
    note push = pushed [unfolded record_pushed_def Let_def assms(4)]
    show ?thesis
    proof (cases c)
      case (Inl e)
      then show ?thesis using res n pop_pushed [OF pushed assms(2,4)] by auto
    next
      case (Inr sealed)
      show ?thesis
      proof (cases index)
        case True
        obtain st3 ts fs where i: "index_new_record E r (of_nat ?n) st2 = (st3, ts, fs)" by (metis surj_pair)
        from push have "records_of st2 = (records_of st)(tp := records_of st tp @ [r])" by (elim conjE)
        then have recs: "records_of st2 tp = records_of st tp @ [r]" by simp
        from push have at: "stripe_at U f st2" by (elim conjE)
        note ix = stripe_at_index [OF i at assms(3,4) recs refl assms(5) [OF True] n]
        show ?thesis using res n Inr True i ix push assms(4,6) by (auto simp: record_stored_def Let_def)
      next
        case False
        have "pi_term_ids (partition_of st2 tp) = pi_term_ids (partition_of st tp)"
          "pi_field_ids (partition_of st2 tp) = pi_field_ids (partition_of st tp)"
          using push fun_cong [of "\<lambda>tp. pi_term_ids (partition_of st2 tp)" "\<lambda>tp. pi_term_ids (partition_of st tp)" tp]
            fun_cong [of "\<lambda>tp. pi_field_ids (partition_of st2 tp)" "\<lambda>tp. pi_field_ids (partition_of st tp)" tp] by blast+
        then show ?thesis using False res n Inr push assms(4,6) by (auto simp: record_stored_def Let_def)
      qed
    qed
  qed
qed

lemma inner_ok:
  assumes "apply_durable_new_inner E r index st = (st', res)" "stripe_at U f st" "ev_ucd E = U"
    and "rr_topic_partition (record_ref r) = tp" "index \<Longrightarrow> f tp = length (records_of st tp)"
  shows "case res of Inl e \<Rightarrow> record_failed U f st st' | Inr a \<Rightarrow> record_stored U f r index st st' a"
proof (cases "and_then (validate_offset st r) (\<lambda>_. row_source_bytes r)")
  case (Inl e)
  then show ?thesis using assms(1,2) by (auto simp: apply_durable_new_inner_def record_failed_def)
next
  case (Inr bytes)
  define fp where "fp = record_fingerprint E st r"
  define placement where "placement = tentative_placement (st_collator st) (compression_cohort r) fp"
  obtain st1 d where d: "resolve_dictionary (placement_id placement) st = (st1, d)" by (metis surj_pair)
  note same = same_index_resolve [OF d]
  note at = same_index_at [OF same assms(2)]
  have recs: "records_of st1 = records_of st" using same_index_records [OF same] .
  have keep: "st_shard_id st1 = st_shard_id st" "st_frame_partitions st1 = st_frame_partitions st"
    using same unfolding same_index_def by simp_all
  note ids = same_index_ids [OF same]
  note res = assms(1) [unfolded apply_durable_new_inner_def Inr sum.case Let_def, folded fp_def, folded placement_def, unfolded d prod.case]
  show ?thesis
  proof (cases d)
    case (Inl e)
    then show ?thesis using res at recs keep ids by (auto simp: record_failed_def)
  next
    case C: (Inr dictionary)
    have "validate_offset st r = Inr ()" using Inr by (auto simp: and_then_eq_Inr)
    from offset_after_all [OF this assms(2,4)] have "\<forall>x\<in>set (records_of st1 tp). record_offset x < record_offset r"
      using recs by simp
    moreover have "store_record E r index bytes fp placement dictionary st1 = (st', res)" using res C by simp
    moreover have "f tp = length (records_of st1 tp)" if index using assms(5) [OF that] recs by simp
    ultimately have "case res of Inl e \<Rightarrow> record_failed U f st1 st' | Inr a \<Rightarrow> record_stored U f r index st1 st' a"
      using store_record_ok [OF _ at assms(3,4)] by blast
    then show ?thesis
      by (cases res; cases index) (simp_all add: record_failed_def record_stored_def Let_def assms(4) recs keep ids fun_cong [OF ids(1)] fun_cong [OF ids(2)])
  qed
qed

section \<open>Single records\<close>

lemma stripe_ok_stored:
  assumes "record_stored U f r True st st' a" "f = (\<lambda>tp. length (records_of st tp))"
  shows "stripe_ok U st'"
proof -
  let ?tp = "rr_topic_partition (record_ref r)"
  note s = assms(1) [unfolded record_stored_def Let_def if_True]
  have "(\<lambda>tp. length (records_of st' tp)) = f(?tp := Suc (length (records_of st ?tp)))"
    using s by (simp add: fun_eq_iff assms(2))
  then show ?thesis using s by (simp add: stripe_ok_def)
qed

lemma stripe_ok_failed: "record_failed U (\<lambda>tp. length (records_of st tp)) st st' \<Longrightarrow> stripe_ok U st'"
  by (simp add: stripe_ok_def record_failed_def)

lemma stripe_ok_same: "same_index st st' \<Longrightarrow> stripe_ok U st \<Longrightarrow> stripe_ok U st'"
  unfolding stripe_ok_def using same_index_at [of st st' U] same_index_records [of st st'] by simp

text \<open>The log grows by the record exactly when the operation succeeds.\<close>

definition log_step ::
  "durable_log_record \<Rightarrow> ('c, 'z) log_stripe_scheme \<Rightarrow> ('c, 'z) log_stripe_scheme \<times> index_receipt log_db_result \<Rightarrow> bool" where
  "log_step r st = (\<lambda>(st', res).
     let tp = rr_topic_partition (record_ref r) in
     st_shard_id st' = st_shard_id st \<and> st_frame_partitions st' = st_frame_partitions st \<and>
     (case res of
        Inl e \<Rightarrow> records_of st' = records_of st
      | Inr rc \<Rightarrow> records_of st' = (records_of st)(tp := records_of st tp @ [r]) \<and>
          (\<forall>x\<in>set (records_of st tp). record_offset x < record_offset r) \<and>
          rc_record_ref rc = record_ref r \<and> rc_indexed_through rc = record_offset r))"

lemma apply_new_ok:
  assumes "stripe_ok (ev_ucd E) st"
  shows "stripe_ok (ev_ucd E) (fst (apply_durable_new E r st))" "log_step r st (apply_durable_new E r st)"
proof -
  let ?f = "\<lambda>tp. length (records_of st tp)"
  obtain st' res where i: "apply_durable_new_inner E r True st = (st', res)" by (metis surj_pair)
  have at: "stripe_at (ev_ucd E) ?f st" using assms by (simp add: stripe_ok_def)
  note ok = inner_ok [OF i at refl refl]
  have "stripe_ok (ev_ucd E) (fst (apply_durable_new E r st)) \<and> log_step r st (apply_durable_new E r st)"
  proof (cases res)
    case (Inl e)
    then have "record_failed (ev_ucd E) ?f st st'" using ok by simp
    then show ?thesis using stripe_ok_failed [of "ev_ucd E" st st'] i Inl
      by (simp add: apply_durable_new_def log_step_def record_failed_def Let_def)
  next
    case (Inr a)
    then have "record_stored (ev_ucd E) ?f r True st st' a" using ok by simp
    then show ?thesis using stripe_ok_stored [of "ev_ucd E" ?f r st st' a] i Inr
      by (simp add: apply_durable_new_def log_step_def record_stored_def Let_def)
  qed
  then show "stripe_ok (ev_ucd E) (fst (apply_durable_new E r st))" "log_step r st (apply_durable_new E r st)" by simp_all
qed

lemma apply_durable_ok:
  assumes "stripe_ok (ev_ucd E) st"
  shows "stripe_ok (ev_ucd E) (fst (apply_durable E r st))" "log_step r st (apply_durable E r st)"
  using assms apply_new_ok [OF assms, of r] by (simp_all add: apply_durable_def log_step_def Let_def)

text \<open>Lookup of a record by its offset.\<close>

lemma existing_record_spec:
  assumes "stripe_ok U st"
  shows "existing_record st tp off = Some x \<Longrightarrow> ir_record x \<in> set (records_of st tp) \<and> ir_offset x = off"
    "existing_record st tp off = None \<Longrightarrow> \<forall>r\<in>set (records_of st tp). record_offset r \<noteq> off"
proof -
  let ?P = "partition_of st tp" and ?rs = "pi_records (partition_of st tp)"
  have sorted: "sorted_wrt (<) (map ir_offset ?rs)"
    using assms stripe_atD(1) [of U _ st tp] unfolding stripe_ok_def partition_upto_def by (simp add: comp_def)
  have last: "ir_offset r \<le> ir_offset (last ?rs)" if "r \<in> set ?rs" for r
    using that sorted by (cases ?rs rule: rev_cases) (auto simp: sorted_wrt_append)
  have ex: "existing_record st tp off = (if ?rs = [] then None
      else case cmp (ir_offset (last ?rs)) off of Less \<Rightarrow> None | Equal \<Rightarrow> Some (last ?rs) | Greater \<Rightarrow> partition_record ?P off)"
    unfolding existing_record_def partition_of_def 
    by (cases "st_partitions st tp") (simp_all add: partition_default_def cong: ordering.case_cong)
  note find = find_by_key_Some [OF sorted, of off] find_by_key_None [OF sorted, of off]
  { assume "existing_record st tp off = Some x"
    then have "x \<in> set ?rs \<and> ir_offset x = off"
      using find(1) [of x] unfolding ex partition_record_def
      by (auto simp: cmp_def split: if_splits ordering.splits)
    then show "ir_record x \<in> set (records_of st tp) \<and> ir_offset x = off" by (simp add: records_of_def) }
  { assume none: "existing_record st tp off = None"
    show "\<forall>r\<in>set (records_of st tp). record_offset r \<noteq> off"
    proof (cases "?rs = []")
      case False
      then have "ir_offset (last ?rs) < off \<or> off \<notin> ir_offset ` set ?rs"
        using none find(2) unfolding ex partition_record_def by (auto simp: cmp_def split: if_splits)
      then show ?thesis using last by (force simp: records_of_def)
    qed (simp add: records_of_def) }
qed

definition log_retry ::
  "durable_log_record \<Rightarrow> ('c, 'z) log_stripe_scheme \<Rightarrow> ('c, 'z) log_stripe_scheme \<times> index_receipt log_db_result \<Rightarrow> bool" where
  "log_retry r st = (\<lambda>(st', res).
     let tp = rr_topic_partition (record_ref r) in
     st_shard_id st' = st_shard_id st \<and> st_frame_partitions st' = st_frame_partitions st \<and>
     (case res of
        Inl e \<Rightarrow> records_of st' = records_of st
      | Inr rc \<Rightarrow> rc_record_ref rc = record_ref r \<and>
          (if r \<in> set (records_of st tp) then st' = st
           else records_of st' = (records_of st)(tp := records_of st tp @ [r]))))"

lemma apply_idempotent_ok:
  assumes "stripe_ok (ev_ucd E) st"
  shows "stripe_ok (ev_ucd E) (fst (apply_durable_idempotent E r st))" "log_retry r st (apply_durable_idempotent E r st)"
proof -
  let ?tp = "rr_topic_partition (record_ref r)"
  have "stripe_ok (ev_ucd E) (fst (apply_durable_idempotent E r st)) \<and> log_retry r st (apply_durable_idempotent E r st)"
  proof (cases "existing_record st ?tp (record_offset r)")
    case (Some x)
    then show ?thesis using assms existing_record_spec(1) [OF assms Some]
      by (auto simp: apply_durable_idempotent_def log_retry_def Let_def)
  next
    case None
    then have "r \<notin> set (records_of st ?tp)" using existing_record_spec(2) [OF assms None] by blast
    then show ?thesis using None apply_new_ok [OF assms, of r]
      by (auto simp: apply_durable_idempotent_def log_retry_def log_step_def Let_def split: prod.splits sum.splits)
  qed
  then show "stripe_ok (ev_ucd E) (fst (apply_durable_idempotent E r st))" "log_retry r st (apply_durable_idempotent E r st)" by simp_all
qed

lemma idempotent_present:
  assumes "stripe_ok U st" "r \<in> set (records_of st (rr_topic_partition (record_ref r)))"
  shows "\<exists>rc. apply_durable_idempotent E r st = (st, Inr rc)"
proof -
  let ?tp = "rr_topic_partition (record_ref r)"
  have "existing_record st ?tp (record_offset r) \<noteq> None" using existing_record_spec(2) [OF assms(1)] assms(2) by blast
  then obtain x where x: "existing_record st ?tp (record_offset r) = Some x" by blast
  have "distinct (map record_offset (records_of st ?tp))"
    using assms(1) stripe_atD(1) [of U _ st ?tp] unfolding stripe_ok_def partition_upto_def records_of_def
    by (simp add: strict_sorted_iff)
  then have "ir_record x = r"
    using existing_record_spec(1) [OF assms(1) x] assms(2) by (auto simp: distinct_map inj_on_def)
  then show ?thesis using x by (simp add: apply_durable_idempotent_def Let_def)
qed

section \<open>Batches\<close>

definition batch_from :: "shard_id \<Rightarrow> topic_partition \<Rightarrow> logical_offset \<Rightarrow> nat \<Rightarrow> otlp_log_event list \<Rightarrow> durable_log_record list" where
  "batch_from shard tp off k es = map (\<lambda>(i, e). into_durable e shard tp (off + of_nat i)) (enumerate k es)"

abbreviation batch_records :: "shard_id \<Rightarrow> topic_partition \<Rightarrow> logical_offset \<Rightarrow> otlp_log_event list \<Rightarrow> durable_log_record list" where
  "batch_records shard tp off es \<equiv> batch_from shard tp off 0 es"

lemma batch_from_simps [simp]:
  "batch_from shard tp off k [] = []"
  "batch_from shard tp off k (e # es) = into_durable e shard tp (off + of_nat k) # batch_from shard tp off (Suc k) es"
  by (simp_all add: batch_from_def)

lemma length_batch_from [simp]: "length (batch_from shard tp off k es) = length es"
  by (simp add: batch_from_def)

lemma into_durable_simps [simp]:
  "rr_topic_partition (record_ref (into_durable e shard tp off)) = tp" "record_offset (into_durable e shard tp off) = off"
  "message (into_durable e shard tp off) = oe_message e" "record_fields (into_durable e shard tp off) = oe_fields e"
  "stream_shard_id (into_durable e shard tp off) = shard"
  by (simp_all add: into_durable_def record_ref_new_def)

text \<open>The offsets of a batch that was checked to fit do not wrap around.\<close>

abbreviation fits :: "logical_offset \<Rightarrow> nat \<Rightarrow> bool" where
  "fits off n \<equiv> unat off + n \<le> 2 ^ 64"

lemma unat_batch_offset: "fits off n \<Longrightarrow> i < n \<Longrightarrow> unat (off + of_nat i) = unat off + i"
  by (simp add: unat_word_ariths(1) unat_of_nat)

lemma batch_offset_fits: "fits off n \<Longrightarrow> i < n \<Longrightarrow> batch_offset tp off i = Inr (off + of_nat i)"
  using unat_batch_offset [of off n i]
  by (auto simp: batch_offset_def and_then_eq_Inr try_word_Some checked_add_Some unat_of_nat intro!: exI [of _ "of_nat i"])

lemma validated_fits:
  assumes "validate_batch_offset_range tp off n = Inr ()" "n \<noteq> 0"
  shows "fits off n"
proof -
  obtain i v where "unat (i :: u64) = n - 1" "unat (v :: u64) = unat off + unat i"
    using assms by (auto simp: validate_batch_offset_range_def batch_offset_def and_then_eq_Inr try_word_Some checked_add_Some)
  then show ?thesis using assms(2) unat_bound [of v] by simp
qed

lemma batch_from_offsets:
  assumes "fits off (k + length es)" "r \<in> set (batch_from shard tp off k es)"
  shows "unat off + k \<le> unat (record_offset r)" "rr_topic_partition (record_ref r) = tp"
proof -
  obtain i e where ie: "(i, e) \<in> set (enumerate k es)" "r = into_durable e shard tp (off + of_nat i)"
    using assms(2) by (auto simp: batch_from_def)
  then have "k \<le> i" "i < k + length es" by (auto simp: in_set_enumerate_eq)
  then show "unat off + k \<le> unat (record_offset r)" "rr_topic_partition (record_ref r) = tp"
    using unat_batch_offset [OF assms(1), of i] ie(2) by simp_all
qed

definition batch_applied ::
  "topic_partition \<Rightarrow> durable_log_record list \<Rightarrow> ('c, 'z) log_stripe_scheme \<Rightarrow> index_receipt list \<Rightarrow>
   ('c, 'z) log_stripe_scheme \<times> index_receipt list log_db_result \<Rightarrow> bool" where
  "batch_applied tp rs st receipts = (\<lambda>(st', res). \<exists>m \<le> length rs.
     records_of st' = (records_of st)(tp := records_of st tp @ filter (\<lambda>r. r \<notin> set (records_of st tp)) (take m rs)) \<and>
     st_shard_id st' = st_shard_id st \<and> st_frame_partitions st' = st_frame_partitions st \<and>
     (case res of Inl e \<Rightarrow> True
      | Inr rcs \<Rightarrow> m = length rs \<and> map rc_record_ref rcs = map rc_record_ref receipts @ map record_ref rs))"

lemma apply_each_ok:
  assumes "stripe_ok (ev_ucd E) st" "fits off (k + length es)"
  shows "stripe_ok (ev_ucd E) (fst (apply_each E tp off (enumerate k es) receipts st)) \<and>
    batch_applied tp (batch_from (st_shard_id st) tp off k es) st receipts (apply_each E tp off (enumerate k es) receipts st)"
  using assms
proof (induction es arbitrary: k receipts st)
  case Nil
  then show ?case by (simp add: batch_applied_def)
next
  case (Cons e es)
  let ?r = "into_durable e (st_shard_id st) tp (off + of_nat k)" and ?old = "records_of st tp"
  obtain st1 res where one: "apply_durable_idempotent E ?r st = (st1, res)" by (metis surj_pair)
  note ok = apply_idempotent_ok [OF Cons.prems(1), of ?r, unfolded one fst_conv]
  note retry = ok(2) [unfolded log_retry_def prod.case Let_def into_durable_simps]
  have bo: "batch_offset tp off k = Inr (off + of_nat k)" using batch_offset_fits [OF Cons.prems(2), of k] by simp
  show ?case
  proof (cases res)
    case (Inl err)
    then show ?thesis using retry ok(1) bo one by (auto simp: batch_applied_def intro!: exI [of _ 0])
  next
    case (Inr rc)
    let ?rest = "batch_from (st_shard_id st) tp off (Suc k) es"
    have fits: "fits off (Suc k + length es)" using Cons.prems(2) by simp
    have sh: "st_shard_id st1 = st_shard_id st" "st_frame_partitions st1 = st_frame_partitions st" using retry by simp_all
    have later: "r \<noteq> ?r" if "r \<in> set ?rest" for r
      using batch_from_offsets(1) [OF fits that] unat_batch_offset [OF Cons.prems(2), of k] by auto
    obtain st2 res2 where two: "apply_each E tp off (enumerate (Suc k) es) (receipts @ [rc]) st1 = (st2, res2)" by (metis surj_pair)
    note IH = Cons.IH [OF ok(1) fits, of "receipts @ [rc]", unfolded two fst_conv batch_applied_def prod.case length_batch_from sh]
    then obtain m where m: "m \<le> length es" "records_of st2 = (records_of st1)
        (tp := records_of st1 tp @ filter (\<lambda>r. r \<notin> set (records_of st1 tp)) (take m ?rest))"
      "case res2 of Inl e \<Rightarrow> True
        | Inr rcs \<Rightarrow> m = length es \<and> map rc_record_ref rcs = map rc_record_ref (receipts @ [rc]) @ map record_ref ?rest"
      and keep: "st_shard_id st2 = st_shard_id st" "st_frame_partitions st2 = st_frame_partitions st"
      by blast
    have "(records_of st1)(tp := records_of st1 tp @ filter (\<lambda>r. r \<notin> set (records_of st1 tp)) (take m ?rest)) =
        (records_of st)(tp := ?old @ filter (\<lambda>r. r \<notin> set ?old) (take (Suc m) (?r # ?rest)))"
    proof (cases "?r \<in> set ?old")
      case True
      then show ?thesis using retry Inr by simp
    next
      case False
      have "filter (\<lambda>r. r \<notin> set (?old @ [?r])) (take m ?rest) = filter (\<lambda>r. r \<notin> set ?old) (take m ?rest)"
        by (rule filter_cong [OF refl]) (use later in \<open>auto dest: in_set_takeD\<close>)
      then show ?thesis using retry Inr False by simp
    qed
    then have "records_of st2 = (records_of st)(tp := ?old @ filter (\<lambda>r. r \<notin> set ?old) (take (Suc m) (?r # ?rest)))"
      using m(2) by simp
    moreover have "rc_record_ref rc = record_ref ?r" using retry Inr by simp
    then have "case res2 of Inl e \<Rightarrow> True | Inr rcs \<Rightarrow> Suc m = length (?r # ?rest) \<and>
        map rc_record_ref rcs = map rc_record_ref receipts @ map record_ref (?r # ?rest)"
      using m(3) by (cases res2) simp_all
    ultimately have "batch_applied tp (?r # ?rest) st receipts (st2, res2)"
      using m(1) keep unfolding batch_applied_def prod.case length_Cons length_batch_from by blast
    then show ?thesis using bo one Inr two IH by simp
  qed
qed

subsection \<open>Homogeneous ranges\<close>

text \<open>
  During a homogeneous range the partition has records from ordinal \<open>n\<close> on that repeat the
  message and fields of the record at \<open>n\<close>, which is the last one indexed.
\<close>

definition deferred_at ::
  "ucd \<Rightarrow> topic_partition \<Rightarrow> nat \<Rightarrow> rstr \<Rightarrow> metadata_field list \<Rightarrow> nat list \<Rightarrow> nat list \<Rightarrow>
   (u32 \<times> logical_offset) option \<Rightarrow> ('c, 'z) log_stripe_scheme \<Rightarrow> bool" where
  "deferred_at U tp n msg mf ts fs deferred st \<longleftrightarrow>
     (let rs = records_of st tp in
      stripe_at U ((\<lambda>tp. length (records_of st tp))(tp := Suc n)) st \<and> n < length rs \<and>
      deferred = (if length rs = Suc n then None else Some (of_nat (length rs - 1), record_offset (last rs))) \<and>
      resolves (pi_term_ids (partition_of st tp)) (set (message_terms U msg)) ts \<and>
      resolves (field_ids_of (pi_field_ids (partition_of st tp))) (field_pairs mf) fs \<and>
      (\<forall>j. n \<le> j \<longrightarrow> j < length rs \<longrightarrow> message (rs ! j) = msg \<and> record_fields (rs ! j) = mf))"

lemma publish_deferred_ok:
  assumes "deferred_at U tp n msg mf ts fs deferred st"
  shows "stripe_ok U (publish_deferred tp (of_nat n) deferred ts fs st) \<and>
    records_of (publish_deferred tp (of_nat n) deferred ts fs st) = records_of st \<and>
    st_shard_id (publish_deferred tp (of_nat n) deferred ts fs st) = st_shard_id st \<and>
    st_frame_partitions (publish_deferred tp (of_nat n) deferred ts fs st) = st_frame_partitions st"
proof (cases "length (records_of st tp) = Suc n")
  case True
  have "(\<lambda>tp. length (records_of st tp))(tp := Suc n) = (\<lambda>tp. length (records_of st tp))" using True by auto
  then show ?thesis using assms True by (simp add: deferred_at_def publish_deferred_def stripe_ok_def Let_def)
next
  case False
  let ?P = "partition_of st tp" and ?rs = "records_of st tp" and ?m = "length (records_of st tp) - 1"
  note d = assms [unfolded deferred_at_def Let_def if_not_P [OF False]]
  have at: "stripe_at U ((\<lambda>tp. length (records_of st tp))(tp := Suc n)) st" using d by blast
  have up: "partition_upto U tp (Suc n) ?P" using stripe_atD(1) [OF at, of tp] by simp
  have len: "Suc n < length ?rs" "length ?rs \<le> 2 ^ 32" using d False up by (auto simp: partition_upto_def records_of_def)
  have keys: "term_keys U (pi_records ?P) j = set (message_terms U msg) \<and> field_keys (pi_records ?P) j = field_pairs mf"
    if "Suc n \<le> j" "j \<le> ?m" for j
  proof -
    have j: "n \<le> j" "j < length ?rs" using that len by simp_all
    then have "message (?rs ! j) = msg" "record_fields (?rs ! j) = mf" using d by blast+
    then show ?thesis using j(2) by (simp add: term_keys_def field_keys_def records_of_def)
  qed
  define Q where "Q = publish_homogeneous_posting_range (of_nat (Suc n)) (of_nat ?m) (record_offset (last ?rs)) ts fs ?P"
  have "indexed_upto U (Suc ?m) Q" unfolding Q_def
    by (rule publish_range_ok [of U "Suc n" ?P ?m "set (message_terms U msg)" ts "field_pairs mf" fs])
      (use up d len keys in \<open>auto simp: partition_upto_def\<close>)
  moreover have "Suc ?m = length ?rs" "?rs \<noteq> []" using len by auto
  ultimately have upQ: "partition_upto U tp (length ?rs) Q"
    using up by (simp add: partition_upto_def Q_def publish_homogeneous_posting_range_def records_of_def last_conv_nth)
  define st' where "st' = publish_deferred tp (of_nat n) deferred ts fs st"
  have st': "st' = st\<lparr>st_partitions := (st_partitions st)(tp \<mapsto> Q)\<rparr>"
    using d by (simp add: st'_def publish_deferred_def publish_range_def Q_def add.commute)
  have part: "partition_of st' tp' = (if tp' = tp then Q else partition_of st tp')" for tp' by (simp add: st' partition_of_def)
  have recs: "records_of st' = records_of st"
    by (rule ext) (simp add: records_of_def part Q_def publish_homogeneous_posting_range_def)
  have "stripe_at U (\<lambda>tp. length (records_of st tp)) st'"
    by (rule stripe_at_update [OF at, of tp])
      (use upQ in \<open>simp_all add: part Q_def publish_homogeneous_posting_range_def\<close>, simp_all add: st')
  then have "stripe_ok U st' \<and> records_of st' = records_of st \<and> st_shard_id st' = st_shard_id st \<and>
      st_frame_partitions st' = st_frame_partitions st" using recs by (simp add: stripe_ok_def st')
  then show ?thesis by (simp only: st'_def)
qed

definition range_applied ::
  "topic_partition \<Rightarrow> durable_log_record list \<Rightarrow> ('c, 'z) log_stripe_scheme \<Rightarrow> index_receipt list \<Rightarrow>
   ('c, 'z) log_stripe_scheme \<times> index_receipt list log_db_result \<Rightarrow> bool" where
  "range_applied tp rs st receipts = (\<lambda>(st', res). \<exists>m \<le> length rs.
     records_of st' = (records_of st)(tp := records_of st tp @ take m rs) \<and>
     st_shard_id st' = st_shard_id st \<and> st_frame_partitions st' = st_frame_partitions st \<and>
     (case res of Inl e \<Rightarrow> True
      | Inr rcs \<Rightarrow> m = length rs \<and> map rc_record_ref rcs = map rc_record_ref receipts @ map record_ref rs))"

lemma range_applied_Cons:
  assumes "range_applied tp rs st1 (receipts @ [rc]) (st2, res)" "rc_record_ref rc = record_ref r"
    and "records_of st1 = (records_of st)(tp := records_of st tp @ [r])"
    and "st_shard_id st1 = st_shard_id st" "st_frame_partitions st1 = st_frame_partitions st"
  shows "range_applied tp (r # rs) st receipts (st2, res)"
proof -
  obtain m where m: "m \<le> length rs" "records_of st2 = (records_of st1)(tp := records_of st1 tp @ take m rs)"
    "st_shard_id st2 = st_shard_id st1" "st_frame_partitions st2 = st_frame_partitions st1"
    "case res of Inl e \<Rightarrow> True
      | Inr rcs \<Rightarrow> m = length rs \<and> map rc_record_ref rcs = map rc_record_ref (receipts @ [rc]) @ map record_ref rs"
    using assms(1) unfolding range_applied_def prod.case by blast
  have "records_of st2 = (records_of st)(tp := records_of st tp @ take (Suc m) (r # rs))" using m(2) assms(3) by simp
  moreover have "case res of Inl e \<Rightarrow> True
      | Inr rcs \<Rightarrow> Suc m = length (r # rs) \<and> map rc_record_ref rcs = map rc_record_ref receipts @ map record_ref (r # rs)"
    using m(5) assms(2) by (cases res) simp_all
  moreover have "Suc m \<le> length (r # rs)" using m(1) by simp
  ultimately show ?thesis using m(3,4) assms(4,5) unfolding range_applied_def prod.case by metis
qed

lemma apply_deferred_ok:
  assumes "deferred_at (ev_ucd E) tp n msg mf ts fs deferred st" "fits off (k + length es)"
    and "\<forall>e\<in>set es. oe_message e = msg \<and> oe_fields e = mf"
  shows "stripe_ok (ev_ucd E) (fst (apply_deferred E tp off (of_nat n) ts fs (enumerate k es) receipts deferred st)) \<and>
    range_applied tp (batch_from (st_shard_id st) tp off k es) st receipts
      (apply_deferred E tp off (of_nat n) ts fs (enumerate k es) receipts deferred st)"
  using assms
proof (induction es arbitrary: k receipts deferred st)
  case Nil
  then show ?case using publish_deferred_ok [OF Nil(1)] by (simp add: range_applied_def)
next
  case (Cons e es)
  let ?U = "ev_ucd E" and ?rs = "records_of st tp" and ?r = "into_durable e (st_shard_id st) tp (off + of_nat k)"
  note d = Cons.prems(1) [unfolded deferred_at_def Let_def]
  have at: "stripe_at ?U ((\<lambda>tp. length (records_of st tp))(tp := Suc n)) st" using d by blast
  obtain st1 res where one: "apply_durable_new_inner E ?r False st = (st1, res)" by (metis surj_pair)
  have inner: "case res of Inl e \<Rightarrow> record_failed ?U ((\<lambda>tp. length (records_of st tp))(tp := Suc n)) st st1
      | Inr a \<Rightarrow> record_stored ?U ((\<lambda>tp. length (records_of st tp))(tp := Suc n)) ?r False st st1 a"
    by (rule inner_ok [OF one at refl]) simp_all
  have bo: "batch_offset tp off k = Inr (off + of_nat k)" using batch_offset_fits [OF Cons.prems(2), of k] by simp
  show ?case
  proof (cases res)
    case (Inl err)
    then have failed: "record_failed ?U ((\<lambda>tp. length (records_of st tp))(tp := Suc n)) st st1" using inner by simp
    have "deferred_at ?U tp n msg mf ts fs deferred st1"
      using d failed record_failed_ids [OF failed, of tp] by (simp add: deferred_at_def record_failed_def Let_def)
    from publish_deferred_ok [OF this] show ?thesis using inner Inl bo one
      by (auto simp: record_failed_def range_applied_def intro!: exI [of _ 0])
  next
    case (Inr a)
    note stored = inner [unfolded Inr sum.case record_stored_def Let_def into_durable_simps if_False]
    have recs: "records_of st1 = (records_of st)(tp := ?rs @ [?r])" using stored by blast
    have lens: "(\<lambda>tp. length (records_of st1 tp))(tp := Suc n) = (\<lambda>tp. length (records_of st tp))(tp := Suc n)"
      by (auto simp: recs)
    have same: "message (records_of st1 tp ! j) = msg \<and> record_fields (records_of st1 tp ! j) = mf"
      if "n \<le> j" "j < length (records_of st1 tp)" for j
      using that d Cons.prems(3) by (cases "j < length ?rs") (auto simp: recs nth_append)
    have "deferred_at ?U tp n msg mf ts fs (Some (ap_ordinal a, off + of_nat k)) st1"
      using d stored same unfolding deferred_at_def Let_def lens by (auto simp: recs)
    note IH = Cons.IH [OF this, of "Suc k" "receipts @ [ap_receipt a]"]
    obtain st2 res2 where two: "apply_deferred E tp off (of_nat n) ts fs (enumerate (Suc k) es) (receipts @ [ap_receipt a])
        (Some (ap_ordinal a, off + of_nat k)) st1 = (st2, res2)" by (metis surj_pair)
    have "stripe_ok ?U st2" "range_applied tp (batch_from (st_shard_id st) tp off (Suc k) es) st1 (receipts @ [ap_receipt a]) (st2, res2)"
      using IH Cons.prems(2,3) stored unfolding two by simp_all
    moreover from this(2) have "range_applied tp (?r # batch_from (st_shard_id st) tp off (Suc k) es) st receipts (st2, res2)"
      by (rule range_applied_Cons [OF _ _ recs]) (use stored in simp_all)
    ultimately show ?thesis using bo one Inr two by simp
  qed
qed

lemma apply_homogeneous_ok:
  assumes "stripe_ok (ev_ucd E) st" "can_index_as_homogeneous_range st tp off es" "fits off (length es)"
  shows "stripe_ok (ev_ucd E) (fst (apply_homogeneous_events E tp off es st)) \<and>
    range_applied tp (batch_records (st_shard_id st) tp off es) st [] (apply_homogeneous_events E tp off es st)"
proof -
  let ?U = "ev_ucd E" and ?f = "\<lambda>tp. length (records_of st tp)" and ?n = "length (records_of st tp)"
  obtain e es' where es: "es = e # es'" using assms(2) by (cases es) (auto simp: can_index_as_homogeneous_range_def)
  have same: "\<forall>x\<in>set es'. oe_message x = oe_message e \<and> oe_fields x = oe_fields e"
    using assms(2) by (auto simp: can_index_as_homogeneous_range_def es list_all_iff)
  let ?r = "into_durable e (st_shard_id st) tp off"
  obtain st1 res where one: "apply_durable_new_inner E ?r True st = (st1, res)" by (metis surj_pair)
  have at: "stripe_at ?U ?f st" using assms(1) by (simp add: stripe_ok_def)
  have inner: "case res of Inl e \<Rightarrow> record_failed ?U ?f st st1 | Inr a \<Rightarrow> record_stored ?U ?f ?r True st st1 a"
    by (rule inner_ok [OF one at refl refl]) simp
  show ?thesis
  proof (cases res)
    case (Inl err)
    then show ?thesis using inner one stripe_ok_failed [of ?U st st1]
      by (auto simp: apply_homogeneous_events_def es range_applied_def record_failed_def intro!: exI [of _ 0])
  next
    case (Inr a)
    then have stored: "record_stored ?U ?f ?r True st st1 a" using inner by simp
    note s = stored [unfolded record_stored_def Let_def into_durable_simps if_True]
    obtain ts fs where ids: "ap_term_ids a = Some ts" "ap_field_ids a = Some fs"
      "resolves (pi_term_ids (partition_of st1 tp)) (set (message_terms ?U (oe_message e))) ts"
      "resolves (field_ids_of (pi_field_ids (partition_of st1 tp))) (field_pairs (oe_fields e)) fs" using s by blast
    have recs: "records_of st1 = (records_of st)(tp := records_of st tp @ [?r])" using s by blast
    have "(\<lambda>tp. length (records_of st1 tp))(tp := Suc ?n) = ?f(tp := Suc ?n)" by (auto simp: recs)
    then have "deferred_at ?U tp ?n (oe_message e) (oe_fields e) ts fs None st1"
      using s ids(3,4) unfolding deferred_at_def Let_def by (simp add: recs nth_append less_Suc_eq)
    from apply_deferred_ok [OF this _ same, of off 1 "[ap_receipt a]"] assms(3) s
    have "stripe_ok ?U (fst (apply_homogeneous_events E tp off es st))"
      "range_applied tp (batch_from (st_shard_id st) tp off 1 es') st1 [ap_receipt a] (apply_homogeneous_events E tp off es st)"
      using one Inr ids(1,2) by (simp_all add: apply_homogeneous_events_def es)
    moreover from this(2) have "range_applied tp (?r # batch_from (st_shard_id st) tp off 1 es') st [] (apply_homogeneous_events E tp off es st)"
      using range_applied_Cons [of tp _ st1 "[]" "ap_receipt a" _ _ ?r st] s recs
      by (cases "apply_homogeneous_events E tp off es st") auto
    ultimately show ?thesis by (simp add: es)
  qed
qed

lemma range_batch:
  assumes "range_applied tp rs st receipts x" "\<forall>r\<in>set rs. r \<notin> set (records_of st tp)"
  shows "batch_applied tp rs st receipts x"
proof -
  have "filter (\<lambda>r. r \<notin> set (records_of st tp)) (take m rs) = take m rs" for m
    using assms(2) by (auto simp: filter_id_conv dest: in_set_takeD)
  then show ?thesis using assms(1) by (simp add: range_applied_def batch_applied_def)
qed

lemma homogeneous_new:
  assumes "stripe_ok U st" "can_index_as_homogeneous_range st tp off es" "fits off (length es)"
    and "r \<in> set (batch_records shard tp off es)"
  shows "r \<notin> set (records_of st tp)"
proof
  assume old: "r \<in> set (records_of st tp)"
  then obtain P where P: "st_partitions st tp = Some P" "partition_of st tp = P" "pi_records P \<noteq> []"
    by (cases "st_partitions st tp") (force simp: partition_of_def partition_default_def records_of_def)+
  have "sorted (map record_offset (records_of st tp))"
    using stripe_atD(1) [of U _ st tp] assms(1) unfolding stripe_ok_def partition_upto_def records_of_def
    by (simp add: strict_sorted_imp_sorted)
  then have "record_offset r \<le> record_offset (last (records_of st tp))"
    using old by (cases "records_of st tp" rule: rev_cases) (auto simp: sorted_append)
  moreover have "ir_offset (last (pi_records P)) < off"
    using assms(2) P by (auto simp: can_index_as_homogeneous_range_def partition_last_offset_def)
  moreover have "unat off \<le> unat (record_offset r)" using batch_from_offsets(1) [of off 0 es r shard tp] assms(3,4) by simp
  ultimately show False using P by (simp add: records_of_def last_map word_le_nat_alt word_less_nat_alt)
qed

lemma apply_otlp_ok:
  assumes "stripe_ok (ev_ucd E) st"
  shows "stripe_ok (ev_ucd E) (fst (apply_otlp_events E catalog tp off es st)) \<and>
    batch_applied tp (batch_records (st_shard_id st) tp off es) st [] (apply_otlp_events E catalog tp off es st)"
proof -
  obtain st1 res where one: "refresh_dictionary_catalog catalog st = (st1, res)" by (metis surj_pair)
  note same = same_index_refresh [OF one]
  note ok = stripe_ok_same [OF same assms]
  have st1: "records_of st1 = records_of st" "st_shard_id st1 = st_shard_id st" "st_frame_partitions st1 = st_frame_partitions st"
    using same same_index_records [OF same] by (simp_all add: same_index_def)
  have unchanged: "batch_applied tp (batch_records (st_shard_id st) tp off es) st [] (st1, Inl e)" for e
    using st1 by (auto simp: batch_applied_def intro!: exI [of _ 0])
  show ?thesis
  proof (cases "res = Inr True \<or> res = Inr False")
    case False
    then show ?thesis using one ok unchanged by (cases res) (auto simp: apply_otlp_events_def)
  next
    case refreshed: True
    show ?thesis
    proof (cases "validate_batch_offset_range tp off (length es)")
      case (Inl e)
      then show ?thesis using one ok unchanged refreshed by (auto simp: apply_otlp_events_def)
    next
      case (Inr u)
      then have fits: "fits off (length es)"
        using validated_fits [of tp off "length es"] unat_bound [of off] by (cases "length es = 0") auto
      have "stripe_ok (ev_ucd E) (fst (apply_otlp_events E catalog tp off es st)) \<and>
          batch_applied tp (batch_records (st_shard_id st1) tp off es) st1 [] (apply_otlp_events E catalog tp off es st)"
      proof (cases "can_index_as_homogeneous_range st1 tp off es")
        case True
        note h = apply_homogeneous_ok [OF ok True fits]
        have "batch_applied tp (batch_records (st_shard_id st1) tp off es) st1 [] (apply_homogeneous_events E tp off es st1)"
          by (rule range_batch [OF conjunct2 [OF h]]) (use homogeneous_new [OF ok True fits] in blast)
        then show ?thesis using h one refreshed Inr True by (auto simp: apply_otlp_events_def)
      next
        case False
        then show ?thesis using apply_each_ok [OF ok, of off 0 es tp "[]"] fits one refreshed Inr
          by (auto simp: apply_otlp_events_def)
      qed
      then show ?thesis using st1 by (simp add: batch_applied_def)
    qed
  qed
qed

end
