(* ===== verification/Stripe_Run.thy ===== *)
theory Stripe_Run
  imports Stripe_Exact
begin

text \<open>
  The stripe as a transition system. A step is one call of a public method of
  \<^verbatim>\<open>LogStripe\<close> (\<^verbatim>\<open>src/src/stripe.rs\<close>) that changes it; the invariant of
  \<^verbatim>\<open>Stripe_Exact\<close> holds in every stripe that such calls reach from
  \<^verbatim>\<open>LogStripe::new\<close>, whether the calls succeed or fail, so the hot query of a
  reachable stripe is the linear scan of the records its partition stores.
\<close>

section \<open>Reachable stripes\<close>

text \<open>
  \<open>step_catalog_mut\<close> and \<open>step_dictionary_cache_mut\<close> are the methods that hand out a mutable
  reference; \<open>step_ingest_pack\<close> stands for \<^verbatim>\<open>apply_indexed_ingest_pack\<close>, which replaces the
  resident frames of a partition and nothing else: any replacement is a step here.
\<close>

inductive stripe_step :: "'c stripe_env \<Rightarrow> ('c, 'z) log_stripe_scheme \<Rightarrow> ('c, 'z) log_stripe_scheme \<Rightarrow> bool" for E where
  step_durable: "apply_durable E r st = (st', res) \<Longrightarrow> stripe_step E st st'"
| step_batch: "apply_otlp_events E catalog tp off es st = (st', receipts) \<Longrightarrow> stripe_step E st st'"
| step_seal_active: "seal_active_blocks order E st = (st', sealed) \<Longrightarrow> stripe_step E st st'"
| step_install: "install_dictionary catalog p d payload st = (st', catalog', ins) \<Longrightarrow> stripe_step E st st'"
| step_refresh: "refresh_dictionary_catalog catalog st = (st', changed) \<Longrightarrow> stripe_step E st st'"
| step_offloaded: "mark_offloaded_range i key off (st_catalog st) = Inr c \<Longrightarrow> stripe_step E st (st\<lparr>st_catalog := c\<rparr>)"
| step_catalog_mut: "stripe_step E st (st\<lparr>st_catalog := c\<rparr>)"
| step_dictionary_cache_mut: "stripe_step E st (st\<lparr>st_dictionary_cache := dc\<rparr>)"
| step_ingest_pack: "stripe_step E st (st\<lparr>st_frame_partitions := fp\<rparr>)"

lemma same_index_install:
  assumes "install_dictionary catalog p d payload st = (st', catalog', ins)"
  shows "same_index st st'"
proof -
  have cached: "same_index st1 st'" if "(case r of Inl e \<Rightarrow> (st1, c, Inl e)
      | Inr b \<Rightarrow> (case cache_insert (st_dictionary_cache st1) d payload of
          Inl e \<Rightarrow> (st1, c, Inl e)
        | Inr (cache, ins) \<Rightarrow> (st1\<lparr>st_dictionary_cache := cache\<rparr>, c, Inr ins))) = (st', catalog', ins)"
    for st1 and c :: shared_catalog and r :: "bool log_db_result"
    using that by (auto split: sum.splits prod.splits)
  show ?thesis
  proof (cases catalog)
    case None
    have "same_index (st\<lparr>st_placement_dictionaries := (st_placement_dictionaries st)(p \<mapsto> d)\<rparr>) st'"
      by (rule cached [of _ _ "Inr False"]) (use assms None in \<open>simp add: install_dictionary_def\<close>)
    then show ?thesis by (rule same_index_trans [OF same_index_fields(6)])
  next
    case (Some ps)
    obtain poisoned s where ps: "ps = (poisoned, s)" by (cases ps)
    show ?thesis
    proof (cases "publish poisoned s p d payload")
      case (Inl e)
      then show ?thesis using assms Some ps by (simp add: install_dictionary_def)
    next
      case (Inr x)
      obtain s1 g where x: "x = (s1, g)" by (cases x)
      obtain st1 r where one: "refresh_dictionary_catalog (Some (poisoned, s1)) st = (st1, r)" by (metis surj_pair)
      have "same_index st1 st'"
        by (rule cached [of _ _ r]) (use assms Some ps Inr x one in \<open>simp add: install_dictionary_def\<close>)
      then show ?thesis by (rule same_index_trans [OF same_index_refresh [OF one]])
    qed
  qed
qed

lemma stripe_ok_frames: "stripe_ok U (st\<lparr>st_frame_partitions := fp\<rparr>) = stripe_ok U st"
  by (simp add: stripe_ok_def stripe_at_def records_of_def partition_of_def)

lemma stripe_step_ok:
  assumes "stripe_step E st st'" "stripe_ok (ev_ucd E) st"
  shows "stripe_ok (ev_ucd E) st'"
  using assms
proof (induction rule: stripe_step.induct)
  case (step_durable r st st' res)
  then show ?case using apply_durable_ok(1) [of E st r] by simp
next
  case (step_batch catalog tp off es st st' receipts)
  then show ?case using apply_otlp_ok [of E st catalog tp off es] by simp
qed (auto simp: stripe_ok_frames intro: stripe_ok_same [OF same_index_fields(2)] stripe_ok_same [OF same_index_fields(3)]
    stripe_ok_same dest: same_index_seal_active same_index_install same_index_refresh)

lemma stripe_new_ok:
  assumes "stripe_new level sizes Z shard c = Inr st"
  shows "stripe_ok U st"
proof -
  have st: "st_partitions st = Map.empty" "st_message_cache st = Map.empty" "st_field_cache st = Map.empty"
    using assms by (auto simp: stripe_new_def and_then_eq_Inr)
  have "partition_of st tp = partition_default" for tp by (simp add: partition_of_def st)
  then show ?thesis
    by (simp add: stripe_ok_def stripe_at_def records_of_def partition_default_def partition_upto_def indexed_upto_def
        hot_table_def caches_ok_def st field_ids_of_def inj_on_def dom_def split_beta)
qed

definition reachable :: "'c stripe_env \<Rightarrow> 'c log_stripe \<Rightarrow> bool" where
  "reachable E st \<longleftrightarrow> (\<exists>level_supported sizes shard c st0.
     stripe_new level_supported sizes (ev_zstd E) shard c = Inr st0 \<and> (stripe_step E)\<^sup>*\<^sup>* st0 st)"

lemma stripe_run_ok: "(stripe_step E)\<^sup>*\<^sup>* st st' \<Longrightarrow> stripe_ok (ev_ucd E) st \<Longrightarrow> stripe_ok (ev_ucd E) st'"
  by (induction rule: rtranclp_induct) (auto intro: stripe_step_ok)

lemma reachable_ok: "reachable E st \<Longrightarrow> stripe_ok (ev_ucd E) st"
  unfolding reachable_def using stripe_new_ok stripe_run_ok by blast

lemma stripe_partition_ok:
  assumes "stripe_ok U st" "length (records_of st tp) < 2 ^ 32" "\<forall>r\<in>set (records_of st tp). lower_stable U (message r)"
  shows "partition_ok U (partition_of st tp)"
  using assms stripe_atD(1) [of U _ st tp] unfolding stripe_ok_def
  by (auto simp: partition_ok_def partition_upto_def records_of_def comp_def)

lemma query_hot_partition: "query_hot_matches U rx q st = query_partition U rx q (partition_of st (q_topic_partition q))"
  by (simp add: query_hot_matches_def partition_of_def query_partition_def query_ordinals_def partition_default_def
      ordinal_record_window_def split: option.splits)

lemma apply_each_present:
  assumes "stripe_ok (ev_ucd E) st" "fits off (k + length es)"
    and "set (batch_from (st_shard_id st) tp off k es) \<subseteq> set (records_of st tp)"
  shows "\<exists>rcs. apply_each E tp off (enumerate k es) receipts st = (st, Inr rcs)"
  using assms(2,3)
proof (induction es arbitrary: k receipts)
  case (Cons e es)
  let ?r = "into_durable e (st_shard_id st) tp (off + of_nat k)"
  have "batch_offset tp off k = Inr (off + of_nat k)" using batch_offset_fits [OF Cons.prems(1), of k] by simp
  moreover obtain rc where "apply_durable_idempotent E ?r st = (st, Inr rc)"
    using idempotent_present [OF assms(1), of ?r E] Cons.prems(2) by auto
  ultimately show ?case using Cons.IH [of "Suc k" "receipts @ [rc]"] Cons.prems by simp
qed simp

lemma same_index_appends:
  "same_index st st' \<Longrightarrow> st_shard_id st' = st_shard_id st \<and> prefix (records_of st tp) (records_of st' tp)"
  using same_index_records [of st st'] by (simp add: same_index_def)

text \<open>Records are never lost, moved or changed by a step.\<close>

lemma stripe_step_appends:
  assumes "stripe_step E st st'" "stripe_ok (ev_ucd E) st"
  shows "st_shard_id st' = st_shard_id st \<and> prefix (records_of st tp) (records_of st' tp)"
  using assms
proof (induction rule: stripe_step.induct)
  case (step_durable r st st' res)
  then show ?case using apply_durable_ok(2) [of E st r] by (auto simp: log_step_def Let_def split: sum.splits)
next
  case (step_batch catalog tp' off es st st' receipts)
  then show ?case using apply_otlp_ok [of E st catalog tp' off es] by (auto simp: batch_applied_def)
next
  case (step_ingest_pack st fp)
  then show ?case by (simp add: records_of_def partition_of_def)
qed (rule same_index_appends, blast intro: same_index_fields same_index_seal_active same_index_install same_index_refresh)+

lemma stripe_run_appends:
  assumes "(stripe_step E)\<^sup>*\<^sup>* st st'" "stripe_ok (ev_ucd E) st"
  shows "st_shard_id st' = st_shard_id st \<and> prefix (records_of st tp) (records_of st' tp)"
  using assms
proof (induction rule: rtranclp_induct)
  case (step st1 st2)
  have "stripe_ok (ev_ucd E) st1" by (rule stripe_run_ok [OF step.hyps(1) step.prems])
  then show ?case using stripe_step_appends [OF step.hyps(2), of tp] step.IH [OF step.prems] prefix_order.trans by fastforce
qed simp

lemma otlp_present:
  assumes "stripe_ok (ev_ucd E) st" "refresh_dictionary_catalog catalog st = (st1, Inr changed)"
    and "validate_batch_offset_range tp off (length es) = Inr u"
    and "set (batch_records (st_shard_id st) tp off es) \<subseteq> set (records_of st tp)"
  shows "\<exists>rcs. apply_otlp_events E catalog tp off es st = (st1, Inr rcs)"
proof -
  note same = same_index_refresh [OF assms(2)]
  have ok: "stripe_ok (ev_ucd E) st1" by (rule stripe_ok_same [OF same assms(1)])
  have st1: "records_of st1 = records_of st" "st_shard_id st1 = st_shard_id st"
    using same same_index_records [OF same] by (simp_all add: same_index_def)
  have fits: "fits off (length es)"
    using validated_fits [of tp off "length es"] assms(3) unat_bound [of off] by (cases "length es = 0") auto
  have "\<not> can_index_as_homogeneous_range st1 tp off es"
  proof
    assume h: "can_index_as_homogeneous_range st1 tp off es"
    then obtain r where "r \<in> set (batch_records (st_shard_id st) tp off es)"
      by (cases es) (auto simp: can_index_as_homogeneous_range_def)
    then show False using homogeneous_new [OF ok h fits, of r "st_shard_id st"] assms(4) st1 by auto
  qed
  then show ?thesis
    using apply_each_present [OF ok, of off 0 es tp "[]"] fits assms(2,3,4) st1 by (simp add: apply_otlp_events_def)
qed

section \<open>A sample run\<close>

text \<open>One event is published in a new stripe, with a compressor that copies its input.\<close>

definition sample_env :: "unit stripe_env" where
  "sample_env =
     \<lparr>ev_ucd = sample_ucd,
      ev_zstd = \<lparr>zb_new = (\<lambda>_. Inr ()), zb_set_dictionary = (\<lambda>_ _ z. (z, Inr ())), zb_compress = (\<lambda>bs z. (z, Inr bs))\<rparr>,
      ev_encode = (\<lambda>_. Inr []), ev_handoff = (\<lambda>bs n. (take n bs, drop n bs)), ev_address = record_offset\<rparr>"

definition sample_event :: otlp_log_event where
  "sample_event = \<lparr>oe_timestamp_unix_nanos = 7, oe_message = [97], oe_fields = [], oe_compression_cohort = 0\<rparr>"

lemma reachable_step: "reachable E st \<Longrightarrow> stripe_step E st st' \<Longrightarrow> reachable E st'"
  unfolding reachable_def by (meson rtranclp.rtrancl_into_rtrancl)

lemma sample_stripe:
  "\<exists>st. stripe_new (\<lambda>_. True) (0, 0) (ev_zstd sample_env) 0 stripe_config_default = Inr st \<and>
     st_shard_id st = 0 \<and> st_config st = stripe_config_default \<and> st_partitions st = Map.empty \<and>
     st_placement_dictionaries st = Map.empty \<and> st_active_blocks st = [] \<and>
     \<not> lc_enabled (co_config (st_collator st))"
  by (simp add: stripe_new_def sample_env_def stripe_config_validate_def stripe_config_default_def locality_validate_def
      locality_config_default_def estimated_state_bytes_def collator_new_def cache_new_def compressor_new_def word_less_nat_alt)

lemma sample_batch:
  "\<exists>st st' rcs. reachable sample_env st \<and> records_of st (0, 0) = [] \<and> st_shard_id st = 0 \<and>
     reachable sample_env st' \<and> records_of st' (0, 0) = [into_durable sample_event 0 (0, 0) 5] \<and>
     apply_otlp_events sample_env None (0, 0) 5 [sample_event] st = (st', Inr rcs)"
proof -
  obtain st where new: "stripe_new (\<lambda>_. True) (0, 0) (ev_zstd sample_env) 0 stripe_config_default = Inr st"
    and st: "st_shard_id st = 0" "st_config st = stripe_config_default" "st_partitions st = Map.empty"
      "st_placement_dictionaries st = Map.empty" "st_active_blocks st = []" "\<not> lc_enabled (co_config (st_collator st))"
    using sample_stripe by blast
  let ?r = "into_durable sample_event 0 (0, 0) 5"
  have "str_len [97] = 1" by code_simp
  then have bytes: "row_source_bytes ?r = Inr 25"
    by (simp add: row_source_bytes_def into_durable_def sample_event_def validate_u32_length_def try_word_def checked_add_def)
  have "\<exists>st' a. store_record sample_env ?r True 25 f p (None, None) st = (st', Inr a)" for f p
    using st by (simp add: store_record_def collect_record_def partition_of_def partition_default_def push_record_def
        stripe_config_default_def word_le_nat_alt Let_def split_beta)
  then have "\<exists>st' a. apply_durable_new_inner sample_env ?r True st = (st', Inr a)"
    using st bytes by (simp add: apply_durable_new_inner_def validate_offset_def resolve_dictionary_def Let_def)
  then obtain st' rc where "apply_durable_new sample_env ?r st = (st', Inr rc)" by (auto simp: apply_durable_new_def)
  then have batch: "apply_otlp_events sample_env None (0, 0) 5 [sample_event] st = (st', Inr [rc])"
    using st by (simp add: apply_otlp_events_def refresh_dictionary_catalog_def validate_batch_offset_range_def batch_offset_def
      try_word_def checked_add_def can_index_as_homogeneous_range_def apply_durable_idempotent_def existing_record_def Let_def)
  have reach: "reachable sample_env st" unfolding reachable_def using new by blast
  have empty: "records_of st (0, 0) = []" using st by (simp add: records_of_def partition_of_def partition_default_def)
  have "records_of st' (0, 0) = [?r]"
    using apply_otlp_ok [OF reachable_ok [OF reach], of None "(0, 0)" 5 "[sample_event]"] batch empty st(1)
    by (auto simp: batch_applied_def)
  then show ?thesis using batch reach empty st(1) reachable_step [OF reach step_batch [OF batch]] by blast
qed

section \<open>Correctness of the stripe\<close>

text \<open>C1:
  A hot query of a stripe is the linear scan. Whatever calls a stripe has executed since it was
  created, failed ones included, a query returns what filtering, sorting and truncating the records
  of its partition returns, provided that these are fewer than \<open>2 ^ 32\<close> and that neither their
  messages nor the terms of the query hold titlecase letters, on which the two term normalizations
  differ.
\<close>

theorem stripe_query_exact:
  assumes "reachable E st" "ucd_sane (ev_ucd E)" "stable_query (ev_ucd E) q"
    and "length (records_of st (q_topic_partition q)) < 2 ^ 32"
    and "\<forall>r\<in>set (records_of st (q_topic_partition q)). lower_stable (ev_ucd E) (message r)"
  shows "query_hot_matches (ev_ucd E) rx q st =
    select (ev_ucd E) rx durable_view q (records_of st (q_topic_partition q))"
  unfolding query_hot_partition query_partition_exact [OF assms(2,3) stripe_partition_ok [OF reachable_ok [OF assms(1)] assms(4,5)]]
  by (simp add: records_of_def)

theorem stripe_query_exact_witness:
  "\<exists>st. reachable sample_env st \<and>
     query_hot_matches sample_ucd (\<lambda>_ _. False) ((log_query_new (0, 0))\<lparr>q_terms := [[65]]\<rparr>) st =
       [into_durable sample_event 0 (0, 0) 5]"
proof -
  let ?q = "(log_query_new (0, 0))\<lparr>q_terms := [[65]]\<rparr>" and ?r = "into_durable sample_event 0 (0, 0) 5"
  obtain st where st: "reachable sample_env st" "records_of st (0, 0) = [?r]" using sample_batch by blast
  have U: "ev_ucd sample_env = sample_ucd" by (simp add: sample_env_def)
  have tp: "q_topic_partition ?q = (0, 0)" by (simp add: log_query_new_def)
  have "lower_stable sample_ucd (message ?r)"
    by (rule ascii_lower_stable) (simp add: into_durable_def sample_event_def is_ascii_def)
  moreover have "stable_query sample_ucd ?q"
    by (simp add: log_query_new_def stable_query_def required_index_constraints_def ascii_lower_stable is_ascii_def)
  moreover have "select sample_ucd (\<lambda>_ _. False) durable_view ?q [?r] = [?r]" by code_simp
  ultimately show ?thesis
    using stripe_query_exact [OF st(1), of ?q "\<lambda>_ _. False"] st sample_ucd_sane unfolding U tp by auto
qed

text \<open>C2:
  Publishing a batch of events appends to the partition, in order, the records of the batch that it
  does not hold yet; if the call fails, it has published those of some first part of the batch. No
  other partition changes, and a successful call returns one receipt for every event.
\<close>

theorem otlp_batch_appends:
  assumes "reachable E st" "apply_otlp_events E catalog tp off es st = (st', res)"
  shows "\<exists>m \<le> length es.
    records_of st' = (records_of st)(tp := records_of st tp @
      filter (\<lambda>r. r \<notin> set (records_of st tp)) (take m (batch_records (st_shard_id st) tp off es))) \<and>
    (\<forall>rcs. res = Inr rcs \<longrightarrow> m = length es \<and>
      map rc_record_ref rcs = map record_ref (batch_records (st_shard_id st) tp off es))"
proof -
  have len: "length (batch_records (st_shard_id st) tp off es) = length es" by (simp add: batch_from_def)
  have ba: "batch_applied tp (batch_records (st_shard_id st) tp off es) st [] (st', res)"
    using apply_otlp_ok [OF reachable_ok [OF assms(1)], of catalog tp off es] assms(2) by simp
  obtain m where m: "m \<le> length es" "records_of st' = (records_of st)(tp := records_of st tp @
      filter (\<lambda>r. r \<notin> set (records_of st tp)) (take m (batch_records (st_shard_id st) tp off es)))"
    "case res of Inl e \<Rightarrow> True | Inr rcs \<Rightarrow> m = length es \<and>
      map rc_record_ref rcs = map rc_record_ref ([] :: index_receipt list) @ map record_ref (batch_records (st_shard_id st) tp off es)"
    using ba unfolding batch_applied_def len prod.case by blast
  have "\<forall>rcs. res = Inr rcs \<longrightarrow> m = length es \<and>
      map rc_record_ref rcs = map record_ref (batch_records (st_shard_id st) tp off es)" using m(3) by auto
  then show ?thesis using m(1,2) by blast
qed

theorem otlp_batch_appends_witness:
  "\<exists>(st :: unit log_stripe) st' rcs. apply_otlp_events sample_env None (0, 0) 5 [sample_event] st = (st', Inr rcs) \<and>
     records_of st (0, 0) = [] \<and> records_of st' (0, 0) = [into_durable sample_event 0 (0, 0) 5]"
proof -
  obtain st st' rcs where st: "reachable sample_env st" "records_of st (0, 0) = []" "st_shard_id st = 0"
    "apply_otlp_events sample_env None (0, 0) 5 [sample_event] st = (st', Inr rcs)" using sample_batch by blast
  have "records_of st' (0, 0) = [into_durable sample_event 0 (0, 0) 5]"
    using otlp_batch_appends [OF st(1,4)] st(2,3) by auto
  then show ?thesis using st by blast
qed

text \<open>C3:
  A batch that was published can be published again, at any later time: provided that the
  dictionary catalog can be refreshed, which fails only when its lock is poisoned, the call succeeds
  with the receipt of every event, and refreshing the dictionary catalog is all it does to the stripe.
\<close>

theorem otlp_retry:
  assumes "reachable E st" "apply_otlp_events E catalog tp off es st = (st1, Inr receipts)"
    and "(stripe_step E)\<^sup>*\<^sup>* st1 st2" "refresh_dictionary_catalog catalog2 st2 = (st3, Inr changed)"
  shows "\<exists>rcs. apply_otlp_events E catalog2 tp off es st2 = (st3, Inr rcs) \<and>
    map rc_record_ref rcs = map rc_record_ref receipts"
proof -
  let ?rs = "batch_records (st_shard_id st) tp off es"
  have ok: "stripe_ok (ev_ucd E) st" by (rule reachable_ok [OF assms(1)])
  note one = apply_otlp_ok [OF ok, of catalog tp off es, unfolded assms(2) fst_conv]
  have st1: "stripe_ok (ev_ucd E) st1" "st_shard_id st1 = st_shard_id st" "set ?rs \<subseteq> set (records_of st1 tp)"
    "map rc_record_ref receipts = map record_ref ?rs"
    using one by (auto simp: batch_applied_def)
  have ok2: "stripe_ok (ev_ucd E) st2" by (rule stripe_run_ok [OF assms(3) st1(1)])
  have run: "st_shard_id st2 = st_shard_id st" "set ?rs \<subseteq> set (records_of st2 tp)"
    using stripe_run_appends [OF assms(3) st1(1), of tp] st1(2,3) set_mono_prefix by fastforce+
  obtain u where u: "validate_batch_offset_range tp off (length es) = Inr u"
    using assms(2) by (auto simp: apply_otlp_events_def split: prod.splits sum.splits)
  obtain rcs where rcs: "apply_otlp_events E catalog2 tp off es st2 = (st3, Inr rcs)"
    using otlp_present [OF ok2 assms(4) u] run by auto
  then have "map rc_record_ref rcs = map record_ref ?rs"
    using apply_otlp_ok [OF ok2, of catalog2 tp off es] run by (auto simp: batch_applied_def)
  then show ?thesis using rcs st1(4) by simp
qed

theorem otlp_retry_witness:
  "\<exists>(st :: unit log_stripe) st' rcs rcs'. apply_otlp_events sample_env None (0, 0) 5 [sample_event] st = (st', Inr rcs) \<and>
     records_of st (0, 0) = [] \<and> apply_otlp_events sample_env None (0, 0) 5 [sample_event] st' = (st', Inr rcs')"
proof -
  obtain st st' rcs where st: "reachable sample_env st" "records_of st (0, 0) = []"
    "apply_otlp_events sample_env None (0, 0) 5 [sample_event] st = (st', Inr rcs)" using sample_batch by blast
  have "refresh_dictionary_catalog None st' = (st', Inr False)" by (simp add: refresh_dictionary_catalog_def)
  then show ?thesis using otlp_retry [OF st(1,3) rtranclp.rtrancl_refl] st(2,3) by blast
qed

text \<open>C13:
  The work loop that rebalances a block ends: every iteration replaces one queued block by blocks
  with fewer passes left, whatever the collator, the dictionaries and the encoder do.
\<close>

theorem rebalance_ends:
  "wf {((work', sealed', st'), (work, sealed, st)).
     work \<noteq> [] \<and> rebalance_step E force_seal (last work) (butlast work, sealed) st = (st', Inr (work', sealed'))}"
proof (rule wf_subset)
  show "wf (inv_image (mult less_than) (\<lambda>(work, sealed, st). mset (map passes_left work)))"
    by (intro wf_inv_image wf_mult wf_less_than)
qed (auto simp del: mset_map intro: rebalance_step_smaller)

end
