(* ===== verification/Spec2Isabelle.thy ===== *)
theory Spec2Isabelle
  imports Sealed_Pack Stripe_Run
begin

text \<open>
  Verification library for shard-log, a log database that runs beside the append log of a stream
  broker. Records arrive as durable appends of a partition, become visible in the hot index of a
  \<^emph>\<open>stripe\<close>, are collated into compression blocks, and end up in immutable \<^emph>\<open>packs\<close> with a
  persistent query index. A query is answered exactly from each of these places.

  \<^bold>\<open>The parts of the program and their theories.\<close>

  \<^item> \<^theory_text>\<open>Shardlog_Prelude\<close>, \<^theory_text>\<open>Rust_Str\<close>: what the source uses of the language and its standard
    library. Machine integers are words of their width, \<^verbatim>\<open>usize\<close> is \<open>nat\<close> with the bound
    \<open>usize_max\<close> written out where the source saturates, strings are lists of Unicode scalars with
    their UTF-8 encoding, sorting and binary search are the library algorithms. The Unicode tables
    are the parameter \<open>U\<close>.
  \<^item> \<^theory_text>\<open>Log_Types\<close> (\<^verbatim>\<open>src/types.rs\<close>, \<^verbatim>\<open>src/error.rs\<close>): records, predicates, queries, errors.
  \<^item> \<^theory_text>\<open>Text_Scan\<close> (\<^verbatim>\<open>src/locality.rs\<close>): the two message scanners and the template fingerprint.
    Both scanners report the same terms, and the shape hash ignores dynamic tokens.
  \<^item> \<^theory_text>\<open>Query\<close> (\<^verbatim>\<open>src/query.rs\<close>): exact evaluation. \<open>select\<close> is the reference that every index
    is compared with: filter all records, sort, truncate. Pages that continue after a cursor tile
    the result, and the constraints extracted for an index are necessary conditions, exact together
    with the residual test. The regular-expression engine is the parameter \<open>rx\<close>.
  \<^item> \<^theory_text>\<open>Postings\<close>, \<^theory_text>\<open>Trigram\<close>, \<^theory_text>\<open>Block_Index\<close>, \<^theory_text>\<open>Query_Index\<close> (\<^verbatim>\<open>src/query_index.rs\<close>): posting
    lists as runs or ordinals, the trigram filter, the index of one block with its two caches, and
    the directory over blocks with its planners. Intersections of postings are used through the
    locales \<open>windowed_intersection\<close> and \<open>intersection\<close>, interpreted on every intersection routine.
  \<^item> \<^theory_text>\<open>Query_Plan\<close>, \<^theory_text>\<open>Sealed_Query\<close>: the planners return exactly the records that \<open>select\<close> needs.
  \<^item> \<^theory_text>\<open>Index_Codec\<close>, \<^theory_text>\<open>Directory_Codec\<close> (\<^verbatim>\<open>src/query_index.rs\<close>): the byte format of the directory.
    Round trips go through the locales \<open>codec\<close> and \<open>fallible_codec\<close>; whatever bytes are decoded,
    a decoded posting is well formed. Zstandard is the parameter \<open>Z\<close>.
  \<^item> \<^theory_text>\<open>Pack_Query\<close>, \<^theory_text>\<open>Sealed_Pack\<close> (\<^verbatim>\<open>src/bin/shard-log-pack-query-bench.rs\<close>,
    \<^verbatim>\<open>src/bin/shard-log-structural-bench.rs\<close>): indexing a pack and executing a query over it, with the
    theorem that composes all of the above. Reading the rows of a block is a parameter.
  \<^item> \<^theory_text>\<open>Locality\<close> (\<^verbatim>\<open>src/locality.rs\<close>): the collator that splits a block by similarity and assigns
    the parts to compression shards. The work loop ends, hands on every record once, and the
    back-off of splits ends too. The buffer library that divides the packed membership is the
    parameter \<open>H\<close>.
  \<^item> \<^theory_text>\<open>Dictionary\<close> (\<^verbatim>\<open>src/dictionary.rs\<close>): publication of immutable dictionaries and their LRU cache.
  \<^item> \<^theory_text>\<open>Hot_Postings\<close>, \<^theory_text>\<open>Hot_Index\<close> (\<^verbatim>\<open>src/stripe.rs\<close>): the posting lists of the hot index, the
    index of a partition with the message and field caches, and its query, which is \<open>select\<close> on the
    records of a partition whose index is exact.
  \<^item> \<^theory_text>\<open>Active_Block\<close> (\<^verbatim>\<open>src/stripe.rs\<close>, \<^verbatim>\<open>src/block.rs\<close>): active blocks and the catalog of sealed
    blocks. A staged payload stays until it is offloaded.
  \<^item> \<^theory_text>\<open>Block_Codec\<close>, \<^theory_text>\<open>Frame_Index\<close> (\<^verbatim>\<open>src/structural.rs\<close>): the primitives of the structural byte
    format, again as interpretations of \<open>codec\<close> and \<open>fallible_codec\<close>, and the index embedded in a
    frame. Its format is a round trip, and an index decoded from any bytes is safe to query: a
    panic of the source is \<open>None\<close>, and both lookups are shown to be \<open>Some\<close>.
  \<^item> \<^theory_text>\<open>Stripe\<close>, \<^theory_text>\<open>Stripe_Apply\<close> (\<^verbatim>\<open>src/stripe.rs\<close>, \<^verbatim>\<open>src/otlp.rs\<close>): the state of a stripe and its
    methods. A method returns the new state with its result, so that what a failed call leaves behind
    is part of the model. The Zstandard context, the encoder of blocks and the addresses of shared
    fields are the record \<open>stripe_env\<close>; the shared dictionary catalog and the order in which a hash
    map of active blocks is visited are arguments.
  \<^item> \<^theory_text>\<open>Stripe_Exact\<close>, \<^theory_text>\<open>Stripe_Run\<close>: every method keeps the index of every partition exact, and the
    methods as a step relation. In every reachable stripe the hot query is \<open>select\<close>, a batch appends
    what is new of it, a batch that was published can be published again without effect, and the
    rebalancing loop ends.

  \<^bold>\<open>Loops and bounds.\<close> Every loop of the source is a total recursive function; no fuel is used.
  Record ordinals have 32 bits, so that the theorems about a block or partition assume fewer than
  \<open>2\<^sup>3\<^sup>2\<close> records, as the source's own checks enforce. The record count of an active
  block, whose overflow the source turns into a panic, wraps in the model; it is exact below that
  bound. The next block identifier wraps in the source too, and the statements about the catalog
  stop before that.

  \<^bold>\<open>Limits of the program.\<close> Indexed queries assume texts without titlecase letters, and the trigram
  filter literals without a capital sigma when case matters. \<open>titlecase_term_unindexed\<close> and
  \<open>sigma_literal_rejected\<close> evaluate one input each on which the program differs from exact
  evaluation without these conditions.

  \<^bold>\<open>Not modelled.\<close> Network servers and HTTP routes, object storage, the background dictionary
  trainer, start-up and the benchmark drivers are input and output around the parts above. The
  structural column codec, building the embedded frame index from it, the ingest packs and the tier
  formats that rest on it are not modelled, nor are the queries over resident compressed frames:
  appending an ingest pack is a step that replaces the frame table of a stripe. The sink, its journal
  and deletion requests are not modelled.
\<close>

end
